(* ===== verification/Prelude.thy ===== *)
theory Prelude
  imports Main "HOL-Library.Word" "HOL-Library.Monad_Syntax"
begin

text \<open>
  Shared ground of the development: the C integer types of \<open>include/lib/types.h\<close> on the
  x86_64 target (\<open>ARCH_64BIT\<close>), the arithmetic macros of \<open>include/lib/const.h\<close>, and the
  facts about machine words, lists and the option monad that the component theories use.

  A C object of w bits is a \<open>w word\<close>; \<open>+\<close>, \<open>-\<close> and \<open>*\<close> wrap as the machine does, and
  signed reads go through \<open>sint\<close>.  An operation whose C text may leave its objects (an array
  index outside the array, a NULL dereference) returns an \<open>option\<close>: \<open>None\<close> is that fault.
\<close>

unbundle bit_operations_syntax

section \<open>Integer types of lib/types.h\<close>

type_synonym u8 = "8 word"
type_synonym u16 = "16 word"
type_synonym u32 = "32 word"
type_synonym u64 = "64 word"
type_synonym addr_t = "64 word"
type_synonym size_t = "64 word"
type_synonym ssize_t = "64 word"
type_synonym cint = "32 word"

section \<open>The macros of lib/const.h\<close>

definition size_mask :: "'a::len word \<Rightarrow> 'a word" where
  "size_mask s = s - 1"

definition bit_size :: "nat \<Rightarrow> 'a::len word" where
  "bit_size n = push_bit n 1"

definition bit_mask :: "nat \<Rightarrow> 'a::len word" where
  "bit_mask n = size_mask (bit_size n)"

definition bit_part :: "'a::len word \<Rightarrow> nat \<Rightarrow> nat \<Rightarrow> 'a word" where
  "bit_part x pos n = drop_bit pos x AND bit_mask n"

definition bit_build :: "'a::len word \<Rightarrow> nat \<Rightarrow> nat \<Rightarrow> 'a word" where
  "bit_build x pos n = push_bit pos (x AND bit_mask n)"

definition div_round_up :: "'a::len word \<Rightarrow> 'a word \<Rightarrow> 'a word" where
  "div_round_up x d = (x + d - 1) div d"

definition align :: "'a::len word \<Rightarrow> 'a word \<Rightarrow> 'a word" where
  "align x a = (x + size_mask a) AND NOT (size_mask a)"

definition align_down :: "'a::len word \<Rightarrow> 'a word \<Rightarrow> 'a word" where
  "align_down x a = x AND NOT (size_mask a)"

section \<open>Facts about the macros\<close>

lemma bit_mask_eq_mask: "bit_mask n = (mask n :: 'a::len word)"
  by (simp add: bit_mask_def size_mask_def bit_size_def mask_eq_exp_minus_1 push_bit_eq_mult)

lemma bit_bit_mask [bit_simps]: "bit (bit_mask n :: 'a::len word) j \<longleftrightarrow> j < LENGTH('a) \<and> j < n"
  by (simp add: bit_mask_eq_mask bit_simps)

lemma bit_bit_part: "bit (bit_part x pos n :: 'a::len word) j \<longleftrightarrow> j < n \<and> bit x (pos + j)"
  using bit_imp_le_length by (auto simp: bit_part_def bit_simps) fastforce

lemma align_down_pow2: "align_down x (2 ^ n) = x AND NOT (mask n)" for x :: "'a::len word"
  by (simp add: align_down_def size_mask_def mask_eq_exp_minus_1)

lemma align_down_eq: "align_down x (2 ^ n) = push_bit n (drop_bit n x)" for x :: "'a::len word"
  by (rule bit_word_eqI) (auto simp: align_down_pow2 bit_simps)

lemma unat_push_drop: "unat (push_bit n (drop_bit n x)) = unat x div 2 ^ n * 2 ^ n" for x :: "'a::len word"
proof -
  have "unat (push_bit n (drop_bit n x)) = take_bit LENGTH('a) (push_bit n (drop_bit n (unat x)))"
    by (simp add: unsigned_push_bit_eq unat_drop_bit_eq)
  also have "\<dots> = push_bit n (drop_bit n (unat x)) mod 2 ^ LENGTH('a)"
    by (simp add: take_bit_eq_mod)
  also have "\<dots> = unat x div 2 ^ n * 2 ^ n"
    using le_less_trans [OF div_times_less_eq_dividend unsigned_less [of x]]
    by (simp add: push_bit_eq_mult drop_bit_eq_div)
  finally show ?thesis .
qed

lemma unat_align_down: "unat (align_down x (2 ^ n)) = unat x div 2 ^ n * 2 ^ n" for x :: "'a::len word"
  by (simp add: align_down_eq unat_push_drop)

lemma align_eq_align_down: "align x a = align_down (x + size_mask a) a"
  by (simp add: align_def align_down_def)

lemma unat_align:
  fixes x :: "'a::len word"
  assumes "n < LENGTH('a)" "unat x + (2 ^ n - 1) < 2 ^ LENGTH('a)"
  shows "unat (align x (2 ^ n)) = (unat x + (2 ^ n - 1)) div 2 ^ n * 2 ^ n"
proof -
  have "unat (2 ^ n - 1 :: 'a word) = 2 ^ n - 1"
    using assms(1) by (metis mask_eq_exp_minus_1 take_bit_minus_one_eq_mask unsigned_minus_1_eq_mask
       unsigned_take_bit_eq take_bit_of_mask min.absorb1 less_imp_le)
  then have "unat (x + size_mask (2 ^ n)) = unat x + (2 ^ n - 1)"
    using assms(2) by (simp add: size_mask_def unat_add_lem [THEN iffD1])
  then show ?thesis
    by (simp add: align_eq_align_down unat_align_down)
qed

lemma unat_inc:
  fixes i n :: "'a::len word"
  assumes "i < n"
  shows "unat (i + 1) = unat i + 1"
proof -
  have "unat n < 2 ^ LENGTH('a)" by (rule unsigned_less)
  then show ?thesis
    using assms unat_add_lem [of i 1] unfolding word_less_nat_alt unsigned_1 by linarith
qed

end
