(* ===== verification/BitStore.thy ===== *)
theory BitStore
  imports Prelude
begin

text \<open>
  The interface between the bitmap of \<open>lib/bitmap.c\<close> and its clients: what a search over a
  store of bits returns (\<open>find_result\<close>), the locale \<open>bit_store\<close> with the laws a client may
  use, and the first-fit search loop that \<open>block_page_alloc\<close> (\<open>kernel/mm/memory.c\<close>) and the
  i386 \<open>arch_kmap\<close> share, proved once against those laws.
\<close>

section \<open>What a search returns\<close>

definition first_hit :: "(nat \<Rightarrow> bool) \<Rightarrow> bool \<Rightarrow> nat \<Rightarrow> nat \<Rightarrow> nat \<Rightarrow> bool" where
  "first_hit f v s e i \<longleftrightarrow> s \<le> i \<and> i < e \<and> f i = v \<and> (\<forall>k. s \<le> k \<and> k < i \<longrightarrow> f k \<noteq> v)"

definition no_hit :: "(nat \<Rightarrow> bool) \<Rightarrow> bool \<Rightarrow> nat \<Rightarrow> nat \<Rightarrow> bool" where
  "no_hit f v s e \<longleftrightarrow> (\<forall>k. s \<le> k \<and> k < e \<longrightarrow> f k \<noteq> v)"

lemma first_hit_extend: "no_hit f v s m \<Longrightarrow> first_hit f v m e i \<Longrightarrow> s \<le> m \<Longrightarrow> first_hit f v s e i"
  by (force simp: first_hit_def no_hit_def not_less)

lemma first_hit_widen: "first_hit f v s m i \<Longrightarrow> m \<le> e \<Longrightarrow> first_hit f v s e i"
  by (auto simp: first_hit_def)

lemma no_hit_join: "no_hit f v s m \<Longrightarrow> no_hit f v m e \<Longrightarrow> no_hit f v s e"
  by (force simp: no_hit_def not_less)

lemma no_hit_empty [simp]: "e \<le> s \<Longrightarrow> no_hit f v s e"
  by (auto simp: no_hit_def)

definition find_result :: "(nat \<Rightarrow> bool) \<Rightarrow> bool \<Rightarrow> nat \<Rightarrow> nat \<Rightarrow> cint option \<Rightarrow> bool" where
  "find_result f v s e r \<longleftrightarrow>
     no_hit f v s e \<and> r = Some (-1) \<or> (\<exists>i. first_hit f v s e i \<and> r = Some (of_nat i))"

lemma find_resultI:
  "no_hit f v s e \<Longrightarrow> r = Some (-1) \<Longrightarrow> find_result f v s e r"
  "first_hit f v s e i \<Longrightarrow> r = Some (of_nat i) \<Longrightarrow> find_result f v s e r"
  by (auto simp: find_result_def)

lemma find_result_extend:
  "no_hit f v s m \<Longrightarrow> find_result f v m e r \<Longrightarrow> s \<le> m \<Longrightarrow> find_result f v s e r"
  by (auto simp: find_result_def dest: no_hit_join first_hit_extend)

section \<open>The first-fit loop of the clients\<close>

fun run_search :: "nat \<Rightarrow> (cint \<Rightarrow> size_t \<Rightarrow> size_t \<Rightarrow> cint option) \<Rightarrow> size_t \<Rightarrow> size_t \<Rightarrow> ssize_t \<Rightarrow> ssize_t option option" where
  "run_search 0 fnd limit n r = None"
| "run_search (Suc fuel) fnd limit n r =
     (if r < limit then do {
        l \<leftarrow> fnd 0 r limit;
        r' \<leftarrow> fnd 1 (scast l) n;
        if scast r' = (- 1 :: ssize_t) then Some (Some (scast l))
        else run_search fuel fnd limit n (scast r') }
      else Some None)"

definition fits :: "(nat \<Rightarrow> bool) \<Rightarrow> nat \<Rightarrow> nat \<Rightarrow> nat \<Rightarrow> bool" where
  "fits f N n l \<longleftrightarrow> l < N \<and> (\<forall>i. l \<le> i \<and> i < min N (l + n) \<longrightarrow> \<not> f i)"

definition search_result :: "(nat \<Rightarrow> bool) \<Rightarrow> nat \<Rightarrow> nat \<Rightarrow> ssize_t option option \<Rightarrow> bool" where
  "search_result f N n res \<longleftrightarrow>
     (\<exists>l. res = Some (Some (of_nat l)) \<and> fits f N n l \<and> (\<forall>k < l. \<not> fits f N n k)) \<or>
     (res = Some (Some (-1)) \<or> res = Some None) \<and> (\<forall>k. \<not> fits f N n k)"

lemma scast_small:
  assumes "i < 2 ^ 31"
  shows "scast (of_nat i :: cint) = (of_nat i :: ssize_t)"
proof -
  have "sint (of_nat i :: cint) = int i"
    using assms by (simp add: signed_of_nat signed_take_bit_int_eq_self)
  then show ?thesis by (metis of_int_of_nat_eq scast_eq)
qed

lemma scast_m1: "scast (-1 :: cint) = (-1 :: ssize_t)"
  by simp

locale bit_store =
  fixes bset :: "'m \<Rightarrow> cint \<Rightarrow> size_t \<Rightarrow> size_t \<Rightarrow> 'm option"
    and bfind :: "'m \<Rightarrow> cint \<Rightarrow> size_t \<Rightarrow> size_t \<Rightarrow> cint option"
    and bit_of :: "'m \<Rightarrow> nat \<Rightarrow> bool"
    and nbits :: "'m \<Rightarrow> nat"
    and invar :: "'m \<Rightarrow> bool"
  assumes nbits_small: "invar m \<Longrightarrow> nbits m + 8 \<le> 2 ^ 31"
    and set_law: "invar m \<Longrightarrow> unat start \<le> nbits m \<Longrightarrow> unat start + unat n < 2 ^ 64 \<Longrightarrow>
      \<exists>m'. bset m v start n = Some m' \<and> invar m' \<and> nbits m' = nbits m \<and>
        (\<forall>i < nbits m. bit_of m' i = (if unat start \<le> i \<and> i < unat start + unat n then v \<noteq> 0 else bit_of m i))"
    and set_past: "invar m \<Longrightarrow> nbits m \<le> unat start \<Longrightarrow>
      \<exists>m'. bset m v start n = Some m' \<and> invar m' \<and> nbits m' = nbits m \<and> (\<forall>i < nbits m. bit_of m' i = bit_of m i)"
    and find_law: "invar m \<Longrightarrow> unat start \<le> nbits m \<Longrightarrow> unat start + unat n < 2 ^ 64 \<Longrightarrow>
      find_result (bit_of m) (v \<noteq> 0) (unat start) (min (nbits m) (unat start + unat n)) (bfind m v start n)"
    and find_past: "invar m \<Longrightarrow> nbits m \<le> unat start \<Longrightarrow>
      \<exists>r. bfind m v start n = Some r \<and> (r = -1 \<or> nbits m \<le> unat r \<and> unat r < 2 ^ 31)"
begin

lemma run_search_spec:
  assumes inv: "invar m" and lim: "unat limit = nbits m" and n0: "n \<noteq> 0" and nb: "nbits m + unat n < 2 ^ 64"
    and r: "unat r \<le> nbits m" "nbits m - unat r < fuel" "\<forall>k < unat r. \<not> fits (bit_of m) (nbits m) (unat n) k"
  shows "search_result (bit_of m) (nbits m) (unat n) (run_search fuel (bfind m) limit n r)"
  using r
proof (induction fuel arbitrary: r)
  case 0
  then show ?case by simp
next
  case (Suc fuel)
  let ?f = "bit_of m" and ?N = "nbits m"
  have N31: "?N + 8 \<le> 2 ^ 31" by (rule nbits_small [OF inv])
  have n1: "0 < unat n" using n0 by (simp add: unat_gt_0)
  show ?case
  proof (cases "r < limit")
    case False
    then have "unat r = ?N" using Suc.prems lim by (simp add: word_less_nat_alt)
    then show ?thesis using False Suc.prems(3) by (auto simp: search_result_def fits_def)
  next
    case True
    have "find_result ?f (0 \<noteq> (0 :: cint)) (unat r) (min ?N (unat r + unat limit)) (bfind m 0 r limit)"
      by (rule find_law [OF inv Suc.prems(1)]) (use Suc.prems(1) lim N31 in simp)
    then consider "no_hit ?f False (unat r) ?N" "bfind m 0 r limit = Some (-1)"
      | i where "first_hit ?f False (unat r) ?N i" "bfind m 0 r limit = Some (of_nat i)"
      by (auto simp: find_result_def lim)
    then show ?thesis
    proof cases
      case 1
      have none: "\<forall>k. \<not> fits ?f ?N (unat n) k"
      proof (intro allI notI)
        fix k assume k: "fits ?f ?N (unat n) k"
        then have "k < ?N" "\<not> ?f k" using n1 by (auto simp: fits_def)
        moreover have "\<not> k < unat r" using k Suc.prems(3) by blast
        ultimately show False using 1(1) by (auto simp: no_hit_def)
      qed
      have m1: "?N \<le> unat (-1 :: size_t)"
        using N31 by (simp add: unsigned_minus_1_eq_mask mask_eq_exp_minus_1)
      obtain r' where r': "bfind m 1 (-1) n = Some r'" "r' = -1 \<or> ?N \<le> unat r' \<and> unat r' < 2 ^ 31"
        using find_past [OF inv, of "-1" 1 n] m1 by auto
      have "run_search (Suc fuel) (bfind m) limit n r = Some (Some (-1)) \<or> run_search (Suc fuel) (bfind m) limit n r = Some None"
      proof (cases "scast r' = (-1 :: ssize_t)")
        case True
        then show ?thesis using \<open>r < limit\<close> 1(2) r'(1) by simp
      next
        case False
        then have b: "?N \<le> unat r'" "unat r' < 2 ^ 31" using r'(2) by auto
        then have "scast r' = (of_nat (unat r') :: ssize_t)" using scast_small [of "unat r'"] by simp
        moreover have "unat (of_nat (unat r') :: ssize_t) = unat r'" unfolding unat_of_nat using b(2) by simp
        ultimately have "\<not> scast r' < limit" using b lim by (simp add: word_less_nat_alt)
        moreover obtain g where "fuel = Suc g" using Suc.prems(2) True lim by (cases fuel) (auto simp: word_less_nat_alt)
        ultimately show ?thesis using \<open>r < limit\<close> 1(2) r'(1) False by simp
      qed
      then show ?thesis using none by (auto simp: search_result_def)
    next
      case (2 i)
      then have i: "unat r \<le> i" "i < ?N" "\<not> ?f i" "\<And>k. unat r \<le> k \<Longrightarrow> k < i \<Longrightarrow> ?f k"
        by (auto simp: first_hit_def)
      define l where "l = (of_nat i :: ssize_t)"
      have sl: "scast (of_nat i :: cint) = l" using scast_small [of i] i(2) N31 by (simp add: l_def)
      have ul: "unat l = i" using i(2) N31 by (simp add: l_def unat_of_nat)
      have before: "\<not> fits ?f ?N (unat n) k" if "k < i" for k
        using that i(4) [of k] Suc.prems(3) n1 i(2) by (cases "k < unat r") (auto simp: fits_def)
      have "find_result ?f (1 \<noteq> (0 :: cint)) (unat l) (min ?N (unat l + unat n)) (bfind m 1 l n)"
        by (rule find_law [OF inv]) (use ul i(2) nb in auto)
      then consider "no_hit ?f True i (min ?N (i + unat n))" "bfind m 1 l n = Some (-1)"
        | j where "first_hit ?f True i (min ?N (i + unat n)) j" "bfind m 1 l n = Some (of_nat j)"
        by (auto simp: find_result_def ul)
      then show ?thesis
      proof cases
        case 1
        then have "run_search (Suc fuel) (bfind m) limit n r = Some (Some (of_nat i))"
          using \<open>r < limit\<close> 2(2) sl l_def by simp
        moreover have "fits ?f ?N (unat n) i" using 1(1) i(2) by (auto simp: fits_def no_hit_def)
        ultimately show ?thesis using before by (auto simp: search_result_def)
      next
        case (2 j)
        then have j: "i < j" "j < ?N" "j < i + unat n" "?f j"
          using i(3) by (auto simp: first_hit_def le_less)
        define r2 where "r2 = (of_nat j :: ssize_t)"
        have sj: "scast (of_nat j :: cint) = r2" using scast_small [of j] j(2) N31 by (simp add: r2_def)
        have uj: "unat r2 = j" using j(2) N31 by (simp add: r2_def unat_of_nat)
        have r2m: "r2 \<noteq> -1" using uj j(2) N31 by (auto simp: unsigned_minus_1_eq_mask mask_eq_exp_minus_1)
        have "run_search (Suc fuel) (bfind m) limit n r = run_search fuel (bfind m) limit n r2"
          using \<open>r < limit\<close> \<open>bfind m 0 r limit = Some (of_nat i)\<close> 2(2) sl sj r2m by simp
        moreover have "\<not> fits ?f ?N (unat n) k" if "k < j" for k
        proof (cases "k < i")
          case True
          then show ?thesis by (rule before)
        next
          case False
          then have "k \<le> j \<and> j < min ?N (k + unat n) \<and> ?f j" using that j by auto
          then show ?thesis unfolding fits_def by blast
        qed
        ultimately show ?thesis
          using Suc.IH [of r2] uj j i Suc.prems(2) by auto
      qed
    qed
  qed
qed

end

end
