(* ===== verification/Bitmap.thy ===== *)
theory Bitmap
  imports BitStore
begin

text \<open>
  The bitmap of \<open>src/lib/bitmap.c\<close>: the structure is a record of the byte array and the number of
  bits; \<open>bitmap_set\<close> and \<open>bitmap_find\<close> follow the C text branch by branch (one byte, head fringe,
  whole bytes, tail fringe).  An access outside the array is \<open>None\<close>.  The masks are computed in
  \<open>int\<close> and cut to a byte as in C.  The end of the theory proves that both meet the interface
  \<open>bit_store\<close>, from which \<open>kernel/mm/memory.c\<close> is reasoned about.
\<close>

section \<open>The operations of lib/bitmap.c\<close>

record bitmap =
  map_arr :: "u8 list"
  map_size :: size_t

definition bitmap_init :: "u8 list \<Rightarrow> size_t \<Rightarrow> bitmap" where
  "bitmap_init arr sz = \<lparr>map_arr = arr, map_size = sz\<rparr>"

definition load_byte :: "u8 list \<Rightarrow> size_t \<Rightarrow> u8 option" where
  "load_byte arr i = (if unat i < length arr then Some (arr ! unat i) else None)"

definition store_byte :: "u8 list \<Rightarrow> size_t \<Rightarrow> u8 \<Rightarrow> u8 list option" where
  "store_byte arr i v = (if unat i < length arr then Some (arr[unat i := v]) else None)"

definition write_masked :: "u8 list \<Rightarrow> size_t \<Rightarrow> cint \<Rightarrow> u8 \<Rightarrow> u8 list option" where
  "write_masked arr i value m =
     do { b \<leftarrow> load_byte arr i;
          store_byte arr i (if value \<noteq> 0 then b OR m else b AND NOT m) }"

fun memset_arr :: "u8 list \<Rightarrow> size_t \<Rightarrow> u8 \<Rightarrow> nat \<Rightarrow> u8 list option" where
  "memset_arr arr p ch 0 = Some arr"
| "memset_arr arr p ch (Suc n) = do { arr' \<leftarrow> store_byte arr p ch; memset_arr arr' (p + 1) ch n }"

definition bit_range :: "size_t \<Rightarrow> size_t \<Rightarrow> size_t \<Rightarrow> size_t \<times> size_t \<times> size_t \<times> size_t" where
  "bit_range sz start len =
     (let start_bit = min sz start;
          end_bit = min sz (start + len);
          start_byte = drop_bit 3 (align start_bit 8);
          end_byte = drop_bit 3 end_bit;
          start_bound_bit = push_bit 3 start_byte - start_bit;
          end_bound_bit = end_bit - push_bit 3 end_byte
      in (start_byte, end_byte, start_bound_bit, end_bound_bit))"

definition head_mask :: "size_t \<Rightarrow> cint" where
  "head_mask start_bound_bit = NOT (bit_mask (unat (8 - start_bound_bit)))"

definition tail_mask :: "size_t \<Rightarrow> cint" where
  "tail_mask end_bound_bit = bit_mask (unat end_bound_bit)"

definition bitmap_set :: "bitmap \<Rightarrow> cint \<Rightarrow> size_t \<Rightarrow> size_t \<Rightarrow> bitmap option" where
  "bitmap_set bm value start len =
     (case bit_range (map_size bm) start len of (start_byte, end_byte, start_bound_bit, end_bound_bit) \<Rightarrow>
      if end_byte < start_byte
      then do { arr \<leftarrow> write_masked (map_arr bm) (start_byte - 1) value
                       (ucast (head_mask start_bound_bit AND tail_mask end_bound_bit));
                Some (bm\<lparr>map_arr := arr\<rparr>) }
      else do {
        arr1 \<leftarrow> (if start_bound_bit \<noteq> 0
                then write_masked (map_arr bm) (start_byte - 1) value (ucast (head_mask start_bound_bit))
                else Some (map_arr bm));
        arr2 \<leftarrow> (if end_byte > start_byte
                then memset_arr arr1 start_byte (if value \<noteq> 0 then 0xFF else 0x0) (unat (end_byte - start_byte))
                else Some arr1);
        arr3 \<leftarrow> (if end_bound_bit \<noteq> 0
                then write_masked arr2 end_byte value (ucast (tail_mask end_bound_bit))
                else Some arr2);
        Some (bm\<lparr>map_arr := arr3\<rparr>) })"

function low_ones :: "u8 \<Rightarrow> size_t \<Rightarrow> size_t" where
  "low_ones byte pos = (if byte AND 1 \<noteq> 0 then low_ones (drop_bit 1 byte) (pos + 1) else pos)"
  by pat_completeness auto
termination
proof (relation "measure (\<lambda>(b, p). unat b)")
  fix b :: u8 and p :: size_t
  assume "b AND 1 \<noteq> 0"
  then have "b \<noteq> 0" by auto
  then have "unat b > 0" by (simp add: unat_gt_0)
  then show "((drop_bit 1 b, p + 1), (b, p)) \<in> measure (\<lambda>(b, p). unat b)"
    by (simp add: drop_bit_eq_div unat_div_distrib)
qed simp

declare low_ones.simps [simp del]

definition found_pos :: "cint \<Rightarrow> size_t \<Rightarrow> u8 \<Rightarrow> cint" where
  "found_pos value found_byte byte =
     ucast (push_bit 3 found_byte + low_ones (if value \<noteq> 0 then NOT byte else byte) 0)"

definition masked_read :: "u8 list \<Rightarrow> size_t \<Rightarrow> cint \<Rightarrow> u8 \<Rightarrow> u8 option" where
  "masked_read arr i value m =
     do { b \<leftarrow> load_byte arr i; Some (if value \<noteq> 0 then b AND m else b OR NOT m) }"

fun scan_bytes :: "u8 list \<Rightarrow> size_t \<Rightarrow> u8 \<Rightarrow> nat \<Rightarrow> (size_t \<times> u8) option option" where
  "scan_bytes arr i skip 0 = Some None"
| "scan_bytes arr i skip (Suc n) =
     do { byte \<leftarrow> load_byte arr i;
          if byte \<noteq> skip then Some (Some (i, byte)) else scan_bytes arr (i + 1) skip n }"

definition bitmap_find :: "bitmap \<Rightarrow> cint \<Rightarrow> size_t \<Rightarrow> size_t \<Rightarrow> cint option" where
  "bitmap_find bm value start len =
     (case bit_range (map_size bm) start len of (start_byte, end_byte, start_bound_bit, end_bound_bit) \<Rightarrow>
      let skip = (if value \<noteq> 0 then 0x0 else 0xFF) :: u8
      in if end_byte < start_byte
         then do { byte \<leftarrow> masked_read (map_arr bm) (start_byte - 1) value
                           (ucast (head_mask start_bound_bit AND tail_mask end_bound_bit));
                   Some (if byte \<noteq> skip then found_pos value (start_byte - 1) byte else -1) }
         else do {
           head_byte \<leftarrow> (if start_bound_bit \<noteq> 0
                        then masked_read (map_arr bm) (start_byte - 1) value (ucast (head_mask start_bound_bit))
                        else Some skip);
           if head_byte \<noteq> skip then Some (found_pos value (start_byte - 1) head_byte)
           else do {
             mid \<leftarrow> scan_bytes (map_arr bm) start_byte skip (unat (end_byte - start_byte));
             case mid of
               Some (i, byte) \<Rightarrow> Some (found_pos value i byte)
             | None \<Rightarrow>
                 if end_bound_bit \<noteq> 0
                 then do { byte \<leftarrow> masked_read (map_arr bm) end_byte value (ucast (tail_mask end_bound_bit));
                           Some (if byte \<noteq> skip then found_pos value end_byte byte else -1) }
                 else Some (-1) } })"

definition bit_at :: "bitmap \<Rightarrow> nat \<Rightarrow> bool" where
  "bit_at bm i = bit (map_arr bm ! (i div 8)) (i mod 8)"

definition bitmap_wf :: "bitmap \<Rightarrow> bool" where
  "bitmap_wf bm \<longleftrightarrow> unat (map_size bm) \<le> 8 * length (map_arr bm) \<and> unat (map_size bm) + 7 < 2 ^ 64"

lemma write_masked_spec:
  assumes "unat i < length arr"
  shows "\<exists>arr'. write_masked arr i value m = Some arr' \<and> length arr' = length arr \<and>
     (\<forall>k j. k < length arr \<longrightarrow> bit (arr' ! k) j = (if k = unat i \<and> bit m j then value \<noteq> 0 else bit (arr ! k) j))"
  using assms
  by (auto simp: write_masked_def load_byte_def store_byte_def nth_list_update bit_simps dest: bit_imp_le_length)

lemma memset_arr_spec:
  assumes "unat p + n \<le> length arr" "unat p + n < 2 ^ 64"
  shows "\<exists>arr'. memset_arr arr p ch n = Some arr' \<and> length arr' = length arr \<and>
     (\<forall>k < length arr. arr' ! k = (if unat p \<le> k \<and> k < unat p + n then ch else arr ! k))"
  using assms
proof (induction n arbitrary: arr p)
  case 0
  then show ?case by auto
next
  case (Suc n)
  have p1: "unat (p + 1) = unat p + 1"
    using Suc.prems by (simp add: unat_word_ariths)
  have st: "store_byte arr p ch = Some (arr[unat p := ch])"
    using Suc.prems by (simp add: store_byte_def)
  from Suc.IH [of "p + 1" "arr[unat p := ch]"] Suc.prems p1
  obtain arr' where a: "memset_arr (arr[unat p := ch]) (p + 1) ch n = Some arr'" "length arr' = length arr"
     "\<forall>k < length arr. arr' ! k = (if unat p + 1 \<le> k \<and> k < unat p + 1 + n then ch else arr[unat p := ch] ! k)"
    by auto
  then show ?case
    using Suc.prems by (auto simp: st nth_list_update)
qed

lemma bit_full_byte: "bit (0xFF :: u8) j \<longleftrightarrow> j < 8"
proof -
  have "(0xFF :: u8) = - 1" by simp
  then show ?thesis by (simp only: bit_minus_1_iff possible_bit_word) simp
qed

text \<open>The byte and bit positions the two operations compute, read as naturals.\<close>

lemma ceil8: "(s + 7) div 8 = (if s mod 8 = 0 then s div 8 else s div 8 + (1::nat))"
  by presburger

lemma range_geometry:
  fixes s e :: size_t
  assumes "unat s + 7 < 2 ^ 64"
  shows "unat (drop_bit 3 (align s 8)) = (unat s + 7) div 8"
    and "unat (drop_bit 3 e) = unat e div 8"
    and "unat (push_bit 3 (drop_bit 3 (align s 8)) - s) = (unat s + 7) div 8 * 8 - unat s"
    and "unat (e - push_bit 3 (drop_bit 3 e)) = unat e mod 8"
    and "unat (8 - (push_bit 3 (drop_bit 3 (align s 8)) - s)) = 8 - ((unat s + 7) div 8 * 8 - unat s)"
proof -
  have al: "unat (align s 8) = (unat s + 7) div 8 * 8"
    using unat_align [of 3 s] assms by simp
  show 1: "unat (drop_bit 3 (align s 8)) = (unat s + 7) div 8"
    by (simp add: drop_bit_eq_div unat_div_distrib al)
  show "unat (drop_bit 3 e) = unat e div 8"
    by (simp add: drop_bit_eq_div unat_div_distrib)
  have p: "unat (push_bit 3 (drop_bit 3 (align s 8))) = (unat s + 7) div 8 * 8"
    using unat_push_drop [of 3 "align s 8"] al by simp
  have "s \<le> push_bit 3 (drop_bit 3 (align s 8))"
    unfolding word_le_nat_alt p by presburger
  then show 3: "unat (push_bit 3 (drop_bit 3 (align s 8)) - s) = (unat s + 7) div 8 * 8 - unat s"
    by (simp only: unat_sub p)
  have q: "unat (push_bit 3 (drop_bit 3 e)) = unat e div 8 * 8"
    using unat_push_drop [of 3 e] by simp
  then have "push_bit 3 (drop_bit 3 e) \<le> e"
    unfolding word_le_nat_alt by simp
  then show "unat (e - push_bit 3 (drop_bit 3 e)) = unat e mod 8"
    by (simp only: unat_sub q minus_div_mult_eq_mod)
  have "push_bit 3 (drop_bit 3 (align s 8)) - s \<le> 8"
    unfolding word_le_nat_alt 3 by simp
  then show "unat (8 - (push_bit 3 (drop_bit 3 (align s 8)) - s)) = 8 - ((unat s + 7) div 8 * 8 - unat s)"
    by (simp only: unat_sub 3) simp
qed

lemma bit_ucast_u8: "bit (ucast (w :: cint) :: u8) j \<longleftrightarrow> j < 8 \<and> bit w j"
  by (simp add: bit_simps)

lemma bit_head_mask: "bit (head_mask b) j \<longleftrightarrow> j < 32 \<and> unat (8 - b) \<le> j"
  by (auto simp: head_mask_def bit_simps)

lemma bit_tail_mask: "bit (tail_mask b) j \<longleftrightarrow> j < 32 \<and> j < unat b"
  by (auto simp: tail_mask_def bit_simps)

text \<open>
  The requested range, clipped to the map, is \<open>[s, e)\<close>: \<open>bit_range\<close> returns its first whole
  byte, the byte holding its end, and two masks that select the head and tail bits.
\<close>

lemma bit_range_spec:
  assumes "unat sz + 7 < 2 ^ 64"
    and "s = min (unat sz) (unat start)" "e = min (unat sz) (unat (start + len))"
  obtains sb eb sbb ebb where
    "bit_range sz start len = (sb, eb, sbb, ebb)"
    "eb < sb \<longleftrightarrow> e div 8 < (if s mod 8 = 0 then s div 8 else s div 8 + 1)"
    "unat sb = (if s mod 8 = 0 then s div 8 else s div 8 + 1)" "unat eb = e div 8"
    "s mod 8 \<noteq> 0 \<Longrightarrow> unat (sb - 1) = s div 8"
    "sbb = 0 \<longleftrightarrow> s mod 8 = 0" "ebb = 0 \<longleftrightarrow> e mod 8 = 0"
    "\<And>j. bit (ucast (head_mask sbb) :: u8) j \<longleftrightarrow> (if s mod 8 = 0 then 8 else s mod 8) \<le> j \<and> j < 8"
    "\<And>j. bit (ucast (tail_mask ebb) :: u8) j \<longleftrightarrow> j < e mod 8"
    "\<And>j. bit (ucast (head_mask sbb AND tail_mask ebb) :: u8) j \<longleftrightarrow>
       (if s mod 8 = 0 then 8 else s mod 8) \<le> j \<and> j < e mod 8"
proof -
  define S E where "S = min sz start" and "E = min sz (start + len)"
  have US: "unat S = s" and UE: "unat E = e"
    by (auto simp: S_def E_def assms min_def word_le_nat_alt)
  define sb eb where "sb = drop_bit 3 (align S 8)" and "eb = drop_bit 3 E"
  define sbb ebb where "sbb = push_bit 3 sb - S" and "ebb = E - push_bit 3 eb"
  have s7: "unat S + 7 < 2 ^ 64" using assms US by simp
  note g = range_geometry(1,3,5) [OF s7, folded sb_def, folded sbb_def, unfolded US ceil8]
    range_geometry(2,4) [where s = S and e = E, OF s7, folded eb_def, folded ebb_def, unfolded UE]
  have u: "unat (8 - sbb) = (if s mod 8 = 0 then 8 else s mod 8)"
    using g(3) minus_div_mult_eq_mod [of s 8] by (auto simp: add_mult_distrib split: if_splits)
  have z: "sbb = 0 \<longleftrightarrow> s mod 8 = 0"
  proof -
    have "unat sbb = 0 \<longleftrightarrow> s mod 8 = 0" using g(2) by (auto split: if_splits)
    then show ?thesis by (simp add: unat_0_iff)
  qed
  have e8: "e mod 8 < 8" by simp
  show thesis
  proof (rule that [of sb eb sbb ebb])
    show "bit_range sz start len = (sb, eb, sbb, ebb)"
      by (simp add: bit_range_def Let_def S_def E_def sb_def eb_def sbb_def ebb_def)
    show "eb < sb \<longleftrightarrow> e div 8 < (if s mod 8 = 0 then s div 8 else s div 8 + 1)"
      by (simp only: word_less_nat_alt g)
    show "unat (sb - 1) = s div 8" if "s mod 8 \<noteq> 0"
      using g(1) that by (subst unat_minus_one) (auto simp: unat_gt_0 [symmetric] unat_0_iff [symmetric])
    show "ebb = 0 \<longleftrightarrow> e mod 8 = 0" using g(5) by (metis unat_0_iff)
    show "bit (ucast (head_mask sbb) :: u8) j \<longleftrightarrow> (if s mod 8 = 0 then 8 else s mod 8) \<le> j \<and> j < 8" for j
      unfolding bit_ucast_u8 bit_head_mask u by auto
    show "bit (ucast (tail_mask ebb) :: u8) j \<longleftrightarrow> j < e mod 8" for j
      unfolding bit_ucast_u8 bit_tail_mask g(5) using e8 by auto
    show "bit (ucast (head_mask sbb AND tail_mask ebb) :: u8) j \<longleftrightarrow>
       (if s mod 8 = 0 then 8 else s mod 8) \<le> j \<and> j < e mod 8" for j
      unfolding bit_ucast_u8 bit_and_iff bit_head_mask bit_tail_mask g(5) u using e8 by auto
  qed (fact g z)+
qed


lemma byte_bit_split: obtains q r where "(a::nat) = 8 * q + r" "r < 8" "a div 8 = q" "a mod 8 = r"
  using mult_div_mod_eq [of 8 a] mod_less_divisor [of 8 a] by (metis zero_less_numeral)

lemma le_byte_bit: "(a::nat) \<le> b \<longleftrightarrow> a div 8 < b div 8 \<or> a div 8 = b div 8 \<and> a mod 8 \<le> b mod 8"
  by (rule byte_bit_split [of a]; rule byte_bit_split [of b]) (simp, linarith?)

lemma less_byte_bit: "(a::nat) < b \<longleftrightarrow> a div 8 < b div 8 \<or> a div 8 = b div 8 \<and> a mod 8 < b mod 8"
  by (metis le_byte_bit leD leI le_neq_implies_less less_le_not_le linorder_neqE_nat nat_less_le)

lemma byte_in_array: "(i::nat) < 8 * n \<longleftrightarrow> i div 8 < n"
  by (simp add: div_less_iff_less_mult mult.commute)

lemma byte_in_array_end: "(e::nat) \<le> 8 * n \<Longrightarrow> e div 8 < n \<or> e div 8 = n \<and> e mod 8 = 0"
  using byte_in_array [of e n] by (cases "e = 8 * n") auto

lemma set_head_step:
  assumes "s mod 8 \<noteq> 0 \<longrightarrow> s div 8 < length arr \<and> unat (sb - 1) = s div 8"
    and "sbb = 0 \<longleftrightarrow> s mod 8 = 0"
    and "\<And>j. bit (ucast (head_mask sbb) :: u8) j \<longleftrightarrow> (if s mod 8 = 0 then 8 else s mod 8) \<le> j \<and> j < 8"
  obtains a where
    "(if sbb \<noteq> 0 then write_masked arr (sb - 1) v (ucast (head_mask sbb)) else Some arr) = Some a"
    "length a = length arr"
    "\<And>k j. k < length arr \<Longrightarrow> j < 8 \<Longrightarrow>
       bit (a ! k) j = (if s mod 8 \<noteq> 0 \<and> k = s div 8 \<and> s mod 8 \<le> j then v \<noteq> 0 else bit (arr ! k) j)"
proof (cases "s mod 8 = 0")
  case True
  then show thesis using that [of arr] assms(2) by simp
next
  case False
  then have "unat (sb - 1) < length arr" using assms(1) by simp
  from write_masked_spec [OF this, of v "ucast (head_mask sbb)"] obtain a where
    "write_masked arr (sb - 1) v (ucast (head_mask sbb)) = Some a" "length a = length arr"
    "\<And>k j. k < length arr \<Longrightarrow> bit (a ! k) j =
       (if k = unat (sb - 1) \<and> bit (ucast (head_mask sbb) :: u8) j then v \<noteq> 0 else bit (arr ! k) j)"
    by auto
  then show thesis using that [of a] False assms by auto
qed

lemma set_middle_step:
  assumes "unat sb \<le> unat eb" "unat eb \<le> length arr"
  obtains a where
    "(if eb > sb then memset_arr arr sb fill (unat (eb - sb)) else Some arr) = Some a" "length a = length arr"
    "\<And>k. k < length arr \<Longrightarrow> a ! k = (if unat sb \<le> k \<and> k < unat eb then fill else arr ! k)"
proof (cases "eb > sb")
  case True
  have ud: "unat (eb - sb) = unat eb - unat sb" using assms by (simp add: unat_sub word_le_nat_alt)
  have "unat sb + unat (eb - sb) \<le> length arr" "unat sb + unat (eb - sb) < 2 ^ 64"
    using ud assms unsigned_less [of eb] by auto
  from memset_arr_spec [OF this, of fill] obtain a where
    "memset_arr arr sb fill (unat (eb - sb)) = Some a" "length a = length arr"
    "\<And>k. k < length arr \<Longrightarrow> a ! k = (if unat sb \<le> k \<and> k < unat sb + unat (eb - sb) then fill else arr ! k)"
    by auto
  then show thesis using that [of a] True ud assms by auto
next
  case False
  then have eq: "unat sb = unat eb" using assms by (simp add: word_less_nat_alt)
  show thesis by (rule that [of arr]) (auto simp: eq False)
qed

lemma set_tail_step:
  assumes "e mod 8 \<noteq> 0 \<longrightarrow> e div 8 < length arr" "unat eb = e div 8" "ebb = 0 \<longleftrightarrow> e mod 8 = 0"
    and "\<And>j. bit (ucast (tail_mask ebb) :: u8) j \<longleftrightarrow> j < e mod 8"
  obtains a where
    "(if ebb \<noteq> 0 then write_masked arr eb v (ucast (tail_mask ebb)) else Some arr) = Some a"
    "length a = length arr"
    "\<And>k j. k < length arr \<Longrightarrow> j < 8 \<Longrightarrow>
       bit (a ! k) j = (if k = e div 8 \<and> j < e mod 8 then v \<noteq> 0 else bit (arr ! k) j)"
proof (cases "e mod 8 = 0")
  case True
  then show thesis using that [of arr] assms(3) by simp
next
  case False
  then have "unat eb < length arr" using assms(1,2) by simp
  from write_masked_spec [OF this, of v "ucast (tail_mask ebb)"] obtain a where
    "write_masked arr eb v (ucast (tail_mask ebb)) = Some a" "length a = length arr"
    "\<And>k j. k < length arr \<Longrightarrow> bit (a ! k) j =
       (if k = unat eb \<and> bit (ucast (tail_mask ebb) :: u8) j then v \<noteq> 0 else bit (arr ! k) j)"
    by auto
  then show thesis using that [of a] False assms by auto
qed
lemma bitmap_set_spec:
  assumes wf: "bitmap_wf bm"
    and s: "s = min (unat (map_size bm)) (unat start)"
    and e: "e = min (unat (map_size bm)) (unat (start + len))"
    and le: "s \<le> e"
  obtains arr where "bitmap_set bm v start len = Some (bm\<lparr>map_arr := arr\<rparr>)"
    "length arr = length (map_arr bm)"
    "\<And>i. i < 8 * length (map_arr bm) \<Longrightarrow>
       bit_at (bm\<lparr>map_arr := arr\<rparr>) i = (if s \<le> i \<and> i < e then v \<noteq> 0 else bit_at bm i)"
proof -
  let ?arr = "map_arr bm" and ?n = "length (map_arr bm)"
  have s7: "unat (map_size bm) + 7 < 2 ^ 64" and n: "unat (map_size bm) \<le> 8 * ?n"
    using wf by (auto simp: bitmap_wf_def)
  obtain sb eb sbb ebb where
    r: "bit_range (map_size bm) start len = (sb, eb, sbb, ebb)"
    and lt: "eb < sb \<longleftrightarrow> e div 8 < (if s mod 8 = 0 then s div 8 else s div 8 + 1)"
    and usb: "unat sb = (if s mod 8 = 0 then s div 8 else s div 8 + 1)" and ueb: "unat eb = e div 8"
    and sb1: "s mod 8 \<noteq> 0 \<Longrightarrow> unat (sb - 1) = s div 8"
    and z: "sbb = 0 \<longleftrightarrow> s mod 8 = 0" "ebb = 0 \<longleftrightarrow> e mod 8 = 0"
    and hm: "\<And>j. bit (ucast (head_mask sbb) :: u8) j \<longleftrightarrow> (if s mod 8 = 0 then 8 else s mod 8) \<le> j \<and> j < 8"
    and tm: "\<And>j. bit (ucast (tail_mask ebb) :: u8) j \<longleftrightarrow> j < e mod 8"
    and bm: "\<And>j. bit (ucast (head_mask sbb AND tail_mask ebb) :: u8) j \<longleftrightarrow>
       (if s mod 8 = 0 then 8 else s mod 8) \<le> j \<and> j < e mod 8"
    apply (rule bit_range_spec [OF s7 s e])
    apply (rule that, assumption+)
    done
  have en: "e div 8 < ?n \<or> e div 8 = ?n \<and> e mod 8 = 0"
    using byte_in_array_end [of e ?n] n e by simp
  have le': "s div 8 < e div 8 \<or> s div 8 = e div 8 \<and> s mod 8 \<le> e mod 8"
    using le le_byte_bit [of s e] by blast
  show thesis
  proof (cases "eb < sb")
    case True
    then have sm: "s mod 8 \<noteq> 0" and eq: "e div 8 = s div 8" using lt le' by (auto split: if_splits)
    have "unat (sb - 1) < ?n" using sb1 sm eq en le' by auto
    from write_masked_spec [OF this, of v "ucast (head_mask sbb AND tail_mask ebb)"] obtain a where
      a: "write_masked ?arr (sb - 1) v (ucast (head_mask sbb AND tail_mask ebb)) = Some a" "length a = ?n"
      "\<And>k j. k < ?n \<Longrightarrow> bit (a ! k) j = (if k = s div 8 \<and> s mod 8 \<le> j \<and> j < e mod 8 then v \<noteq> 0 else bit (?arr ! k) j)"
      using sb1 sm bm by auto
    show thesis
    proof (rule that [of a])
      show "bitmap_set bm v start len = Some (bm\<lparr>map_arr := a\<rparr>)"
        using a(1) True by (simp add: bitmap_set_def r)
      show "bit_at (bm\<lparr>map_arr := a\<rparr>) i = (if s \<le> i \<and> i < e then v \<noteq> 0 else bit_at bm i)"
        if "i < 8 * ?n" for i
        using that sm eq unfolding bit_at_def byte_in_array
        by (auto simp: a(3) le_byte_bit [of s] less_byte_bit [of _ e])
    qed (fact a(2))
  next
    case False
    then have sbe: "unat sb \<le> unat eb" by (simp add: word_less_nat_alt)
    define fill where "fill = (if v \<noteq> 0 then 0xFF else 0x0 :: u8)"
    have sn: "s mod 8 \<noteq> 0 \<longrightarrow> s div 8 < ?n \<and> unat (sb - 1) = s div 8" using sbe usb ueb en sb1 by auto
    obtain a1 where a1: "(if sbb \<noteq> 0 then write_masked ?arr (sb - 1) v (ucast (head_mask sbb)) else Some ?arr) = Some a1"
      "length a1 = ?n"
      "\<And>k j. k < ?n \<Longrightarrow> j < 8 \<Longrightarrow> bit (a1 ! k) j = (if s mod 8 \<noteq> 0 \<and> k = s div 8 \<and> s mod 8 \<le> j then v \<noteq> 0 else bit (?arr ! k) j)"
      apply (rule set_head_step [where v = v, OF sn z(1) hm])
      apply (rule that, assumption+)
      done
    have "unat eb \<le> length a1" using ueb en a1(2) by auto
    from set_middle_step [OF sbe this, of fill] obtain a2 where
      a2: "(if eb > sb then memset_arr a1 sb fill (unat (eb - sb)) else Some a1) = Some a2" "length a2 = ?n"
      "\<And>k. k < ?n \<Longrightarrow> a2 ! k = (if unat sb \<le> k \<and> k < unat eb then fill else a1 ! k)"
      using a1(2) by metis
    have "e mod 8 \<noteq> 0 \<longrightarrow> e div 8 < length a2" using en a2(2) by auto
    from set_tail_step [where v = v, OF this ueb z(2) tm] obtain a3 where
      a3: "(if ebb \<noteq> 0 then write_masked a2 eb v (ucast (tail_mask ebb)) else Some a2) = Some a3" "length a3 = ?n"
      "\<And>k j. k < ?n \<Longrightarrow> j < 8 \<Longrightarrow> bit (a3 ! k) j = (if k = e div 8 \<and> j < e mod 8 then v \<noteq> 0 else bit (a2 ! k) j)"
      using a2(2) by metis
    show thesis
    proof (rule that [of a3])
      show "bitmap_set bm v start len = Some (bm\<lparr>map_arr := a3\<rparr>)"
        by (simp only: bitmap_set_def r prod.case False if_False fill_def [symmetric]
            a1(1) a2(1) a3(1) Option.bind.simps)
      show "bit_at (bm\<lparr>map_arr := a3\<rparr>) i = (if s \<le> i \<and> i < e then v \<noteq> 0 else bit_at bm i)"
        if "i < 8 * ?n" for i
      proof -
        have k: "i div 8 < ?n" and j: "i mod 8 < 8" using that by (simp_all add: byte_in_array)
        have f: "bit fill (i mod 8) = (v \<noteq> 0)" by (simp add: fill_def bit_full_byte del: bit_numeral_word_iff)
        have 1: "bit (a2 ! (i div 8)) (i mod 8) =
            (if unat sb \<le> i div 8 \<and> i div 8 < e div 8 then v \<noteq> 0 else bit (a1 ! (i div 8)) (i mod 8))"
          by (simp add: a2(3) [OF k] f ueb)
        have 2: "s \<le> i \<longleftrightarrow> s mod 8 \<noteq> 0 \<and> i div 8 = s div 8 \<and> s mod 8 \<le> i mod 8 \<or> unat sb \<le> i div 8"
          unfolding le_byte_bit [of s] usb by (cases "s mod 8 = 0") auto
        have 3: "i < e \<longleftrightarrow> i div 8 = e div 8 \<and> i mod 8 < e mod 8 \<or> i div 8 < e div 8"
          unfolding less_byte_bit [of _ e] by auto
        have 4: "i div 8 = s div 8 \<Longrightarrow> s mod 8 \<noteq> 0 \<Longrightarrow> i div 8 < e div 8"
          using sbe usb ueb by simp
        have 5: "i div 8 = e div 8 \<Longrightarrow> unat sb \<le> i div 8"
          using sbe ueb by simp
        have 6: "bit_at (bm\<lparr>map_arr := a3\<rparr>) i = bit (a3 ! (i div 8)) (i mod 8)"
          by (simp add: bit_at_def)
        show ?thesis
          unfolding 6 unfolding bit_at_def a3(3) [OF k j] 1 a1(3) [OF k j] 2 3
          using 4 5 by (cases "i div 8 = e div 8"; cases "i div 8 < e div 8") auto
      qed
    qed (fact a3(2))
  qed
qed

lemma bitmap_set_past_end:
  assumes wf: "bitmap_wf bm" and past: "unat (map_size bm) \<le> unat start"
  obtains arr where "bitmap_set bm v start len = Some (bm\<lparr>map_arr := arr\<rparr>)"
    "length arr = length (map_arr bm)"
    "\<And>i. i < unat (map_size bm) \<Longrightarrow> bit_at (bm\<lparr>map_arr := arr\<rparr>) i = bit_at bm i"
proof -
  let ?arr = "map_arr bm" and ?n = "length (map_arr bm)"
  define s e where "s = min (unat (map_size bm)) (unat start)" and "e = min (unat (map_size bm)) (unat (start + len))"
  have ss: "s = unat (map_size bm)" using past by (simp add: s_def)
  have s7: "unat (map_size bm) + 7 < 2 ^ 64" and n: "unat (map_size bm) \<le> 8 * ?n"
    using wf by (auto simp: bitmap_wf_def)
  show thesis
  proof (cases "s \<le> e")
    case True
    obtain arr where
      "bitmap_set bm v start len = Some (bm\<lparr>map_arr := arr\<rparr>)" "length arr = ?n"
      "\<And>i. i < 8 * ?n \<Longrightarrow> bit_at (bm\<lparr>map_arr := arr\<rparr>) i = (if s \<le> i \<and> i < e then v \<noteq> 0 else bit_at bm i)"
      by (rule bitmap_set_spec [OF wf s_def e_def True]) (rule that; assumption)
    then show thesis using that [of arr] ss n by auto
  next
    case False
    obtain sb eb sbb ebb where
      r: "bit_range (map_size bm) start len = (sb, eb, sbb, ebb)"
      and lt: "eb < sb \<longleftrightarrow> e div 8 < (if s mod 8 = 0 then s div 8 else s div 8 + 1)"
      and sb: "s mod 8 \<noteq> 0 \<Longrightarrow> unat (sb - 1) = s div 8" "unat sb = (if s mod 8 = 0 then s div 8 else s div 8 + 1)"
      and bm: "\<And>j. bit (ucast (head_mask sbb AND tail_mask ebb) :: u8) j \<longleftrightarrow>
         (if s mod 8 = 0 then 8 else s mod 8) \<le> j \<and> j < e mod 8"
      by (rule bit_range_spec [OF s7 s_def e_def]) (rule that; assumption)
    have eb: "eb < sb" using lt False by (auto simp: le_byte_bit [of s] split: if_splits)
    have in_n: "unat (sb - 1) < ?n"
    proof -
      have "s div 8 < ?n \<or> s div 8 = ?n \<and> s mod 8 = 0" using byte_in_array_end n ss by simp
      moreover have pos: "0 < unat sb"
        using eb unfolding word_less_nat_alt by linarith
      moreover have "unat (sb - 1) = unat sb - 1"
        using pos by (intro unat_minus_one) auto
      ultimately show ?thesis using sb by (auto split: if_splits)
    qed
    from write_masked_spec [OF this, of v "ucast (head_mask sbb AND tail_mask ebb)"] obtain a where
      a: "write_masked ?arr (sb - 1) v (ucast (head_mask sbb AND tail_mask ebb)) = Some a" "length a = ?n"
      "\<And>k j. k < ?n \<Longrightarrow> bit (a ! k) j = (if k = unat (sb - 1) \<and> (if s mod 8 = 0 then 8 else s mod 8) \<le> j \<and> j < e mod 8
         then v \<noteq> 0 else bit (?arr ! k) j)"
      using bm by auto
    show thesis
    proof (rule that [of a])
      show "bitmap_set bm v start len = Some (bm\<lparr>map_arr := a\<rparr>)"
        using a(1) eb by (simp add: bitmap_set_def r)
      fix i assume i: "i < unat (map_size bm)"
      then have "i div 8 < ?n" using n byte_in_array by (metis less_le_trans)
      moreover have "\<not> (i div 8 = unat (sb - 1) \<and> (if s mod 8 = 0 then 8 else s mod 8) \<le> i mod 8 \<and> i mod 8 < e mod 8)"
      proof (cases "s mod 8 = 0")
        case True
        then show ?thesis using mod_less_divisor [of 8 i] by simp
      next
        case False
        have "i div 8 < s div 8 \<or> i div 8 = s div 8 \<and> i mod 8 < s mod 8"
          using i ss less_byte_bit [of i s] by blast
        then show ?thesis using False sb(1) by auto
      qed
      ultimately have "bit (a ! (i div 8)) (i mod 8) = bit (?arr ! (i div 8)) (i mod 8)"
        using a(3) [of "i div 8" "i mod 8"] by argo
      then show "bit_at (bm\<lparr>map_arr := a\<rparr>) i = bit_at bm i"
        by (simp add: bit_at_def)
    qed (fact a(2))
  qed
qed

section \<open>Searching\<close>

lemma low_ones_spec:
  "\<exists>k \<le> 8. low_ones b p = p + of_nat k \<and> \<not> bit b k \<and> (\<forall>j < k. bit b j)"
proof (induction b p rule: low_ones.induct)
  case (1 b p)
  show ?case
  proof (cases "b AND 1 \<noteq> 0")
    case True
    then have b0: "bit b 0" by (simp add: bit_0 odd_iff_mod_2_eq_one and_one_eq)
    from "1.IH" [OF True] obtain k where k: "k \<le> 8" "low_ones (drop_bit 1 b) (p + 1) = p + 1 + of_nat k"
      "\<not> bit b (Suc k)" "\<forall>j < k. bit b (Suc j)" by (auto simp: bit_simps)
    have "k < 8"
    proof (rule ccontr)
      assume "\<not> k < 8"
      then have "bit b (Suc 7)" using k(4) [rule_format, of 7] by simp
      then show False by (auto dest: bit_imp_le_length)
    qed
    then show ?thesis
      using k b0 True by (intro exI [of _ "Suc k"]) (auto simp: low_ones.simps [of b p] less_Suc_eq_0_disj algebra_simps)
  next
    case False
    then have "\<not> bit b 0" by (simp add: bit_0 and_one_eq odd_iff_mod_2_eq_one)
    then show ?thesis using False by (intro exI [of _ 0]) (simp add: low_ones.simps [of b p])
  qed
qed

definition masked_view :: "u8 \<Rightarrow> u8 \<Rightarrow> bool \<Rightarrow> nat \<Rightarrow> nat \<Rightarrow> bool" where
  "masked_view x b v lo hi \<longleftrightarrow> (\<forall>j < 8. bit x j = (if lo \<le> j \<and> j < hi then bit b j else \<not> v))"

lemma low_ones_first:
  obtains k where "k \<le> 8" "low_ones b 0 = of_nat k" "\<not> bit b k" "\<And>j. j < k \<Longrightarrow> bit b j"
  using low_ones_spec [of b 0] by auto

lemma skip_byte_iff: "x = (if v then 0x0 else 0xFF :: u8) \<longleftrightarrow> (\<forall>j < 8. bit x j = (\<not> v))"
  by (auto simp: bit_eq_iff bit_full_byte simp del: bit_numeral_word_iff dest: bit_imp_le_length)

lemma ucast_of_nat_down: "ucast (of_nat n :: size_t) = (of_nat n :: cint)"
  by (rule bit_word_eqI) (simp add: bit_simps)

lemma masked_byte_hit:
  assumes view: "masked_view x (map_arr bm ! unat k) (v \<noteq> 0) lo hi" and hi: "hi \<le> 8"
  shows "x = (if v \<noteq> 0 then 0x0 else 0xFF) \<Longrightarrow> no_hit (bit_at bm) (v \<noteq> 0) (8 * unat k + lo) (8 * unat k + hi)"
    and "x \<noteq> (if v \<noteq> 0 then 0x0 else 0xFF) \<Longrightarrow>
      \<exists>i. found_pos v k x = of_nat i \<and> first_hit (bit_at bm) (v \<noteq> 0) (8 * unat k + lo) (8 * unat k + hi) i"
proof -
  have at: "bit_at bm (8 * unat k + j) = bit (map_arr bm ! unat k) j" if "j < 8" for j
    using that by (simp add: bit_at_def)
  { assume "x = (if v \<noteq> 0 then 0x0 else 0xFF)"
    then have sk: "\<forall>j < 8. bit x j = (\<not> v \<noteq> 0)" by (simp only: skip_byte_iff)
    show "no_hit (bit_at bm) (v \<noteq> 0) (8 * unat k + lo) (8 * unat k + hi)"
      unfolding no_hit_def
    proof (intro allI impI)
      fix i assume i: "8 * unat k + lo \<le> i \<and> i < 8 * unat k + hi"
      then obtain j where j: "i = 8 * unat k + j" "lo \<le> j" "j < hi"
        by (metis add_le_imp_le_left le_Suc_ex nat_add_left_cancel_less add.assoc le_add1)
      then show "bit_at bm i \<noteq> (v \<noteq> 0)"
        using at [of j] view [unfolded masked_view_def, rule_format, of j] sk [rule_format, of j] hi by simp
    qed }
  assume "x \<noteq> (if v \<noteq> 0 then 0x0 else 0xFF)"
  then obtain j0 where j0: "j0 < 8" "bit x j0 = (v \<noteq> 0)" using skip_byte_iff [of x "v \<noteq> 0"] by auto
  obtain j where j: "j \<le> 8" "low_ones (if v \<noteq> 0 then NOT x else x) 0 = of_nat j"
    "\<not> bit (if v \<noteq> 0 then NOT x else x) j" "\<And>i. i < j \<Longrightarrow> bit (if v \<noteq> 0 then NOT x else x) i"
    by (rule low_ones_first [of "if v \<noteq> 0 then NOT x else x"]) (rule that; assumption)
  have below: "bit x i \<noteq> (v \<noteq> 0)" if "i < j" for i
    using j(4) [OF that] that j(1) by (auto simp: bit_simps split: if_splits)
  have j8: "j < 8" using below [of j0] j0 j(1) by (meson leI less_le_trans le_neq_implies_less)
  have jx: "bit x j = (v \<noteq> 0)" using j(3) j8 by (auto simp: bit_simps split: if_splits)
  have lh: "lo \<le> j" "j < hi" using view jx j8 by (auto simp: masked_view_def split: if_splits)
  have "found_pos v k x = of_nat (8 * unat k + j)"
  proof -
    have "push_bit 3 k + of_nat j = (of_nat (8 * unat k + j) :: size_t)"
      by (simp add: push_bit_eq_mult)
    then show ?thesis by (simp only: found_pos_def j(2) ucast_of_nat_down)
  qed
  moreover have "first_hit (bit_at bm) (v \<noteq> 0) (8 * unat k + lo) (8 * unat k + hi) (8 * unat k + j)"
    unfolding first_hit_def
  proof (intro conjI allI impI)
    show "bit_at bm (8 * unat k + j) = (v \<noteq> 0)" using at [OF j8] view jx lh j8 by (auto simp: masked_view_def)
    fix i assume i: "8 * unat k + lo \<le> i \<and> i < 8 * unat k + j"
    then obtain q where "i = 8 * unat k + q" "lo \<le> q" "q < j"
      by (metis add_le_imp_le_left le_Suc_ex nat_add_left_cancel_less add.assoc le_add1)
    then show "bit_at bm i \<noteq> (v \<noteq> 0)"
      using at [of q] view below [of q] j8 lh by (auto simp: masked_view_def)
  qed (use lh in auto)
  ultimately show "\<exists>i. found_pos v k x = of_nat i \<and> first_hit (bit_at bm) (v \<noteq> 0) (8 * unat k + lo) (8 * unat k + hi) i"
    by blast
qed

lemma masked_read_spec:
  assumes "unat i < length arr" "\<forall>j < 8. bit m j \<longleftrightarrow> lo \<le> j \<and> j < hi"
  shows "\<exists>x. masked_read arr i v m = Some x \<and> masked_view x (arr ! unat i) (v \<noteq> 0) lo hi"
  using assms by (auto simp: masked_read_def load_byte_def masked_view_def bit_simps)

lemma scan_bytes_spec:
  assumes "unat i + n \<le> length arr" "unat i + n < 2 ^ 64"
  shows "scan_bytes arr i skip n = Some None \<and> (\<forall>k. unat i \<le> k \<and> k < unat i + n \<longrightarrow> arr ! k = skip) \<or>
    (\<exists>k. scan_bytes arr i skip n = Some (Some (k, arr ! unat k)) \<and> unat i \<le> unat k \<and> unat k < unat i + n \<and>
       arr ! unat k \<noteq> skip \<and> (\<forall>q. unat i \<le> q \<and> q < unat k \<longrightarrow> arr ! q = skip))"
  using assms
proof (induction n arbitrary: i)
  case 0
  then show ?case by auto
next
  case (Suc n)
  have i1: "unat (i + 1) = unat i + 1" using Suc.prems by (simp add: unat_word_ariths)
  have ld: "load_byte arr i = Some (arr ! unat i)" using Suc.prems by (simp add: load_byte_def)
  show ?case
  proof (cases "arr ! unat i = skip")
    case False
    then show ?thesis by (intro disjI2 exI [of _ i]) (auto simp: ld)
  next
    case True
    have sc: "scan_bytes arr i skip (Suc n) = scan_bytes arr (i + 1) skip n" by (simp add: ld True)
    have step: "(\<forall>q. unat i \<le> q \<and> q < b \<longrightarrow> arr ! q = skip)" if "\<forall>q. unat i + 1 \<le> q \<and> q < b \<longrightarrow> arr ! q = skip" for b
      using that True by (metis Suc_eq_plus1 Suc_leI le_neq_implies_less)
    from Suc.IH [of "i + 1"] Suc.prems i1 show ?thesis
      unfolding sc i1 using step by auto
  qed
qed

lemma whole_byte_view: "masked_view b b v 0 8"
  by (simp add: masked_view_def)

lemma skip_bytes_no_hit:
  assumes "\<forall>k. a \<le> k \<and> k < b \<longrightarrow> map_arr bm ! k = (if v then 0x0 else 0xFF)"
  shows "no_hit (bit_at bm) v (8 * a) (8 * b)"
  unfolding no_hit_def
proof (intro allI impI)
  fix i assume "8 * a \<le> i \<and> i < 8 * b"
  then have "a \<le> i div 8 \<and> i div 8 < b" by (auto simp: byte_in_array)
  with assms have "map_arr bm ! (i div 8) = (if v then 0x0 else 0xFF)" by blast
  then show "bit_at bm i \<noteq> v"
    using skip_byte_iff [of "map_arr bm ! (i div 8)" v] by (simp add: bit_at_def)
qed

lemma find_one_byte:
  assumes "unat k < length (map_arr bm)" "\<forall>j < 8. bit m j \<longleftrightarrow> lo \<le> j \<and> j < hi" "hi \<le> 8"
  obtains x where "masked_read (map_arr bm) k v m = Some x"
    "x = (if v \<noteq> 0 then 0x0 else 0xFF) \<longrightarrow> no_hit (bit_at bm) (v \<noteq> 0) (8 * unat k + lo) (8 * unat k + hi)"
    "x \<noteq> (if v \<noteq> 0 then 0x0 else 0xFF) \<longrightarrow>
      (\<exists>i. found_pos v k x = of_nat i \<and> first_hit (bit_at bm) (v \<noteq> 0) (8 * unat k + lo) (8 * unat k + hi) i)"
  using masked_read_spec [OF assms(1,2), of v] masked_byte_hit assms(3) by blast

lemma find_middle:
  assumes "unat sb \<le> unat eb" "unat eb \<le> length (map_arr bm)"
  obtains "scan_bytes (map_arr bm) sb (if v \<noteq> 0 then 0x0 else 0xFF) (unat (eb - sb)) = Some None"
      "no_hit (bit_at bm) (v \<noteq> 0) (8 * unat sb) (8 * unat eb)"
  | k x i where "scan_bytes (map_arr bm) sb (if v \<noteq> 0 then 0x0 else 0xFF) (unat (eb - sb)) = Some (Some (k, x))"
      "found_pos v k x = of_nat i" "first_hit (bit_at bm) (v \<noteq> 0) (8 * unat sb) (8 * unat eb) i"
proof -
  let ?skip = "(if v \<noteq> 0 then 0x0 else 0xFF) :: u8" and ?arr = "map_arr bm"
  have ud: "unat (eb - sb) = unat eb - unat sb" using assms by (simp add: unat_sub word_le_nat_alt)
  have le: "unat sb + unat (eb - sb) \<le> length ?arr" "unat sb + unat (eb - sb) < 2 ^ 64"
    using ud assms unsigned_less [of eb] by auto
  have ue: "unat sb + unat (eb - sb) = unat eb" using ud assms by simp
  from scan_bytes_spec [OF le, of ?skip, unfolded ue] show thesis
  proof (elim disjE conjE exE)
    assume a: "scan_bytes ?arr sb ?skip (unat (eb - sb)) = Some None"
      and sk: "\<forall>k. unat sb \<le> k \<and> k < unat eb \<longrightarrow> ?arr ! k = ?skip"
    show thesis by (rule that(1) [OF a skip_bytes_no_hit [OF sk]])
  next
    fix k assume k: "scan_bytes ?arr sb ?skip (unat (eb - sb)) = Some (Some (k, ?arr ! unat k))"
      "unat sb \<le> unat k" "unat k < unat eb" "?arr ! unat k \<noteq> ?skip"
      and sk: "\<forall>q. unat sb \<le> q \<and> q < unat k \<longrightarrow> ?arr ! q = ?skip"
    from masked_byte_hit(2) [OF whole_byte_view order.refl k(4)] obtain i where
      i: "found_pos v k (?arr ! unat k) = of_nat i" "first_hit (bit_at bm) (v \<noteq> 0) (8 * unat k + 0) (8 * unat k + 8) i" by blast
    have "first_hit (bit_at bm) (v \<noteq> 0) (8 * unat sb) (8 * unat k + 8) i"
      by (rule first_hit_extend [OF skip_bytes_no_hit [OF sk] i(2) [unfolded add_0_right]]) (use k(2) in linarith)
    moreover have "8 * unat k + 8 \<le> 8 * unat eb" using k(3) by linarith
    ultimately show thesis by (intro that(2) [OF k(1) i(1)]) (rule first_hit_widen)
  qed
qed

lemma find_head:
  assumes "s mod 8 \<noteq> 0 \<longrightarrow> s div 8 < length (map_arr bm) \<and> unat (sb - 1) = s div 8" "sbb = 0 \<longleftrightarrow> s mod 8 = 0"
    and "\<And>j. bit (ucast (head_mask sbb) :: u8) j \<longleftrightarrow> (if s mod 8 = 0 then 8 else s mod 8) \<le> j \<and> j < 8"
  obtains x where
    "(if sbb \<noteq> 0 then masked_read (map_arr bm) (sb - 1) v (ucast (head_mask sbb))
      else Some (if v \<noteq> 0 then 0x0 else 0xFF)) = Some x"
    "x = (if v \<noteq> 0 then 0x0 else 0xFF) \<longrightarrow> no_hit (bit_at bm) (v \<noteq> 0) s (8 * ((s + 7) div 8))"
    "x \<noteq> (if v \<noteq> 0 then 0x0 else 0xFF) \<longrightarrow>
      (\<exists>i. found_pos v (sb - 1) x = of_nat i \<and> first_hit (bit_at bm) (v \<noteq> 0) s (8 * ((s + 7) div 8)) i)"
proof (cases "s mod 8 = 0")
  case True
  then have s8: "8 * ((s + 7) div 8) = s" and z: "sbb = 0" using assms(2) ceil8 [of s] by auto
  show thesis by (rule that [of "if v \<noteq> 0 then 0x0 else 0xFF"]) (auto simp: s8 z)
next
  case False
  have k: "unat (sb - 1) < length (map_arr bm)" and kd: "unat (sb - 1) = s div 8" using False assms(1) by auto
  have m: "\<forall>j < 8. bit (ucast (head_mask sbb) :: u8) j \<longleftrightarrow> s mod 8 \<le> j \<and> j < 8" using assms(3) False by simp
  have s8: "8 * (s div 8) + s mod 8 = s" "8 * (s div 8) + 8 = 8 * ((s + 7) div 8)" using False ceil8 [of s] by auto
  obtain x where "masked_read (map_arr bm) (sb - 1) v (ucast (head_mask sbb)) = Some x"
    "x = (if v \<noteq> 0 then 0x0 else 0xFF) \<longrightarrow> no_hit (bit_at bm) (v \<noteq> 0) s (8 * ((s + 7) div 8))"
    "x \<noteq> (if v \<noteq> 0 then 0x0 else 0xFF) \<longrightarrow>
      (\<exists>i. found_pos v (sb - 1) x = of_nat i \<and> first_hit (bit_at bm) (v \<noteq> 0) s (8 * ((s + 7) div 8)) i)"
    by (rule find_one_byte [OF k m order.refl, of v, unfolded kd s8])
  then show thesis using that [of x] False assms(2) by simp
qed

lemma find_tail:
  assumes "e mod 8 \<noteq> 0 \<longrightarrow> e div 8 < length (map_arr bm)" "unat eb = e div 8" "ebb = 0 \<longleftrightarrow> e mod 8 = 0"
    and "\<And>j. bit (ucast (tail_mask ebb) :: u8) j \<longleftrightarrow> j < e mod 8"
  shows "find_result (bit_at bm) (v \<noteq> 0) (8 * (e div 8)) e
    (if ebb \<noteq> 0 then do { x \<leftarrow> masked_read (map_arr bm) eb v (ucast (tail_mask ebb));
                       Some (if x \<noteq> (if v \<noteq> 0 then 0x0 else 0xFF) then found_pos v eb x else -1) }
     else Some (-1))"
proof (cases "e mod 8 = 0")
  case True
  then have "8 * (e div 8) = e" by auto
  then show ?thesis using True assms(3) by (auto intro: find_resultI(1))
next
  case False
  have k: "unat eb < length (map_arr bm)" using False assms by simp
  have m: "\<forall>j < 8. bit (ucast (tail_mask ebb) :: u8) j \<longleftrightarrow> 0 \<le> j \<and> j < e mod 8" using assms(4) by simp
  have e8: "8 * unat eb + 0 = 8 * (e div 8)" "8 * unat eb + e mod 8 = e" using assms(2) by auto
  obtain x where "masked_read (map_arr bm) eb v (ucast (tail_mask ebb)) = Some x"
    "x = (if v \<noteq> 0 then 0x0 else 0xFF) \<longrightarrow> no_hit (bit_at bm) (v \<noteq> 0) (8 * (e div 8)) e"
    "x \<noteq> (if v \<noteq> 0 then 0x0 else 0xFF) \<longrightarrow>
      (\<exists>i. found_pos v eb x = of_nat i \<and> first_hit (bit_at bm) (v \<noteq> 0) (8 * (e div 8)) e i)"
    by (rule find_one_byte [OF k m less_imp_le [OF mod_less_divisor [of 8 e, OF zero_less_numeral]], of v, unfolded e8])
  then show ?thesis
    using False assms(3) by (cases "x = (if v \<noteq> 0 then 0x0 else 0xFF)") (auto intro: find_resultI)
qed

lemma bitmap_find_spec:
  assumes wf: "bitmap_wf bm"
    and s: "s = min (unat (map_size bm)) (unat start)"
    and e: "e = min (unat (map_size bm)) (unat (start + len))"
    and le: "s \<le> e"
  shows "find_result (bit_at bm) (v \<noteq> 0) s e (bitmap_find bm v start len)"
proof -
  let ?arr = "map_arr bm" and ?n = "length (map_arr bm)" and ?skip = "(if v \<noteq> 0 then 0x0 else 0xFF) :: u8"
  have s7: "unat (map_size bm) + 7 < 2 ^ 64" and n: "unat (map_size bm) \<le> 8 * ?n"
    using wf by (auto simp: bitmap_wf_def)
  obtain sb eb sbb ebb where
    r: "bit_range (map_size bm) start len = (sb, eb, sbb, ebb)"
    and lt: "eb < sb \<longleftrightarrow> e div 8 < (if s mod 8 = 0 then s div 8 else s div 8 + 1)"
    and usb: "unat sb = (if s mod 8 = 0 then s div 8 else s div 8 + 1)" and ueb: "unat eb = e div 8"
    and sb1: "s mod 8 \<noteq> 0 \<Longrightarrow> unat (sb - 1) = s div 8"
    and z: "sbb = 0 \<longleftrightarrow> s mod 8 = 0" "ebb = 0 \<longleftrightarrow> e mod 8 = 0"
    and hm: "\<And>j. bit (ucast (head_mask sbb) :: u8) j \<longleftrightarrow> (if s mod 8 = 0 then 8 else s mod 8) \<le> j \<and> j < 8"
    and tm: "\<And>j. bit (ucast (tail_mask ebb) :: u8) j \<longleftrightarrow> j < e mod 8"
    and bm: "\<And>j. bit (ucast (head_mask sbb AND tail_mask ebb) :: u8) j \<longleftrightarrow>
       (if s mod 8 = 0 then 8 else s mod 8) \<le> j \<and> j < e mod 8"
    by (rule bit_range_spec [OF s7 s e]) (rule that; assumption)
  have en: "e div 8 < ?n \<or> e div 8 = ?n \<and> e mod 8 = 0"
    using byte_in_array_end [of e ?n] n e by simp
  have le': "s div 8 < e div 8 \<or> s div 8 = e div 8 \<and> s mod 8 \<le> e mod 8"
    using le le_byte_bit [of s e] by blast
  show ?thesis
  proof (cases "eb < sb")
    case True
    then have sm: "s mod 8 \<noteq> 0" and eq: "e div 8 = s div 8" using lt le' by (auto split: if_splits)
    have k: "unat (sb - 1) < ?n" and kd: "unat (sb - 1) = s div 8" using sb1 sm eq en le' by auto
    have m: "\<forall>j < 8. bit (ucast (head_mask sbb AND tail_mask ebb) :: u8) j \<longleftrightarrow> s mod 8 \<le> j \<and> j < e mod 8"
      using bm sm by simp
    have e8: "8 * (s div 8) + s mod 8 = s" "8 * (s div 8) + e mod 8 = e" using eq mult_div_mod_eq [of 8 e] by simp_all
    have m8: "e mod 8 \<le> 8" using mod_less_divisor [of 8 e] by linarith
    obtain x where x: "masked_read ?arr (sb - 1) v (ucast (head_mask sbb AND tail_mask ebb)) = Some x"
      "x = ?skip \<longrightarrow> no_hit (bit_at bm) (v \<noteq> 0) s e"
      "x \<noteq> ?skip \<longrightarrow> (\<exists>i. found_pos v (sb - 1) x = of_nat i \<and> first_hit (bit_at bm) (v \<noteq> 0) s e i)"
      by (rule find_one_byte [OF k m m8, of v, unfolded kd e8])
    show ?thesis
      using True x by (cases "x = ?skip") (auto simp: bitmap_find_def r intro: find_resultI)
  next
    case False
    then have sbe: "unat sb \<le> unat eb" by (simp add: word_less_nat_alt)
    have usb7: "8 * unat sb = 8 * ((s + 7) div 8)" using usb ceil8 [of s] by simp
    have ss: "s \<le> 8 * ((s + 7) div 8)" using ceil8 [of s] by auto
    have ee: "8 * (e div 8) \<le> e" by simp
    have sn: "s mod 8 \<noteq> 0 \<longrightarrow> s div 8 < ?n \<and> unat (sb - 1) = s div 8" using sbe usb ueb en sb1 by auto
    obtain x where x: "(if sbb \<noteq> 0 then masked_read ?arr (sb - 1) v (ucast (head_mask sbb)) else Some ?skip) = Some x"
      "x = ?skip \<longrightarrow> no_hit (bit_at bm) (v \<noteq> 0) s (8 * ((s + 7) div 8))"
      "x \<noteq> ?skip \<longrightarrow> (\<exists>i. found_pos v (sb - 1) x = of_nat i \<and> first_hit (bit_at bm) (v \<noteq> 0) s (8 * ((s + 7) div 8)) i)"
      by (rule find_head [OF sn z(1) hm])
    have tn: "e mod 8 \<noteq> 0 \<longrightarrow> e div 8 < ?n" using en by auto
    note tl = find_tail [OF tn ueb z(2) tm, of v]
    have ebn: "unat eb \<le> ?n" using ueb en by auto
    have mid_e: "8 * ((s + 7) div 8) \<le> 8 * (e div 8)" using sbe usb7 ueb by simp
    have fnd: "bitmap_find bm v start len =
       (if x \<noteq> ?skip then Some (found_pos v (sb - 1) x)
        else do { mid \<leftarrow> scan_bytes ?arr sb ?skip (unat (eb - sb));
               case mid of Some (i, byte) \<Rightarrow> Some (found_pos v i byte)
               | None \<Rightarrow> (if ebb \<noteq> 0 then do { x \<leftarrow> masked_read ?arr eb v (ucast (tail_mask ebb));
                       Some (if x \<noteq> ?skip then found_pos v eb x else -1) } else Some (-1)) })"
      by (simp only: bitmap_find_def r prod.case Let_def False if_False x(1) Option.bind.simps)
    show ?thesis
    proof (cases "x = ?skip")
      case hit: False
      then obtain i where i: "found_pos v (sb - 1) x = of_nat i" "first_hit (bit_at bm) (v \<noteq> 0) s (8 * ((s + 7) div 8)) i"
        using x(3) by auto
      show ?thesis
        by (rule find_resultI(2) [OF first_hit_widen [OF i(2) order.trans [OF mid_e ee]]]) (simp add: fnd hit i(1))
    next
      case miss: True
      then have h: "no_hit (bit_at bm) (v \<noteq> 0) s (8 * unat sb)" using x(2) usb7 by simp
      show ?thesis
      proof (rule find_middle [OF sbe ebn, of v])
        assume a: "scan_bytes ?arr sb ?skip (unat (eb - sb)) = Some None"
          and m: "no_hit (bit_at bm) (v \<noteq> 0) (8 * unat sb) (8 * unat eb)"
        have "no_hit (bit_at bm) (v \<noteq> 0) s (8 * (e div 8))" using no_hit_join [OF h m] ueb by simp
        moreover have "bitmap_find bm v start len = (if ebb \<noteq> 0 then do { x \<leftarrow> masked_read ?arr eb v (ucast (tail_mask ebb));
                       Some (if x \<noteq> ?skip then found_pos v eb x else -1) } else Some (-1))"
          by (simp only: fnd miss simp_thms if_False a Option.bind.simps option.case)
        ultimately show ?thesis using tl ss mid_e by (auto intro: find_result_extend)
      next
        fix k x' i assume a: "scan_bytes ?arr sb ?skip (unat (eb - sb)) = Some (Some (k, x'))"
          and i: "found_pos v k x' = of_nat i" "first_hit (bit_at bm) (v \<noteq> 0) (8 * unat sb) (8 * unat eb) i"
        have f: "first_hit (bit_at bm) (v \<noteq> 0) s (8 * unat eb) i"
          by (rule first_hit_extend [OF h i(2)]) (use ss usb7 in simp)
        show ?thesis
          by (rule find_resultI(2) [OF first_hit_widen [OF f]])
            (use ueb in \<open>simp_all add: fnd miss a i(1)\<close>)
      qed
    qed
  qed
qed

lemma bitmap_find_past_end:
  assumes wf: "bitmap_wf bm" and past: "unat (map_size bm) \<le> unat start"
  shows "bitmap_find bm v start len = Some (-1) \<or>
    (\<exists>i. bitmap_find bm v start len = Some (of_nat i) \<and> unat (map_size bm) \<le> i \<and> i < unat (map_size bm) + 8)"
proof -
  let ?arr = "map_arr bm" and ?n = "length (map_arr bm)" and ?skip = "(if v \<noteq> 0 then 0x0 else 0xFF) :: u8"
  define s e where "s = min (unat (map_size bm)) (unat start)" and "e = min (unat (map_size bm)) (unat (start + len))"
  have ss: "s = unat (map_size bm)" using past by (simp add: s_def)
  have s7: "unat (map_size bm) + 7 < 2 ^ 64" and n: "unat (map_size bm) \<le> 8 * ?n"
    using wf by (auto simp: bitmap_wf_def)
  show ?thesis
  proof (cases "s \<le> e")
    case True
    then have "e = s" by (simp add: ss e_def)
    then show ?thesis using bitmap_find_spec [OF wf s_def e_def True, of v]
      by (auto simp: find_result_def first_hit_def)
  next
    case False
    obtain sb eb sbb ebb where
      r: "bit_range (map_size bm) start len = (sb, eb, sbb, ebb)"
      and lt: "eb < sb \<longleftrightarrow> e div 8 < (if s mod 8 = 0 then s div 8 else s div 8 + 1)"
      and sb: "s mod 8 \<noteq> 0 \<Longrightarrow> unat (sb - 1) = s div 8" "unat sb = (if s mod 8 = 0 then s div 8 else s div 8 + 1)"
      and bm: "\<And>j. bit (ucast (head_mask sbb AND tail_mask ebb) :: u8) j \<longleftrightarrow>
         (if s mod 8 = 0 then 8 else s mod 8) \<le> j \<and> j < e mod 8"
      by (rule bit_range_spec [OF s7 s_def e_def]) (rule that; assumption)
    have eb: "eb < sb" using lt False by (auto simp: le_byte_bit [of s] split: if_splits)
    have pos: "0 < unat sb" using eb unfolding word_less_nat_alt by linarith
    have in_n: "unat (sb - 1) < ?n"
    proof -
      have "s div 8 < ?n \<or> s div 8 = ?n \<and> s mod 8 = 0" using byte_in_array_end n ss by simp
      moreover have "unat (sb - 1) = unat sb - 1" using pos by (intro unat_minus_one) auto
      ultimately show ?thesis using sb pos by (auto split: if_splits)
    qed
    let ?lo = "if s mod 8 = 0 then 8 else s mod 8"
    have m: "\<forall>j < 8. bit (ucast (head_mask sbb AND tail_mask ebb) :: u8) j \<longleftrightarrow> ?lo \<le> j \<and> j < e mod 8"
      using bm by simp
    have m8: "e mod 8 \<le> 8" using mod_less_divisor [of 8 e] by linarith
    obtain x where x: "masked_read ?arr (sb - 1) v (ucast (head_mask sbb AND tail_mask ebb)) = Some x"
      "x = ?skip \<longrightarrow> no_hit (bit_at bm) (v \<noteq> 0) (8 * unat (sb - 1) + ?lo) (8 * unat (sb - 1) + e mod 8)"
      "x \<noteq> ?skip \<longrightarrow> (\<exists>i. found_pos v (sb - 1) x = of_nat i \<and>
         first_hit (bit_at bm) (v \<noteq> 0) (8 * unat (sb - 1) + ?lo) (8 * unat (sb - 1) + e mod 8) i)"
      by (rule find_one_byte [OF in_n m m8, of v])
    have fd: "bitmap_find bm v start len = Some (if x \<noteq> ?skip then found_pos v (sb - 1) x else -1)"
      using eb x(1) by (simp add: bitmap_find_def r)
    show ?thesis
    proof (cases "x = ?skip")
      case True then show ?thesis using fd by simp
    next
      case hit: False
      with x(3) obtain i where i: "found_pos v (sb - 1) x = of_nat i"
        "8 * unat (sb - 1) + ?lo \<le> i" "i < 8 * unat (sb - 1) + e mod 8" by (auto simp: first_hit_def)
      then have nz: "s mod 8 \<noteq> 0" using m8 by (cases "s mod 8 = 0") simp_all
      then have "8 * unat (sb - 1) + s mod 8 = s" using sb(1) by simp
      then show ?thesis using fd hit i nz m8 ss by auto
    qed
  qed
qed

section \<open>The interface met\<close>

definition bitmap_ok :: "bitmap \<Rightarrow> bool" where
  "bitmap_ok bm \<longleftrightarrow> bitmap_wf bm \<and> unat (map_size bm) + 8 \<le> 2 ^ 31"

interpretation page_bits: bit_store bitmap_set bitmap_find bit_at "\<lambda>bm. unat (map_size bm)" bitmap_ok
proof
  fix m :: bitmap and start n :: size_t and v :: cint
  assume "bitmap_ok m"
  then have wf: "bitmap_wf m" and small: "unat (map_size m) + 8 \<le> 2 ^ 31" by (auto simp: bitmap_ok_def)
  show "unat (map_size m) + 8 \<le> 2 ^ 31" by (fact small)
  have keep: "bitmap_ok (m\<lparr>map_arr := arr\<rparr>)" if "length arr = length (map_arr m)" for arr
    using wf small that by (simp add: bitmap_ok_def bitmap_wf_def)
  { assume a: "unat start \<le> unat (map_size m)" "unat start + unat n < 2 ^ 64"
    then have ue: "unat (start + n) = unat start + unat n" by (simp add: unat_add_lem [THEN iffD1])
    define e where "e = min (unat (map_size m)) (unat (start + n))"
    have s: "unat start = min (unat (map_size m)) (unat start)" and le: "unat start \<le> e"
      using a by (auto simp: e_def ue)
    obtain arr where arr: "bitmap_set m v start n = Some (m\<lparr>map_arr := arr\<rparr>)" "length arr = length (map_arr m)"
      "\<And>i. i < 8 * length (map_arr m) \<Longrightarrow>
         bit_at (m\<lparr>map_arr := arr\<rparr>) i = (if unat start \<le> i \<and> i < e then v \<noteq> 0 else bit_at m i)"
      by (rule bitmap_set_spec [OF wf s e_def le]) (rule that; assumption)
    have "unat (map_size m) \<le> 8 * length (map_arr m)" using wf by (simp add: bitmap_wf_def)
    then show "\<exists>m'. bitmap_set m v start n = Some m' \<and> bitmap_ok m' \<and> unat (map_size m') = unat (map_size m) \<and>
        (\<forall>i < unat (map_size m). bit_at m' i = (if unat start \<le> i \<and> i < unat start + unat n then v \<noteq> 0 else bit_at m i))"
      using arr(1) keep [OF arr(2)] arr(3) by (intro exI [of _ "m\<lparr>map_arr := arr\<rparr>"]) (auto simp: e_def ue)
    show "find_result (bit_at m) (v \<noteq> 0) (unat start) (min (unat (map_size m)) (unat start + unat n)) (bitmap_find m v start n)"
      using bitmap_find_spec [OF wf s e_def le] by (simp add: e_def ue) }
  assume past: "unat (map_size m) \<le> unat start"
  obtain arr where arr: "bitmap_set m v start n = Some (m\<lparr>map_arr := arr\<rparr>)" "length arr = length (map_arr m)"
    "\<And>i. i < unat (map_size m) \<Longrightarrow> bit_at (m\<lparr>map_arr := arr\<rparr>) i = bit_at m i"
    by (rule bitmap_set_past_end [OF wf past]) (rule that; assumption)
  then show "\<exists>m'. bitmap_set m v start n = Some m' \<and> bitmap_ok m' \<and> unat (map_size m') = unat (map_size m) \<and>
      (\<forall>i < unat (map_size m). bit_at m' i = bit_at m i)"
    using keep [OF arr(2)] by (intro exI [of _ "m\<lparr>map_arr := arr\<rparr>"]) auto
  show "\<exists>r. bitmap_find m v start n = Some r \<and> (r = -1 \<or> unat (map_size m) \<le> unat r \<and> unat r < 2 ^ 31)"
    using bitmap_find_past_end [OF wf past, of v n] small by (auto simp: unat_of_nat)
qed

section \<open>Properties\<close>

definition sample_map :: bitmap where
  "sample_map = \<lparr>map_arr = [255, 7, 0], map_size = 20\<rparr>"

text \<open>C4: \<open>bitmap_set\<close> gives the bits from \<open>start\<close> to \<open>start + len\<close>, cut at the size of the map, the
  value asked for and leaves every other bit of the array alone, whichever of its byte, fringe and
  \<open>memset\<close> branches it takes; no access leaves the array.\<close>

theorem bitmap_set_correct:
  assumes "bitmap_wf bm" "min (unat (map_size bm)) (unat start) \<le> min (unat (map_size bm)) (unat (start + len))"
  shows "\<exists>arr. bitmap_set bm v start len = Some (bm\<lparr>map_arr := arr\<rparr>) \<and> length arr = length (map_arr bm) \<and>
    (\<forall>i < 8 * length (map_arr bm). bit_at (bm\<lparr>map_arr := arr\<rparr>) i =
      (if unat start \<le> i \<and> i < min (unat (map_size bm)) (unat (start + len)) then v \<noteq> 0 else bit_at bm i))"
proof -
  define s e where "s = min (unat (map_size bm)) (unat start)" and "e = min (unat (map_size bm)) (unat (start + len))"
  have "s \<le> e" using assms(2) by (simp add: s_def e_def)
  note le = this
  obtain arr where "bitmap_set bm v start len = Some (bm\<lparr>map_arr := arr\<rparr>)" "length arr = length (map_arr bm)"
    "\<And>i. i < 8 * length (map_arr bm) \<Longrightarrow>
       bit_at (bm\<lparr>map_arr := arr\<rparr>) i = (if s \<le> i \<and> i < e then v \<noteq> 0 else bit_at bm i)"
    by (rule bitmap_set_spec [OF assms(1) s_def e_def le]) (rule that; assumption)
  moreover have "s \<le> i \<and> i < e \<longleftrightarrow> unat start \<le> i \<and> i < e" for i by (auto simp: s_def e_def)
  ultimately show ?thesis by (intro exI [of _ arr]) (simp add: e_def)
qed

theorem bitmap_set_correct_witness:
  "\<exists>arr. bitmap_set sample_map 1 5 12 = Some (sample_map\<lparr>map_arr := arr\<rparr>) \<and> length arr = length (map_arr sample_map) \<and>
    (\<forall>i < 8 * length (map_arr sample_map). bit_at (sample_map\<lparr>map_arr := arr\<rparr>) i =
      (if unat (5 :: size_t) \<le> i \<and> i < min (unat (map_size sample_map)) (unat (5 + 12 :: size_t)) then (1 :: cint) \<noteq> 0 else bit_at sample_map i))"
  by (rule bitmap_set_correct) (simp_all add: sample_map_def bitmap_wf_def)

text \<open>C5: \<open>bitmap_find\<close> returns the least position from \<open>start\<close> to \<open>start + len\<close>, cut at the size of the
  map, whose bit has the value, and -1 exactly when there is none.\<close>

theorem bitmap_find_least:
  assumes "bitmap_wf bm" "min (unat (map_size bm)) (unat start) \<le> min (unat (map_size bm)) (unat (start + len))"
  shows "find_result (bit_at bm) (v \<noteq> 0) (min (unat (map_size bm)) (unat start))
    (min (unat (map_size bm)) (unat (start + len))) (bitmap_find bm v start len)"
  by (rule bitmap_find_spec [OF assms(1) refl refl assms(2)])

theorem bitmap_find_least_witness:
  "find_result (bit_at sample_map) ((0 :: cint) \<noteq> 0) (min (unat (map_size sample_map)) (unat (4 :: size_t)))
    (min (unat (map_size sample_map)) (unat (4 + 14 :: size_t))) (bitmap_find sample_map 0 4 14)"
  by (rule bitmap_find_least) (simp_all add: sample_map_def bitmap_wf_def)

end
