(* ===== verification/DList.thy ===== *)
theory DList
  imports Prelude
begin

text \<open>
  The intrusive circular doubly linked list of \<open>include/lib/list.h\<close>.  A node address is a value
  of the type \<open>'n\<close>, the memory of all nodes a function from addresses to \<open>list_node\<close> records
  (\<open>'n store\<close>); every macro is the sequence of pointer assignments of its C text, so that
  aliased arguments (an empty list, whose head is its own neighbour) behave as they do in C.
  \<open>ring\<close> relates a store to the list of nodes it holds; the locale \<open>intrusive_list\<close> states the
  contract the clients rely on.
\<close>

section \<open>The macros of lib/list.h\<close>

record 'n list_node =
  node_prev :: 'n
  node_next :: 'n

type_synonym 'n store = "'n \<Rightarrow> 'n list_node"

definition set_prev :: "'n \<Rightarrow> 'n \<Rightarrow> 'n store \<Rightarrow> 'n store" where
  "set_prev n v h = h(n := (h n)\<lparr>node_prev := v\<rparr>)"

definition set_next :: "'n \<Rightarrow> 'n \<Rightarrow> 'n store \<Rightarrow> 'n store" where
  "set_next n v h = h(n := (h n)\<lparr>node_next := v\<rparr>)"

definition list_init :: "'n \<Rightarrow> 'n store \<Rightarrow> 'n store" where
  "list_init n h = set_prev n n (set_next n n h)"

definition list_empty :: "'n store \<Rightarrow> 'n \<Rightarrow> bool" where
  "list_empty h head \<longleftrightarrow> node_next (h head) = head"

definition list_insert_between :: "'n \<Rightarrow> 'n \<Rightarrow> 'n \<Rightarrow> 'n store \<Rightarrow> 'n store" where
  "list_insert_between n p q h = set_next n q (set_prev n p (set_prev q n (set_next p n h)))"

definition list_remove_between :: "'n \<Rightarrow> 'n \<Rightarrow> 'n \<Rightarrow> 'n store \<Rightarrow> 'n store" where
  "list_remove_between n p q h = set_next n n (set_prev n n (set_prev q p (set_next p q h)))"

definition list_add_first :: "'n \<Rightarrow> 'n \<Rightarrow> 'n store \<Rightarrow> 'n store" where
  "list_add_first n list h = list_insert_between n list (node_next (h list)) h"

definition list_add_last :: "'n \<Rightarrow> 'n \<Rightarrow> 'n store \<Rightarrow> 'n store" where
  "list_add_last n list h = list_insert_between n (node_prev (h list)) list h"

definition list_remove :: "'n \<Rightarrow> 'n store \<Rightarrow> 'n store" where
  "list_remove n h = list_remove_between n (node_prev (h n)) (node_next (h n)) h"

definition list_move :: "'n \<Rightarrow> 'n \<Rightarrow> 'n store \<Rightarrow> 'n store" where
  "list_move n list h = list_add_first n list (list_remove n h)"

definition list_next :: "'n store \<Rightarrow> 'n \<Rightarrow> 'n \<Rightarrow> 'n option" where
  "list_next h head entry = (if node_next (h entry) \<noteq> head then Some (node_next (h entry)) else None)"

definition list_prev :: "'n store \<Rightarrow> 'n \<Rightarrow> 'n \<Rightarrow> 'n option" where
  "list_prev h head entry = (if node_prev (h entry) \<noteq> head then Some (node_prev (h entry)) else None)"

definition list_front :: "'n store \<Rightarrow> 'n \<Rightarrow> 'n option" where
  "list_front h head = (if list_empty h head then None else Some (node_next (h head)))"

definition list_back :: "'n store \<Rightarrow> 'n \<Rightarrow> 'n option" where
  "list_back h head = (if list_empty h head then None else Some (node_prev (h head)))"

text \<open>\<open>list_for_each\<close> as the list of nodes it visits; \<open>None\<close>: the fuel ran out before the head came round.\<close>

fun list_walk :: "nat \<Rightarrow> 'n store \<Rightarrow> 'n \<Rightarrow> 'n option \<Rightarrow> 'n list option" where
  "list_walk fuel h head None = Some []"
| "list_walk 0 h head (Some entry) = None"
| "list_walk (Suc fuel) h head (Some entry) =
     map_option (\<lambda>xs. entry # xs) (list_walk fuel h head (list_next h head entry))"

definition list_for_each :: "nat \<Rightarrow> 'n store \<Rightarrow> 'n \<Rightarrow> 'n list option" where
  "list_for_each fuel h head = list_walk fuel h head (list_front h head)"

fun list_walk_back :: "nat \<Rightarrow> 'n store \<Rightarrow> 'n \<Rightarrow> 'n option \<Rightarrow> 'n list option" where
  "list_walk_back fuel h head None = Some []"
| "list_walk_back 0 h head (Some entry) = None"
| "list_walk_back (Suc fuel) h head (Some entry) =
     map_option (\<lambda>xs. entry # xs) (list_walk_back fuel h head (list_prev h head entry))"

definition list_for_each_reverse :: "nat \<Rightarrow> 'n store \<Rightarrow> 'n \<Rightarrow> 'n list option" where
  "list_for_each_reverse fuel h head = list_walk_back fuel h head (list_back h head)"

definition list_find_key :: "nat \<Rightarrow> 'n store \<Rightarrow> 'n \<Rightarrow> ('n \<Rightarrow> 'k) \<Rightarrow> 'k \<Rightarrow> 'n option option" where
  "list_find_key fuel h head key v = map_option (List.find (\<lambda>n. key n = v)) (list_for_each fuel h head)"

section \<open>Rings\<close>

lemmas list_upd = set_prev_def set_next_def

primrec chain :: "'n store \<Rightarrow> 'n \<Rightarrow> 'n list \<Rightarrow> 'n \<Rightarrow> bool" where
  "chain h a [] b \<longleftrightarrow> node_next (h a) = b \<and> node_prev (h b) = a"
| "chain h a (x # xs) b \<longleftrightarrow> node_next (h a) = x \<and> node_prev (h x) = a \<and> chain h x xs b"

definition ring :: "'n store \<Rightarrow> 'n \<Rightarrow> 'n list \<Rightarrow> bool" where
  "ring h head xs \<longleftrightarrow> chain h head xs head \<and> distinct (head # xs)"

lemma chain_append: "chain h a (xs @ x # ys) b \<longleftrightarrow> chain h a xs x \<and> chain h x ys b"
  by (induction xs arbitrary: a) auto

lemma chain_frame:
  assumes "\<forall>n \<in> set (a # xs). node_next (h' n) = node_next (h n)"
    and "\<forall>n \<in> set (xs @ [b]). node_prev (h' n) = node_prev (h n)"
  shows "chain h' a xs b = chain h a xs b"
  using assms by (induction xs arbitrary: a) auto

lemma chain_prev_last: "chain h a xs b \<Longrightarrow> node_prev (h b) = last (a # xs)"
  by (induction xs arbitrary: a) auto

lemma chain_next_first: "chain h a xs b \<Longrightarrow> node_next (h a) = hd (xs @ [b])"
  by (cases xs) auto

lemma ring_init: "ring (list_init head h) head []"
  by (simp add: ring_def list_init_def list_upd)

lemma ring_frame: "ring h head xs \<Longrightarrow> \<forall>n \<in> set (head # xs). h' n = h n \<Longrightarrow> ring h' head xs"
  unfolding ring_def by (subst chain_frame [of head xs h' h head]) auto

lemma list_insert_between_other: "m \<noteq> n \<Longrightarrow> m \<noteq> p \<Longrightarrow> m \<noteq> q \<Longrightarrow> list_insert_between n p q h m = h m"
  by (simp add: list_insert_between_def list_upd)

lemma list_remove_between_other: "m \<noteq> n \<Longrightarrow> m \<noteq> p \<Longrightarrow> m \<noteq> q \<Longrightarrow> list_remove_between n p q h m = h m"
  by (simp add: list_remove_between_def list_upd)

lemma ring_empty_iff: "ring h head xs \<Longrightarrow> list_empty h head \<longleftrightarrow> xs = []"
  by (cases xs) (auto simp: ring_def list_empty_def)

lemma ring_front: "ring h head xs \<Longrightarrow> list_front h head = (if xs = [] then None else Some (hd xs))"
  using ring_empty_iff [of h head xs] by (cases xs) (auto simp: ring_def list_front_def)

lemma ring_back: "ring h head xs \<Longrightarrow> list_back h head = (if xs = [] then None else Some (last xs))"
  using ring_empty_iff [of h head xs] chain_prev_last [of h head xs head]
  by (auto simp: ring_def list_back_def)

lemma ring_add_first:
  assumes r: "ring h head xs" and n: "n \<notin> set (head # xs)"
  shows "ring (list_add_first n head h) head (n # xs)"
proof (cases xs)
  case Nil
  then show ?thesis using r n by (auto simp: ring_def list_add_first_def list_insert_between_def list_upd)
next
  case (Cons y ys)
  then have nx: "node_next (h head) = y" and c: "chain h y ys head" using r by (auto simp: ring_def)
  have d: "y \<noteq> head" "n \<noteq> y" "n \<noteq> head" "head \<notin> set ys" "y \<notin> set ys" "n \<notin> set ys"
    using r n Cons by (auto simp: ring_def)
  define h' where "h' = list_add_first n head h"
  have h': "h' = h(head := (h head)\<lparr>node_next := n\<rparr>, y := (h y)\<lparr>node_prev := n\<rparr>, n := \<lparr>node_prev = head, node_next = y\<rparr>)"
    using d by (auto simp: h'_def list_add_first_def nx list_insert_between_def list_upd fun_eq_iff)
  have "chain h' y ys head"
    by (subst chain_frame [of y ys h' h head]) (use c d in \<open>auto simp: h'\<close>)
  then show ?thesis using r n Cons d unfolding h'_def [symmetric] by (auto simp: ring_def h')
qed

lemma ring_add_last:
  assumes r: "ring h head xs" and n: "n \<notin> set (head # xs)"
  shows "ring (list_add_last n head h) head (xs @ [n])"
proof (cases xs rule: rev_cases)
  case Nil
  then show ?thesis using r n by (auto simp: ring_def list_add_last_def list_insert_between_def list_upd)
next
  case (snoc ys y)
  then have pv: "node_prev (h head) = y" and c: "chain h head ys y"
    using r by (auto simp: ring_def chain_append)
  have d: "y \<noteq> head" "n \<noteq> y" "n \<noteq> head" "head \<notin> set ys" "y \<notin> set ys" "n \<notin> set ys"
    using r n snoc by (auto simp: ring_def)
  define h' where "h' = list_add_last n head h"
  have h': "h' = h(y := (h y)\<lparr>node_next := n\<rparr>, head := (h head)\<lparr>node_prev := n\<rparr>, n := \<lparr>node_prev = y, node_next = head\<rparr>)"
    using d by (auto simp: h'_def list_add_last_def pv list_insert_between_def list_upd fun_eq_iff)
  have "chain h' head ys y"
    by (subst chain_frame [of head ys h' h y]) (use c d in \<open>auto simp: h'\<close>)
  then show ?thesis using r n snoc d unfolding h'_def [symmetric] by (auto simp: ring_def chain_append h')
qed

lemma ring_remove:
  assumes r: "ring h head xs" and n: "n \<in> set xs"
  shows "ring (list_remove n h) head (remove1 n xs)" "ring (list_remove n h) n []"
proof -
  obtain ys zs where xs: "xs = ys @ n # zs" using n by (meson split_list)
  have c: "chain h head ys n" "chain h n zs head" and d: "distinct (head # ys @ n # zs)"
    using r xs by (auto simp: ring_def chain_append)
  define p q where "p = last (head # ys)" and "q = hd (zs @ [head])"
  have pq: "node_prev (h n) = p" "node_next (h n) = q"
    using chain_prev_last [OF c(1)] chain_next_first [OF c(2)] by (simp_all add: p_def q_def)
  have np: "n \<noteq> p" "n \<noteq> q" using d by (auto simp: p_def q_def hd_append split: if_splits)
  have pin: "p \<in> set (head # ys)" unfolding p_def by (rule last_in_set) simp
  define h' where "h' = list_remove n h"
  have h': "node_next (h' m) = (if m = n then n else if m = p then q else node_next (h m))"
    "node_prev (h' m) = (if m = n then n else if m = q then p else node_prev (h m))" for m
    using np by (auto simp: h'_def list_remove_def pq list_remove_between_def list_upd)
  show "ring (list_remove n h) n []" unfolding h'_def [symmetric] by (simp add: ring_def h')
  have "remove1 n xs = ys @ zs" using xs d by (simp add: remove1_append)
  moreover have "chain h' head (ys @ zs) head"
  proof (cases zs)
    case Nil
    then have q: "q = head" by (simp add: q_def)
    show ?thesis
    proof (cases ys rule: rev_cases)
      case Nil
      then show ?thesis using \<open>zs = []\<close> q np by (simp add: h' p_def)
    next
      case (snoc us u)
      then have pu: "p = u" by (simp add: p_def)
      have cu: "chain h head us u" using c(1) snoc by (simp add: chain_append)
      have "chain h' head us u"
        by (subst chain_frame [of head us h' h u]) (use cu d snoc pu q in \<open>auto simp: h'\<close>)
      then show ?thesis using snoc \<open>zs = []\<close> pu q np by (simp add: chain_append h')
    qed
  next
    case (Cons z ws)
    then have q: "q = z" by (simp add: q_def)
    have cz: "chain h z ws head" using c(2) Cons by simp
    have cw: "chain h' z ws head"
      by (subst chain_frame [of z ws h' h head]) (use cz d Cons q pin in \<open>auto simp: h'\<close>)
    show ?thesis
    proof (cases ys rule: rev_cases)
      case Nil
      then show ?thesis using Cons cw q np by (simp add: h' p_def)
    next
      case (snoc us u)
      then have pu: "p = u" by (simp add: p_def)
      have cu: "chain h head us u" using c(1) snoc by (simp add: chain_append)
      have "chain h' head us u"
        by (subst chain_frame [of head us h' h u]) (use cu d snoc pu q Cons in \<open>auto simp: h'\<close>)
      then show ?thesis using snoc Cons cw pu q np by (simp add: chain_append h')
    qed
  qed
  moreover have "distinct (head # ys @ zs)" using d by auto
  ultimately show "ring (list_remove n h) head (remove1 n xs)"
    unfolding h'_def [symmetric] by (simp add: ring_def)
qed

lemma ring_nodes:
  assumes "ring h head xs"
  shows "node_prev (h head) \<in> set (head # xs)" "node_next (h head) \<in> set (head # xs)"
    "n \<in> set xs \<Longrightarrow> node_prev (h n) \<in> set (head # xs)" "n \<in> set xs \<Longrightarrow> node_next (h n) \<in> set (head # xs)"
proof -
  have c: "chain h head xs head" using assms by (simp add: ring_def)
  show "node_prev (h head) \<in> set (head # xs)"
    unfolding chain_prev_last [OF c] by (rule last_in_set) simp
  show "node_next (h head) \<in> set (head # xs)"
    unfolding chain_next_first [OF c] by (cases xs) auto
  assume "n \<in> set xs"
  then obtain ys zs where xs: "xs = ys @ n # zs" by (meson split_list)
  then have cc: "chain h head ys n" "chain h n zs head" using c by (auto simp: chain_append)
  have "last (head # ys) \<in> set (head # ys)" by (rule last_in_set) simp
  then show "node_prev (h n) \<in> set (head # xs)"
    unfolding chain_prev_last [OF cc(1)] xs by auto
  show "node_next (h n) \<in> set (head # xs)"
    unfolding chain_next_first [OF cc(2)] xs by (cases zs) auto
qed

text \<open>Nodes outside the ring and the argument keep their links.\<close>

lemma list_add_first_frame: "ring h head xs \<Longrightarrow> m \<notin> set (n # head # xs) \<Longrightarrow> list_add_first n head h m = h m"
  using ring_nodes(2) [of h head xs] by (auto simp: list_add_first_def intro!: list_insert_between_other)

lemma list_add_last_frame: "ring h head xs \<Longrightarrow> m \<notin> set (n # head # xs) \<Longrightarrow> list_add_last n head h m = h m"
  using ring_nodes(1) [of h head xs] by (auto simp: list_add_last_def intro!: list_insert_between_other)

lemma list_remove_frame: "ring h head xs \<Longrightarrow> n \<in> set xs \<Longrightarrow> m \<notin> set (head # xs) \<Longrightarrow> list_remove n h m = h m"
  using ring_nodes(3,4) [of h head xs n] by (auto simp: list_remove_def intro!: list_remove_between_other)

lemma list_init_frame: "m \<noteq> n \<Longrightarrow> list_init n h m = h m"
  by (simp add: list_init_def list_upd)

text \<open>A node that is in no list (initialised or already removed): removing it again changes nothing.\<close>

lemma list_remove_self: "ring h n [] \<Longrightarrow> list_remove n h = h"
  by (auto simp: ring_def list_remove_def list_remove_between_def list_upd fun_eq_iff)

lemma list_for_each_ring:
  assumes "ring h head xs" "length xs \<le> fuel"
  shows "list_for_each fuel h head = Some xs"
proof -
  have "list_walk fuel h head (if ys = [] then None else Some (hd ys)) = Some ys"
    if "chain h a ys head" "head \<notin> set ys" "length ys \<le> fuel" for a ys fuel
    using that
  proof (induction ys arbitrary: a fuel)
    case Nil
    then show ?case by simp
  next
    case (Cons y ys)
    then obtain g where g: "fuel = Suc g" by (cases fuel) auto
    have "list_next h head y = (if ys = [] then None else Some (hd ys))"
      using Cons.prems by (cases ys) (auto simp: list_next_def)
    then show ?case using Cons.IH [of y g] Cons.prems g by simp
  qed
  from this [of head xs fuel] show ?thesis
    using assms ring_front [OF assms(1)] by (simp add: list_for_each_def ring_def)
qed

lemma list_for_each_reverse_ring:
  assumes "ring h head xs" "length xs \<le> fuel"
  shows "list_for_each_reverse fuel h head = Some (rev xs)"
proof -
  have "list_walk_back fuel h head (if ys = [] then None else Some (last ys)) = Some (rev ys)"
    if "chain h head ys b" "head \<notin> set ys" "length ys \<le> fuel" for b ys fuel
    using that
  proof (induction ys arbitrary: b fuel rule: rev_induct)
    case Nil
    then show ?case by simp
  next
    case (snoc y ys)
    then obtain g where g: "fuel = Suc g" by (cases fuel) auto
    have c: "chain h head ys y" using snoc.prems by (simp add: chain_append)
    have "list_prev h head y = (if ys = [] then None else Some (last ys))"
      using chain_prev_last [OF c] snoc.prems by (cases ys rule: rev_cases) (auto simp: list_prev_def)
    then show ?case using snoc.IH [OF c, of g] snoc.prems g by simp
  qed
  from this [of xs head fuel] show ?thesis
    using assms ring_back [OF assms(1)] by (simp add: list_for_each_reverse_def ring_def)
qed

text \<open>
  The contract of \<open>lib/list.h\<close> as its clients (the buddy system's free lists and the slab
  caches' slab lists) use it: \<open>rep h head xs\<close> says that the list of \<open>head\<close> holds exactly
  the nodes \<open>xs\<close>.
\<close>

locale intrusive_list =
  fixes rep :: "'h \<Rightarrow> 'n \<Rightarrow> 'n list \<Rightarrow> bool"
    and init :: "'n \<Rightarrow> 'h \<Rightarrow> 'h"
    and add_first add_last :: "'n \<Rightarrow> 'n \<Rightarrow> 'h \<Rightarrow> 'h"
    and remove :: "'n \<Rightarrow> 'h \<Rightarrow> 'h"
    and front :: "'h \<Rightarrow> 'n \<Rightarrow> 'n option"
  assumes rep_distinct: "rep h head xs \<Longrightarrow> distinct (head # xs)"
    and rep_init: "rep (init head h) head []"
    and rep_add_first: "rep h head xs \<Longrightarrow> n \<notin> set (head # xs) \<Longrightarrow> rep (add_first n head h) head (n # xs)"
    and rep_add_last: "rep h head xs \<Longrightarrow> n \<notin> set (head # xs) \<Longrightarrow> rep (add_last n head h) head (xs @ [n])"
    and rep_remove: "rep h head xs \<Longrightarrow> n \<in> set xs \<Longrightarrow> rep (remove n h) head (remove1 n xs)"
    and rep_front: "rep h head xs \<Longrightarrow> front h head = (if xs = [] then None else Some (hd xs))"
    and frame_init: "rep h other ys \<Longrightarrow> head \<notin> set (other # ys) \<Longrightarrow> rep (init head h) other ys"
    and frame_add_first: "rep h head xs \<Longrightarrow> rep h other ys \<Longrightarrow> set (n # head # xs) \<inter> set (other # ys) = {} \<Longrightarrow>
      rep (add_first n head h) other ys"
    and frame_add_last: "rep h head xs \<Longrightarrow> rep h other ys \<Longrightarrow> set (n # head # xs) \<inter> set (other # ys) = {} \<Longrightarrow>
      rep (add_last n head h) other ys"
    and frame_remove: "rep h head xs \<Longrightarrow> n \<in> set xs \<Longrightarrow> rep h other ys \<Longrightarrow> set (head # xs) \<inter> set (other # ys) = {} \<Longrightarrow>
      rep (remove n h) other ys"
begin

text \<open>A family of lists with heads \<open>heads k\<close>, \<open>k \<in> K\<close>, that share no node.\<close>

definition family :: "'h \<Rightarrow> ('k \<Rightarrow> 'n) \<Rightarrow> 'k set \<Rightarrow> ('k \<Rightarrow> 'n list) \<Rightarrow> bool" where
  "family h heads K ls \<longleftrightarrow> (\<forall>k \<in> K. rep h (heads k) (ls k)) \<and>
     (\<forall>j \<in> K. \<forall>k \<in> K. j \<noteq> k \<longrightarrow> set (heads j # ls j) \<inter> set (heads k # ls k) = {})"

lemma familyD:
  assumes "family h heads K ls" "k \<in> K"
  shows "rep h (heads k) (ls k)" "j \<in> K \<Longrightarrow> j \<noteq> k \<Longrightarrow> set (heads j # ls j) \<inter> set (heads k # ls k) = {}"
  using assms by (auto simp: family_def)

lemma family_front:
  "family h heads K ls \<Longrightarrow> k \<in> K \<Longrightarrow> front h (heads k) = (if ls k = [] then None else Some (hd (ls k)))"
  by (rule rep_front) (rule familyD)

lemma family_add_last:
  assumes f: "family h heads K ls" and k: "k \<in> K" and n: "\<forall>j \<in> K. n \<notin> set (heads j # ls j)"
  shows "family (add_last n (heads k) h) heads K (ls(k := ls k @ [n]))"
  unfolding family_def
proof (intro conjI ballI impI)
  fix j assume j: "j \<in> K"
  show "rep (add_last n (heads k) h) (heads j) ((ls(k := ls k @ [n])) j)"
  proof (cases "j = k")
    case True
    then show ?thesis using rep_add_last [OF familyD(1) [OF f k]] n k by simp
  next
    case False
    have "set (n # heads k # ls k) \<inter> set (heads j # ls j) = {}"
      using familyD(2) [OF f k j False] n j by auto
    then show ?thesis
      using frame_add_last [OF familyD(1) [OF f k] familyD(1) [OF f j]] False by simp
  qed
next
  fix i j assume ij: "i \<in> K" "j \<in> K" "i \<noteq> j"
  then show "set (heads i # (ls(k := ls k @ [n])) i) \<inter> set (heads j # (ls(k := ls k @ [n])) j) = {}"
    using familyD(2) [OF f ij(2) ij(1) ij(3)] n by auto
qed

lemma family_add_first:
  assumes f: "family h heads K ls" and k: "k \<in> K" and n: "\<forall>j \<in> K. n \<notin> set (heads j # ls j)"
  shows "family (add_first n (heads k) h) heads K (ls(k := n # ls k))"
  unfolding family_def
proof (intro conjI ballI impI)
  fix j assume j: "j \<in> K"
  show "rep (add_first n (heads k) h) (heads j) ((ls(k := n # ls k)) j)"
  proof (cases "j = k")
    case True
    then show ?thesis using rep_add_first [OF familyD(1) [OF f k]] n k by simp
  next
    case False
    have "set (n # heads k # ls k) \<inter> set (heads j # ls j) = {}"
      using familyD(2) [OF f k j False] n j by auto
    then show ?thesis
      using frame_add_first [OF familyD(1) [OF f k] familyD(1) [OF f j]] False by simp
  qed
next
  fix i j assume ij: "i \<in> K" "j \<in> K" "i \<noteq> j"
  then show "set (heads i # (ls(k := n # ls k)) i) \<inter> set (heads j # (ls(k := n # ls k)) j) = {}"
    using familyD(2) [OF f ij(2) ij(1) ij(3)] n by auto
qed

lemma family_remove:
  assumes f: "family h heads K ls" and k: "k \<in> K" and n: "n \<in> set (ls k)"
  shows "family (remove n h) heads K (ls(k := remove1 n (ls k)))"
    and "\<forall>j \<in> K. n \<notin> set (heads j # (ls(k := remove1 n (ls k))) j)"
proof -
  have sub: "set (remove1 n (ls k)) \<subseteq> set (ls k)" by (rule set_remove1_subset)
  show "family (remove n h) heads K (ls(k := remove1 n (ls k)))"
    unfolding family_def
  proof (intro conjI ballI impI)
    fix j assume j: "j \<in> K"
    show "rep (remove n h) (heads j) ((ls(k := remove1 n (ls k))) j)"
    proof (cases "j = k")
      case True
      then show ?thesis using rep_remove [OF familyD(1) [OF f k] n] by simp
    next
      case False
      have "set (heads k # ls k) \<inter> set (heads j # ls j) = {}"
        using familyD(2) [OF f j k] False by auto
      then show ?thesis
        using frame_remove [OF familyD(1) [OF f k] n familyD(1) [OF f j]] False by simp
    qed
  next
    fix i j assume ij: "i \<in> K" "j \<in> K" "i \<noteq> j"
    then show "set (heads i # (ls(k := remove1 n (ls k))) i) \<inter> set (heads j # (ls(k := remove1 n (ls k))) j) = {}"
      using familyD(2) [OF f ij(2) ij(1) ij(3)] sub by auto
  qed
  show "\<forall>j \<in> K. n \<notin> set (heads j # (ls(k := remove1 n (ls k))) j)"
  proof
    fix j assume j: "j \<in> K"
    show "n \<notin> set (heads j # (ls(k := remove1 n (ls k))) j)"
      using rep_distinct [OF familyD(1) [OF f k]] familyD(2) [OF f j k] n
      by (cases "j = k") auto
  qed
qed

text \<open>\<open>list_move\<close>: out of the list it is in, to the front of another (or the same) one.\<close>

lemma family_move:
  assumes f: "family h heads K ls" and k: "k \<in> K" and n: "n \<in> set (ls k)" and j: "j \<in> K"
  shows "family (add_first n (heads j) (remove n h)) heads K
    ((ls(k := remove1 n (ls k)))(j := n # (ls(k := remove1 n (ls k))) j))"
  by (rule family_add_first [OF family_remove(1) [OF f k n] j family_remove(2) [OF f k n]])

end

interpretation kernel_list: intrusive_list ring list_init list_add_first list_add_last list_remove list_front
proof
  fix h :: "'n store" and head other n :: 'n and xs ys :: "'n list"
  show "ring h head xs \<Longrightarrow> distinct (head # xs)" by (simp add: ring_def)
  show "ring (list_init head h) head []" by (rule ring_init)
  show "ring h other ys \<Longrightarrow> head \<notin> set (other # ys) \<Longrightarrow> ring (list_init head h) other ys"
    by (rule ring_frame) (auto intro!: list_init_frame)
  { assume r: "ring h head xs"
    show "n \<notin> set (head # xs) \<Longrightarrow> ring (list_add_first n head h) head (n # xs)" using r by (rule ring_add_first)
    show "n \<notin> set (head # xs) \<Longrightarrow> ring (list_add_last n head h) head (xs @ [n])" using r by (rule ring_add_last)
    show "n \<in> set xs \<Longrightarrow> ring (list_remove n h) head (remove1 n xs)" using r by (rule ring_remove)
    show "list_front h head = (if xs = [] then None else Some (hd xs))" using r by (rule ring_front)
    assume o: "ring h other ys"
    show "set (n # head # xs) \<inter> set (other # ys) = {} \<Longrightarrow> ring (list_add_first n head h) other ys"
      by (rule ring_frame [OF o]) (use list_add_first_frame [OF r] in blast)
    show "set (n # head # xs) \<inter> set (other # ys) = {} \<Longrightarrow> ring (list_add_last n head h) other ys"
      by (rule ring_frame [OF o]) (use list_add_last_frame [OF r] in blast)
    show "n \<in> set xs \<Longrightarrow> set (head # xs) \<inter> set (other # ys) = {} \<Longrightarrow> ring (list_remove n h) other ys"
      by (rule ring_frame [OF o]) (use list_remove_frame [OF r] in blast) }
qed

section \<open>Properties\<close>

definition self_store :: "nat store" where
  "self_store n = \<lparr>node_prev = n, node_next = n\<rparr>"

text \<open>Removing a node takes exactly that node out of its list, keeps the order and the links of the
  others and leaves the node pointing to itself.\<close>

theorem list_remove_correct:
  assumes "ring h head xs" "n \<in> set xs"
  shows "ring (list_remove n h) head (remove1 n xs) \<and> ring (list_remove n h) n []"
proof
  show "ring (list_remove n h) head (remove1 n xs)" by (rule ring_remove [OF assms])
  show "ring (list_remove n h) n []"
    by (simp add: ring_def list_remove_def list_remove_between_def list_upd)
qed

theorem list_remove_correct_witness:
  "ring (list_remove 1 (list_add_last 2 0 (list_add_last 1 0 (list_init (0 :: nat) self_store)))) 0 (remove1 1 ([] @ [1] @ [2])) \<and>
   ring (list_remove 1 (list_add_last 2 0 (list_add_last 1 0 (list_init (0 :: nat) self_store)))) 1 []"
proof (rule list_remove_correct)
  have "ring (list_add_last 1 0 (list_init (0 :: nat) self_store)) 0 ([] @ [1])"
    by (rule ring_add_last [OF ring_init]) simp
  from ring_add_last [OF this, of 2]
  show "ring (list_add_last 2 0 (list_add_last 1 0 (list_init (0 :: nat) self_store))) 0 ([] @ [1] @ [2])" by simp
qed simp

text \<open>\<open>list_for_each\<close> and \<open>list_for_each_reverse\<close> visit every node of a list once, in order and in
  reverse order, and stop: fuel of the list's length is enough.\<close>

theorem list_for_each_visits:
  assumes "ring h head xs" "length xs \<le> fuel"
  shows "list_for_each fuel h head = Some xs \<and> list_for_each_reverse fuel h head = Some (rev xs)"
  using list_for_each_ring [OF assms] list_for_each_reverse_ring [OF assms] by simp

theorem list_for_each_visits_witness:
  "list_for_each 2 (list_add_first 7 0 (list_init (0 :: nat) self_store)) 0 = Some [7] \<and>
   list_for_each_reverse 2 (list_add_first 7 0 (list_init (0 :: nat) self_store)) 0 = Some (rev [7])"
  by (rule list_for_each_visits [OF ring_add_first [OF ring_init]]) simp_all

end
