(* ===== verification/Buddy.thy ===== *)
theory Buddy
  imports DList
begin

text \<open>
  The buddy page allocator, \<open>src/kernel/mm/buddy.c\<close> with the structures of \<open>include/kernel/mm.h\<close>.

  A \<open>struct page *\<close> is its index in the array \<open>mem_pages\<close>, whose length is \<open>arr_len\<close>; reading or
  writing a page outside the array is the value \<open>None\<close>, and so is the null pointer that
  \<open>list_front\<close> gives on an empty list.  The free lists are the intrusive rings of the theory
  \<open>DList\<close> over the nodes of the zone: the eleven heads \<open>free_area[k].free_pages\<close> and the node
  \<open>buddy_free_list\<close> of every page.  The messages that \<open>error(...)\<close> logs are not modelled: the
  macro prints and returns, so the code goes on after it.
\<close>

section \<open>Structures\<close>

definition MAX_ORDER :: nat where "MAX_ORDER = 11"
definition PAGE_FLAG_BUDDY :: u32 where "PAGE_FLAG_BUDDY = 1"
definition PAGE_FLAG_SLAB :: u32 where "PAGE_FLAG_SLAB = 2"
definition PFN_NOTFOUND :: size_t where "PFN_NOTFOUND = -1"

record page =
  page_flag :: u32
  page_order :: u32
  page_u :: u64

datatype bnode = FreeHead nat | PageNode size_t

record zone =
  mem_map :: size_t
  pfn_base :: size_t
  nr_pages :: size_t
  nr_free_pages :: size_t
  free_count :: "nat \<Rightarrow> size_t"
  nodes :: "bnode store"
  pages :: "size_t \<Rightarrow> page"
  arr_len :: nat

definition pfn_to_page :: "zone \<Rightarrow> size_t \<Rightarrow> size_t" where
  "pfn_to_page z pfn = mem_map z + (pfn - pfn_base z)"

definition page_to_pfn :: "zone \<Rightarrow> size_t \<Rightarrow> size_t" where
  "page_to_pfn z page = pfn_base z + (page - mem_map z)"

definition page_ok :: "zone \<Rightarrow> size_t \<Rightarrow> bool" where
  "page_ok z p \<longleftrightarrow> unat p < arr_len z"

section \<open>Operations\<close>

fun init_areas :: "nat list \<Rightarrow> zone \<Rightarrow> zone" where
  "init_areas [] z = z"
| "init_areas (ord # os) z =
     init_areas os (z\<lparr>free_count := (free_count z)(ord := 0), nodes := list_init (FreeHead ord) (nodes z)\<rparr>)"

definition buddy_init_zone :: "zone \<Rightarrow> size_t \<Rightarrow> size_t \<Rightarrow> zone" where
  "buddy_init_zone z pfn_start nr =
     init_areas [0..<MAX_ORDER] (z\<lparr>pfn_base := pfn_start, nr_pages := nr, nr_free_pages := 0, mem_map := pfn_start\<rparr>)"

definition find_buddy_pfn :: "size_t \<Rightarrow> nat \<Rightarrow> size_t" where
  "find_buddy_pfn pfn order = pfn XOR push_bit order 1"

definition page_is_buddy :: "page \<Rightarrow> nat \<Rightarrow> bool" where
  "page_is_buddy pg order \<longleftrightarrow> page_flag pg AND PAGE_FLAG_BUDDY \<noteq> 0 \<and> page_order pg = of_nat order"

definition del_page_from_free_list :: "zone \<Rightarrow> size_t \<Rightarrow> nat \<Rightarrow> zone option" where
  "del_page_from_free_list z p order =
     (if page_ok z p
      then Some (z\<lparr>nodes := list_remove (PageNode p) (nodes z),
                   free_count := (free_count z)(order := free_count z order - 1),
                   pages := (pages z)(p := (pages z p)\<lparr>page_flag := page_flag (pages z p) AND PAGE_FLAG_BUDDY\<rparr>)\<rparr>)
      else None)"

definition add_page_to_free_list :: "zone \<Rightarrow> size_t \<Rightarrow> nat \<Rightarrow> zone option" where
  "add_page_to_free_list z p order =
     (if page_ok z p
      then Some (z\<lparr>nodes := list_add_last (PageNode p) (FreeHead order) (list_init (PageNode p) (nodes z)),
                   free_count := (free_count z)(order := free_count z order + 1)\<rparr>)
      else None)"

definition set_buddy_order :: "zone \<Rightarrow> size_t \<Rightarrow> nat \<Rightarrow> zone option" where
  "set_buddy_order z p order =
     (if page_ok z p
      then Some (z\<lparr>pages := (pages z)(p := (pages z p)\<lparr>page_order := of_nat order,
                     page_flag := page_flag (pages z p) OR PAGE_FLAG_BUDDY\<rparr>)\<rparr>)
      else None)"

fun expand_loop :: "zone \<Rightarrow> size_t \<Rightarrow> size_t \<Rightarrow> nat \<Rightarrow> nat \<Rightarrow> zone option" where
  "expand_loop z page pfn_offset 0 target = Some z"
| "expand_loop z page pfn_offset (Suc origin) target =
     (if Suc origin > target then do {
        z1 \<leftarrow> add_page_to_free_list z (page + drop_bit 1 pfn_offset) origin;
        z2 \<leftarrow> set_buddy_order z1 (page + drop_bit 1 pfn_offset) origin;
        expand_loop z2 page (drop_bit 1 pfn_offset) origin target }
      else Some z)"

definition expand_buddy :: "zone \<Rightarrow> size_t \<Rightarrow> nat \<Rightarrow> nat \<Rightarrow> zone option" where
  "expand_buddy z page origin_order target_order =
     expand_loop z page (push_bit origin_order 1) origin_order target_order"

text \<open>
  The order loop of \<open>buddy_page_alloc\<close>.  Its condition reads \<open>sz&1 == 0\<close>; in C \<open>==\<close> binds
  tighter than \<open>&\<close>, so it is \<open>sz & (1 == 0)\<close>.
\<close>

function alloc_order :: "size_t \<Rightarrow> nat \<Rightarrow> nat" where
  "alloc_order sz order =
     (if sz AND of_bool ((1 :: cint) = 0) \<noteq> 0 then alloc_order (drop_bit 1 sz) (order + 1) else order)"
  by pat_completeness auto
termination
  by (relation "measure (\<lambda>(sz, order). unat sz)") auto

definition front_page :: "zone \<Rightarrow> nat \<Rightarrow> size_t option" where
  "front_page z order =
     (case list_front (nodes z) (FreeHead order) of Some (PageNode p) \<Rightarrow> Some p | _ \<Rightarrow> None)"

fun alloc_search :: "zone \<Rightarrow> size_t \<Rightarrow> nat \<Rightarrow> nat list \<Rightarrow> (zone \<times> size_t) option" where
  "alloc_search z nr order [] = Some (z, PFN_NOTFOUND)"
| "alloc_search z nr order (search_order # os) =
     (if free_count z search_order = 0 then alloc_search z nr order os
      else do {
        page \<leftarrow> front_page z search_order;
        z1 \<leftarrow> del_page_from_free_list z page search_order;
        z2 \<leftarrow> (if search_order \<noteq> order then expand_buddy z1 page search_order order else Some z1);
        Some (z2\<lparr>nr_free_pages := nr_free_pages z2 - nr\<rparr>, page_to_pfn z2 page) })"

definition buddy_page_alloc :: "zone \<Rightarrow> size_t \<Rightarrow> (zone \<times> size_t) option" where
  "buddy_page_alloc z nr =
     (let order = alloc_order nr 0 in alloc_search z nr order [order..<MAX_ORDER])"

function merge_loop :: "zone \<Rightarrow> size_t \<Rightarrow> nat \<Rightarrow> (zone \<times> size_t \<times> nat) option" where
  "merge_loop z pfn order =
     (if order < MAX_ORDER - 1
      then let buddy_pfn = find_buddy_pfn pfn order; buddy = pfn_to_page z buddy_pfn
           in if \<not> page_ok z buddy then None
              else if \<not> page_is_buddy (pages z buddy) order then Some (z, pfn, order)
              else do { z1 \<leftarrow> del_page_from_free_list z buddy order;
                        merge_loop z1 (buddy_pfn AND pfn) (order + 1) }
      else Some (z, pfn, order))"
  by pat_completeness auto
termination
  by (relation "measure (\<lambda>(z, pfn, order). MAX_ORDER - order)") auto

declare merge_loop.simps [simp del]

definition buddy_free_block :: "zone \<Rightarrow> size_t \<Rightarrow> nat \<Rightarrow> zone option" where
  "buddy_free_block z pfn order =
     do { (z1, pfn1, order1) \<leftarrow> merge_loop z pfn order;
          z2 \<leftarrow> set_buddy_order z1 (pfn_to_page z1 pfn1) order1;
          add_page_to_free_list z2 (pfn_to_page z2 pfn1) order1 }"

fun pick_order :: "size_t \<Rightarrow> size_t \<Rightarrow> nat \<Rightarrow> nat option" where
  "pick_order pfn nr 0 = None"
| "pick_order pfn nr (Suc order) =
     (if pfn mod push_bit order 1 = 0 \<and> nr \<ge> push_bit order 1 then Some order else pick_order pfn nr order)"

lemma div_eq_iff: "0 < m \<Longrightarrow> n div m = (q::nat) \<longleftrightarrow> m * q \<le> n \<and> n < m * q + m"
  using div_nat_eqI [of m q n] dividend_less_div_times [of m n] div_times_less_eq_dividend [of n m]
  by (auto simp: algebra_simps)

lemma unat_pow2:
  assumes "k < 64"
  shows "unat (2 ^ k :: size_t) = 2 ^ k"
proof -
  have "(2 ^ k :: size_t) = word_of_nat (2 ^ k)" by simp
  moreover have "(2::nat) ^ k < 2 ^ 64" using assms by (intro power_strict_increasing) auto
  ultimately show ?thesis by (simp only: unat_of_nat) simp
qed
lemma pick_order_Some:
  "pick_order pfn nr n = Some k \<Longrightarrow> k < n \<and> pfn mod push_bit k 1 = 0 \<and> nr \<ge> push_bit k 1"
  by (induction n) (auto split: if_splits)

function free_range_loop :: "zone \<Rightarrow> size_t \<Rightarrow> size_t \<Rightarrow> zone option" where
  "free_range_loop z pfn nr =
     (if nr = 0 then Some z
      else case pick_order pfn nr MAX_ORDER of
        None \<Rightarrow> None
      | Some order \<Rightarrow> do { z1 \<leftarrow> buddy_free_block z pfn order;
                         free_range_loop z1 (pfn + push_bit order 1) (nr - push_bit order 1) })"
  by pat_completeness auto
termination
proof (relation "measure (\<lambda>(z, pfn, nr). unat nr)", goal_cases)
  case (2 z pfn nr order z1)
  then have "order < 11" "push_bit order 1 \<le> nr"
    using pick_order_Some by (auto simp: MAX_ORDER_def)
  then have "unat (nr - push_bit order 1) = unat nr - 2 ^ order" "2 ^ order \<le> unat nr"
    by (auto simp: unat_sub unat_pow2 word_le_nat_alt)
  moreover have "0 < unat nr" using 2 by (simp add: unat_gt_0)
  ultimately show ?case by simp
qed simp

declare free_range_loop.simps [simp del]

definition buddy_page_free :: "zone \<Rightarrow> size_t \<Rightarrow> size_t \<Rightarrow> zone option" where
  "buddy_page_free z pfn nr = free_range_loop (z\<lparr>nr_free_pages := nr_free_pages z + nr\<rparr>) pfn nr"

text \<open>A zone in zeroed memory whose page array has \<open>n\<close> entries.\<close>

definition blank_zone :: "nat \<Rightarrow> zone" where
  "blank_zone n = \<lparr>mem_map = 0, pfn_base = 0, nr_pages = 0, nr_free_pages = 0, free_count = (\<lambda>_. 0),
     nodes = (\<lambda>n. \<lparr>node_prev = n, node_next = n\<rparr>), pages = (\<lambda>_. \<lparr>page_flag = 0, page_order = 0, page_u = 0\<rparr>), arr_len = n\<rparr>"

section \<open>Blocks of pages\<close>

definition block :: "nat \<Rightarrow> size_t \<Rightarrow> size_t set" where
  "block k p = {x. drop_bit k x = drop_bit k p}"

lemma mem_block: "x \<in> block k p \<longleftrightarrow> (\<forall>n<64. k \<le> n \<longrightarrow> bit x n = bit p n)"
proof
  assume "x \<in> block k p"
  then have e: "drop_bit k x = drop_bit k p" by (simp add: block_def)
  have "bit x n = bit p n" if "k \<le> n" for n
    using arg_cong [OF e, of "\<lambda>w. bit w (n - k)"] that by (simp add: bit_drop_bit_eq)
  then show "\<forall>n<64. k \<le> n \<longrightarrow> bit x n = bit p n" by blast
next
  assume a: "\<forall>n<64. k \<le> n \<longrightarrow> bit x n = bit p n"
  have "drop_bit k x = drop_bit k p"
  proof (rule bit_word_eqI)
    fix n assume "n < LENGTH(64)"
    show "bit (drop_bit k x) n = bit (drop_bit k p) n"
      using a bit_imp_le_length [of x "k + n"] bit_imp_le_length [of p "k + n"]
      by (cases "k + n < 64") (auto simp: bit_drop_bit_eq)
  qed
  then show "x \<in> block k p" by (simp add: block_def)
qed

lemma aligned_bits: "take_bit k p = 0 \<longleftrightarrow> (\<forall>n<k. \<not> bit (p :: size_t) n)"
  using bit_imp_le_length [of p] by (auto simp: bit_eq_iff bit_take_bit_iff)

lemma bit_find_buddy: "n < 64 \<Longrightarrow> bit (find_buddy_pfn p k) n \<longleftrightarrow> (bit p n \<noteq> (n = k))"
  by (auto simp: find_buddy_pfn_def bit_simps)

lemma block_self: "p \<in> block k p"
  by (simp add: block_def)

lemma block_0: "block 0 p = {p}"
  by (auto simp: block_def)

lemma block_eq: "x \<in> block k p \<Longrightarrow> block k x = block k p"
  by (auto simp: block_def)

lemma block_nested:
  assumes "j \<le> k" "x \<in> block j p" "x \<in> block k q"
  shows "block j p \<subseteq> block k q"
  using assms by (auto simp: mem_block)

lemma block_mono: "j \<le> k \<Longrightarrow> block j p \<subseteq> block k p"
  by (auto simp: mem_block)

lemma block_Suc:
  assumes "k < 64"
  shows "block (Suc k) p = block k p \<union> block k (find_buddy_pfn p k)"
proof (rule set_eqI, rule iffI)
  fix x assume x: "x \<in> block (Suc k) p"
  show "x \<in> block k p \<union> block k (find_buddy_pfn p k)"
  proof (cases "bit x k = bit p k")
    case True
    then have "x \<in> block k p" using x by (auto simp: mem_block Suc_le_eq le_less)
    then show ?thesis by simp
  next
    case False
    then have "x \<in> block k (find_buddy_pfn p k)"
      using x by (auto simp: mem_block bit_find_buddy Suc_le_eq le_less)
    then show ?thesis by simp
  qed
next
  fix x assume "x \<in> block k p \<union> block k (find_buddy_pfn p k)"
  then show "x \<in> block (Suc k) p" by (auto simp: mem_block bit_find_buddy)
qed

lemma buddy_disjoint: "k < 64 \<Longrightarrow> block k p \<inter> block k (find_buddy_pfn p k) = {}"
  using bit_find_buddy [of k p k] by (auto simp: mem_block)

lemma find_buddy_sym: "find_buddy_pfn (find_buddy_pfn p k) k = p"
  by (simp add: find_buddy_pfn_def xor.assoc)

lemma aligned_find_buddy: "k < 64 \<Longrightarrow> take_bit k p = 0 \<Longrightarrow> take_bit k (find_buddy_pfn p k) = 0"
  by (simp add: aligned_bits bit_find_buddy)

lemma combined_in_block: "k < 64 \<Longrightarrow> block (Suc k) (find_buddy_pfn p k AND p) = block (Suc k) p"
  by (rule block_eq) (auto simp: mem_block bit_and_iff bit_find_buddy)

lemma combined_aligned: "k < 64 \<Longrightarrow> take_bit k p = 0 \<Longrightarrow> take_bit (Suc k) (find_buddy_pfn p k AND p) = 0"
  unfolding aligned_bits by (auto simp: bit_and_iff bit_find_buddy less_Suc_eq)

lemma aligned_unique: "take_bit k p = 0 \<Longrightarrow> take_bit k q = 0 \<Longrightarrow> q \<in> block k p \<Longrightarrow> q = p"
  by (rule bit_word_eqI) (auto simp: aligned_bits mem_block not_le [symmetric])

lemma block_unat: "x \<in> block k p \<longleftrightarrow> unat x div 2 ^ k = unat p div 2 ^ k"
  by (simp add: block_def word_unat_eq_iff unat_drop_bit_eq drop_bit_eq_div [where 'a = nat])

lemma aligned_unat: "k < 64 \<Longrightarrow> take_bit k p = 0 \<longleftrightarrow> 2 ^ k dvd unat (p :: size_t)"
  by (simp add: word_unat_eq_iff unsigned_take_bit_eq take_bit_eq_mod [where 'a = nat] dvd_eq_mod_eq_0)

lemma block_interval:
  assumes "k < 64" "take_bit k p = 0"
  shows "x \<in> block k p \<longleftrightarrow> unat p \<le> unat x \<and> unat x < unat p + 2 ^ k"
proof -
  obtain q where q: "unat p = 2 ^ k * q" using assms by (auto simp: aligned_unat)
  show ?thesis
    unfolding block_unat q by (auto simp: div_eq_iff algebra_simps)
qed

lemma aligned_plus:
  assumes "k < 63" "take_bit (Suc k) p = 0"
  shows "p + push_bit k 1 = find_buddy_pfn p k"
proof -
  have "p AND push_bit k 1 = 0"
    using assms by (auto intro!: bit_word_eqI simp: aligned_bits bit_simps)
  then show ?thesis using disjunctive_xor_eq_or [of p "push_bit k 1"] disjunctive_add_eq_or [of p "push_bit k 1"] by (simp add: find_buddy_pfn_def)
qed

section \<open>The invariant of the free lists\<close>

definition free_set :: "(nat \<Rightarrow> size_t list) \<Rightarrow> size_t set" where
  "free_set fl = (\<Union>k\<in>{..<11}. \<Union>p\<in>set (fl k). block k p)"

definition lists_of :: "(nat \<Rightarrow> size_t list) \<Rightarrow> nat \<Rightarrow> bnode list" where
  "lists_of fl k = map PageNode (fl k)"

definition buddy_struct :: "zone \<Rightarrow> (nat \<Rightarrow> size_t list) \<Rightarrow> bool" where
  "buddy_struct z fl \<longleftrightarrow>
     mem_map z = pfn_base z \<and> 1024 dvd arr_len z \<and> arr_len z < 2 ^ 64 \<and>
     kernel_list.family (nodes z) FreeHead {..<11} (lists_of fl) \<and>
     (\<forall>k<11. free_count z k = of_nat (length (fl k))) \<and>
     (\<forall>k<11. \<forall>p \<in> set (fl k). take_bit k p = 0 \<and> unat p < arr_len z \<and> page_is_buddy (pages z p) k) \<and>
     (\<forall>j<11. \<forall>k<11. \<forall>p \<in> set (fl j). \<forall>q \<in> set (fl k). block j p \<inter> block k q \<noteq> {} \<longrightarrow> j = k \<and> p = q)"

lemma map_remove1: "map PageNode (remove1 p xs) = remove1 (PageNode p) (map PageNode xs)"
  by (induction xs) auto

lemma lists_of_upd: "lists_of (fl(k := xs)) = (lists_of fl)(k := map PageNode xs)"
  by (auto simp: lists_of_def fun_eq_iff)

lemma buddy_structD:
  assumes "buddy_struct z fl"
  shows "mem_map z = pfn_base z" "1024 dvd arr_len z" "arr_len z < 2 ^ 64"
    "kernel_list.family (nodes z) FreeHead {..<11} (lists_of fl)"
    "k < 11 \<Longrightarrow> free_count z k = of_nat (length (fl k))"
    "k < 11 \<Longrightarrow> p \<in> set (fl k) \<Longrightarrow> take_bit k p = 0"
    "k < 11 \<Longrightarrow> p \<in> set (fl k) \<Longrightarrow> unat p < arr_len z"
    "k < 11 \<Longrightarrow> p \<in> set (fl k) \<Longrightarrow> page_is_buddy (pages z p) k"
    "j < 11 \<Longrightarrow> k < 11 \<Longrightarrow> p \<in> set (fl j) \<Longrightarrow> q \<in> set (fl k) \<Longrightarrow> block j p \<inter> block k q \<noteq> {} \<Longrightarrow> j = k \<and> p = q"
  using assms unfolding buddy_struct_def by blast+

lemma buddy_distinct:
  assumes "buddy_struct z fl" "k < 11"
  shows "distinct (fl k)"
  using kernel_list.familyD(1) [OF buddy_structD(4) [OF assms(1)], of k] assms(2)
  by (auto simp: ring_def lists_of_def distinct_map)

lemma buddy_count_0:
  assumes s: "buddy_struct z fl" and k: "k < 11"
  shows "free_count z k = 0 \<longleftrightarrow> fl k = []"
proof -
  have "set (fl k) \<subseteq> word_of_nat ` {..<arr_len z}"
    using buddy_structD(7) [OF s k] by (auto intro!: image_eqI [where x = "unat _"])
  then have "card (set (fl k)) \<le> card ((word_of_nat :: nat \<Rightarrow> size_t) ` {..<arr_len z})"
    by (rule card_mono [rotated]) simp
  also have "\<dots> \<le> arr_len z"
    using card_image_le [of "{..<arr_len z}" "word_of_nat :: nat \<Rightarrow> size_t"] by simp
  finally have "card (set (fl k)) \<le> arr_len z" .
  then have "length (fl k) < 2 ^ 64"
    using buddy_distinct [OF s k] buddy_structD(3) [OF s] by (simp add: distinct_card)
  then show ?thesis
    unfolding buddy_structD(5) [OF s k] by (auto simp: word_of_nat_eq_0_iff dest: dvd_imp_le)
qed

lemma page_is_buddy_del [simp]:
  "page_is_buddy (pg\<lparr>page_flag := page_flag pg AND PAGE_FLAG_BUDDY\<rparr>) k = page_is_buddy pg k"
  by (simp add: page_is_buddy_def and.assoc)

lemma page_is_buddy_set:
  "j < 11 \<Longrightarrow> k < 11 \<Longrightarrow>
   page_is_buddy (pg\<lparr>page_order := of_nat j, page_flag := page_flag pg OR PAGE_FLAG_BUDDY\<rparr>) k \<longleftrightarrow> j = k"
proof -
  assume jk: "j < 11" "k < 11"
  have "bit ((page_flag pg OR 1) AND 1) 0" by (simp add: bit_simps)
  then have "(page_flag pg OR 1) AND 1 \<noteq> 0" by fastforce
  moreover have "(of_nat j :: u32) = of_nat k \<longleftrightarrow> j = k"
    using jk by (simp add: word_of_nat_eq_iff take_bit_nat_eq_self)
  ultimately show ?thesis
    by (simp add: page_is_buddy_def PAGE_FLAG_BUDDY_def)
qed

lemma pfn_to_page_id: "buddy_struct z fl \<Longrightarrow> pfn_to_page z p = p"
  by (simp add: pfn_to_page_def buddy_structD)

lemma page_to_pfn_id: "buddy_struct z fl \<Longrightarrow> page_to_pfn z p = p"
  by (simp add: page_to_pfn_def buddy_structD)

lemma block_in_array:
  assumes "buddy_struct z fl" "x \<in> block k p" "k < 11" "unat p < arr_len z"
  shows "page_ok z x"
proof -
  obtain m where m: "arr_len z = 1024 * m" using buddy_structD(2) [OF assms(1)] by auto
  have "x \<in> block 10 p" using assms block_mono [of k 10 p] by auto
  then have "unat x div 1024 = unat p div 1024" by (simp add: block_unat)
  moreover have "unat p div 1024 < m" using assms(4) m by (simp add: less_mult_imp_div_less mult.commute)
  ultimately show ?thesis using m unfolding page_ok_def by (metis div_less_iff_less_mult mult.commute zero_less_numeral)
qed

lemma mem_free_set: "x \<in> free_set fl \<longleftrightarrow> (\<exists>k p. k < 11 \<and> p \<in> set (fl k) \<and> x \<in> block k p)"
  by (auto simp: free_set_def)

lemma free_set_upd_remove:
  assumes s: "buddy_struct z fl" and k: "k < 11" and p: "p \<in> set (fl k)"
  shows "free_set (fl(k := remove1 p (fl k))) = free_set fl - block k p"
proof (rule set_eqI)
  fix x
  have d: "set (remove1 p (fl k)) = set (fl k) - {p}"
    using buddy_distinct [OF s k] by simp
  have u: "j = k \<and> q = p" if "j < 11" "q \<in> set (fl j)" "x \<in> block j q" "x \<in> block k p" for j q
    using buddy_structD(9) [OF s that(1) k that(2) p] that(3,4) by blast
  show "x \<in> free_set (fl(k := remove1 p (fl k))) \<longleftrightarrow> x \<in> free_set fl - block k p"
  proof
    assume "x \<in> free_set (fl(k := remove1 p (fl k)))"
    then obtain j q where jq: "j < 11" "q \<in> set ((fl(k := remove1 p (fl k))) j)" "x \<in> block j q"
      by (auto simp: mem_free_set)
    then have "q \<in> set (fl j)" "\<not> (j = k \<and> q = p)" by (auto simp: d split: if_splits)
    then show "x \<in> free_set fl - block k p" using jq u by (auto simp: mem_free_set)
  next
    assume x: "x \<in> free_set fl - block k p"
    then obtain j q where jq: "j < 11" "q \<in> set (fl j)" "x \<in> block j q"
      by (auto simp: mem_free_set)
    then have "q \<in> set ((fl(k := remove1 p (fl k))) j)" using x d by auto
    then show "x \<in> free_set (fl(k := remove1 p (fl k)))" 
      unfolding mem_free_set using jq by blast
  qed
qed

lemma free_set_upd_add:
  assumes "k < 11"
  shows "free_set (fl(k := fl k @ [p])) = free_set fl \<union> block k p"
proof (rule set_eqI)
  fix x
  have "x \<in> free_set (fl(k := fl k @ [p])) \<longleftrightarrow>
    (\<exists>j q. j < 11 \<and> (q \<in> set (fl j) \<or> j = k \<and> q = p) \<and> x \<in> block j q)"
    unfolding mem_free_set using assms by (intro arg_cong [where f = Ex] ext) auto
  then show "x \<in> free_set (fl(k := fl k @ [p])) \<longleftrightarrow> x \<in> free_set fl \<union> block k p"
    using assms by (auto simp: mem_free_set)
qed

definition flags_of :: "zone \<Rightarrow> size_t \<Rightarrow> nat \<Rightarrow> bool" where
  "flags_of z p k = page_is_buddy (pages z p) k"

definition same_frame :: "zone \<Rightarrow> zone \<Rightarrow> bool" where
  "same_frame z z' \<longleftrightarrow> mem_map z' = mem_map z \<and> pfn_base z' = pfn_base z \<and> nr_pages z' = nr_pages z \<and>
     nr_free_pages z' = nr_free_pages z \<and> arr_len z' = arr_len z"

lemma buddy_structI:
  assumes "mem_map z = pfn_base z" "1024 dvd arr_len z" "arr_len z < 2 ^ 64"
    and "kernel_list.family (nodes z) FreeHead {..<11} (lists_of fl)"
    and "\<And>k. k < 11 \<Longrightarrow> free_count z k = of_nat (length (fl k))"
    and "\<And>k p. k < 11 \<Longrightarrow> p \<in> set (fl k) \<Longrightarrow> page_is_buddy (pages z p) k"
    and "\<forall>j<11. \<forall>k<11. \<forall>p \<in> set (fl j). \<forall>q \<in> set (fl k). block j p \<inter> block k q \<noteq> {} \<longrightarrow> j = k \<and> p = q"
    and "\<And>k p. k < 11 \<Longrightarrow> p \<in> set (fl k) \<Longrightarrow> take_bit k p = 0"
    and "\<And>k p. k < 11 \<Longrightarrow> p \<in> set (fl k) \<Longrightarrow> unat p < arr_len z"
  shows "buddy_struct z fl"
  using assms unfolding buddy_struct_def by blast

lemma free_setI: "k < 11 \<Longrightarrow> p \<in> set (fl k) \<Longrightarrow> block k p \<subseteq> free_set fl"
  unfolding free_set_def by blast

lemma same_frame_refl: "same_frame z z"
  by (simp add: same_frame_def)

lemma same_frame_trans: "same_frame a b \<Longrightarrow> same_frame b c \<Longrightarrow> same_frame a c"
  by (simp add: same_frame_def)

lemma del_page_spec:
  assumes s: "buddy_struct z fl" and k: "k < 11" and p: "p \<in> set (fl k)"
  obtains z' where "del_page_from_free_list z p k = Some z'" "buddy_struct z' (fl(k := remove1 p (fl k)))"
    "flags_of z' = flags_of z" "same_frame z z'"
proof
  let ?fl = "fl(k := remove1 p (fl k))"
  let ?z = "z\<lparr>nodes := list_remove (PageNode p) (nodes z),
                   free_count := (free_count z)(k := free_count z k - 1),
                   pages := (pages z)(p := (pages z p)\<lparr>page_flag := page_flag (pages z p) AND PAGE_FLAG_BUDDY\<rparr>)\<rparr>"
  show "del_page_from_free_list z p k = Some ?z"
    using buddy_structD(7) [OF s k p] by (simp add: del_page_from_free_list_def page_ok_def)
  show fl: "flags_of ?z = flags_of z"
    by (auto simp: flags_of_def fun_eq_iff)
  show "same_frame z ?z" by (simp add: same_frame_def)
  have sub: "set (?fl j) \<subseteq> set (fl j)" for j by (auto dest: set_remove1_subset [THEN subsetD])
  have "kernel_list.family (nodes ?z) FreeHead {..<11} (lists_of ?fl)"
    using kernel_list.family_remove(1) [OF buddy_structD(4) [OF s], of k "PageNode p"] k p
    by (simp add: lists_of_upd map_remove1) (simp add: lists_of_def)
  moreover have "free_count ?z j = of_nat (length (?fl j))" if "j < 11" for j
  proof (cases "j = k")
    case True
    have "length (fl k) = Suc (length (remove1 p (fl k)))"
      using p by (simp add: length_remove1) (metis length_pos_if_in_set Suc_pred)
    then show ?thesis using True buddy_structD(5) [OF s k] by simp
  qed (use buddy_structD(5) [OF s that] in simp)
  moreover have "page_is_buddy (pages ?z q) j" if "j < 11" "q \<in> set (?fl j)" for j q
    using buddy_structD(8) [OF s that(1), of q] sub that(2) fl by (auto simp: flags_of_def fun_eq_iff)
  ultimately show "buddy_struct ?z ?fl"
    unfolding buddy_struct_def using buddy_structD [OF s] sub 
    by (intro conjI allI ballI impI) (auto, blast+)
qed

lemma add_page_spec:
  assumes s: "buddy_struct z fl" and k: "k < 11" and p: "take_bit k p = 0" "unat p < arr_len z"
    and d: "block k p \<inter> free_set fl = {}"
  obtains z' where
    "(set_buddy_order z p k \<bind> (\<lambda>z1. add_page_to_free_list z1 p k)) = Some z'"
    "(add_page_to_free_list z p k \<bind> (\<lambda>z1. set_buddy_order z1 p k)) = Some z'"
    "buddy_struct z' (fl(k := fl k @ [p]))"
    "flags_of z' = (\<lambda>q. if q = p then (\<lambda>j. if j < 11 then j = k else flags_of z' p j) else flags_of z q)" "same_frame z z'"
proof
  let ?fl = "fl(k := fl k @ [p])"
  let ?z = "z\<lparr>nodes := list_add_last (PageNode p) (FreeHead k) (list_init (PageNode p) (nodes z)),
                   free_count := (free_count z)(k := free_count z k + 1),
                   pages := (pages z)(p := (pages z p)\<lparr>page_order := of_nat k,
                     page_flag := page_flag (pages z p) OR PAGE_FLAG_BUDDY\<rparr>)\<rparr>"
  show "(set_buddy_order z p k \<bind> (\<lambda>z1. add_page_to_free_list z1 p k)) = Some ?z"
    "(add_page_to_free_list z p k \<bind> (\<lambda>z1. set_buddy_order z1 p k)) = Some ?z"
    using p by (simp_all add: set_buddy_order_def add_page_to_free_list_def page_ok_def)
  show fl: "flags_of ?z = (\<lambda>q. if q = p then (\<lambda>j. if j < 11 then j = k else flags_of ?z p j) else flags_of z q)"
    using k by (auto simp: flags_of_def fun_eq_iff page_is_buddy_set)
  show "same_frame z ?z" by (simp add: same_frame_def)
  have pn: "p \<notin> set (fl j)" if "j < 11" for j
    using d that block_self [of p j] block_self [of p k] by (auto simp: free_set_def)
  have pn': "\<forall>j \<in> {..<11}. PageNode p \<notin> set (FreeHead j # lists_of fl j)"
    using pn by (auto simp: lists_of_def)
  have "kernel_list.family (list_init (PageNode p) (nodes z)) FreeHead {..<11} (lists_of fl)"
    using buddy_structD(4) [OF s] pn' unfolding kernel_list.family_def
    by (auto intro!: kernel_list.frame_init)
  then have "kernel_list.family (nodes ?z) FreeHead {..<11} (lists_of ?fl)"
    using kernel_list.family_add_last [OF _ _ pn', of _ k] k by (simp add: lists_of_upd lists_of_def [of fl k])
  moreover have "free_count ?z j = of_nat (length (?fl j))" if "j < 11" for j
    using buddy_structD(5) [OF s that] by auto
  moreover have "page_is_buddy (pages ?z q) j" if "j < 11" "q \<in> set (?fl j)" for j q
    using buddy_structD(8) [OF s that(1), of q] that pn k by (auto simp: page_is_buddy_set split: if_splits)
  moreover have "\<forall>j<11. \<forall>m<11. \<forall>a \<in> set (?fl j). \<forall>b \<in> set (?fl m). block j a \<inter> block m b \<noteq> {} \<longrightarrow> j = m \<and> a = b"
  proof (intro allI impI ballI)
    fix j m a b assume jm: "j < (11::nat)" "m < (11::nat)" "a \<in> set (?fl j)" "b \<in> set (?fl m)" "block j a \<inter> block m b \<noteq> {}"
    have dis: "block i q \<inter> block k p = {}" if "i < 11" "q \<in> set (fl i)" for i q
      using d subset_trans [OF Int_mono [OF free_setI [where fl = fl, OF that] subset_refl, of "block k p"], of "{}"] by (simp add: Int_commute)
    consider "a \<in> set (fl j)" "b \<in> set (fl m)" | "j = k" "a = p" "b \<in> set (fl m)" | "m = k" "b = p" "a \<in> set (fl j)" | "j = k" "a = p" "m = k" "b = p"
      using jm(3,4) by (auto split: if_splits)
    then show "j = m \<and> a = b"
    proof cases
      case 1 then show ?thesis using buddy_structD(9) [OF s jm(1,2)] jm(5) by blast
    next
      case 2 then show ?thesis using dis [OF jm(2) 2(3)] jm(5) by (simp add: Int_commute)
    next
      case 3 then show ?thesis using dis [OF jm(1) 3(3)] jm(5) by simp
    qed auto
  qed
  moreover have "take_bit j q = 0" "unat q < arr_len ?z" if "j < 11" "q \<in> set (?fl j)" for j q
    using buddy_structD(6,7) [OF s that(1), of q] that(2) p by (auto split: if_splits)
  ultimately show "buddy_struct ?z ?fl"
    using buddy_structD(1-3) [OF s] by (intro buddy_structI) (simp_all del: fun_upd_apply)
qed


section \<open>Freeing\<close>

definition no_buddies :: "(nat \<Rightarrow> size_t list) \<Rightarrow> bool" where
  "no_buddies fl \<longleftrightarrow> (\<forall>k<10. \<forall>p \<in> set (fl k). find_buddy_pfn p k \<notin> set (fl k))"

text \<open>
  A page that is marked as the head of a free block of order \<open>k\<close> and is not one is harmless while
  the block of order \<open>k + 1\<close> around it is free: its mark is read only when its buddy is freed.
  \<open>C\<close> is the block of order \<open>c\<close> that is being freed.
\<close>

definition marks_ok :: "zone \<Rightarrow> (nat \<Rightarrow> size_t list) \<Rightarrow> size_t set \<Rightarrow> nat \<Rightarrow> bool" where
  "marks_ok z fl C c \<longleftrightarrow> (\<forall>k<10. \<forall>p. take_bit k p = 0 \<longrightarrow> flags_of z p k \<longrightarrow>
     p \<in> set (fl k) \<or> block (Suc k) p \<subseteq> free_set fl \<union> (if k < c then C else {}))"

definition buddy_inv :: "zone \<Rightarrow> (nat \<Rightarrow> size_t list) \<Rightarrow> bool" where
  "buddy_inv z fl \<longleftrightarrow> buddy_struct z fl \<and> no_buddies fl \<and> marks_ok z fl {} 0"

lemma no_buddies_remove: "no_buddies fl \<Longrightarrow> no_buddies (fl(k := remove1 p (fl k)))"
  by (auto simp: no_buddies_def dest!: set_remove1_subset [THEN subsetD])

lemma merge_loop_spec:
  assumes "buddy_struct z fl" "no_buddies fl" "marks_ok z fl (block c p) c" "c < 11" "take_bit c p = 0"
    "unat p < arr_len z" "block c p \<inter> free_set fl = {}"
  shows "\<exists>z' p' c' fl'. merge_loop z p c = Some (z', p', c') \<and> buddy_struct z' fl' \<and> no_buddies fl' \<and>
    marks_ok z' fl' (block c' p') c' \<and> c' < 11 \<and> take_bit c' p' = 0 \<and> unat p' < arr_len z' \<and>
    block c' p' \<inter> free_set fl' = {} \<and> block c' p' \<union> free_set fl' = block c p \<union> free_set fl \<and>
    same_frame z z' \<and> (c' < 10 \<longrightarrow> find_buddy_pfn p' c' \<notin> set (fl' c'))"
  using assms
proof (induction z p c arbitrary: fl rule: merge_loop.induct)
  case (1 z p c)
  note s = "1.prems"(1) and nb = "1.prems"(2) and m = "1.prems"(3) and c = "1.prems"(4) and al = "1.prems"(5)
    and arr = "1.prems"(6) and dis = "1.prems"(7)
  let ?b = "find_buddy_pfn p c"
  show ?case
  proof (cases "c < 10")
    case False
    then show ?thesis
      using "1.prems" by (subst merge_loop.simps) (auto simp: MAX_ORDER_def same_frame_refl intro!: exI [of _ fl])
  next
    case True
    have ok: "page_ok z ?b"
      by (rule block_in_array [OF s _ _ arr, of _ "Suc c"]) (use True block_Suc [of c p] block_self in auto)
    have balign: "take_bit c ?b = 0" using True al by (simp add: aligned_find_buddy)
    have bmem: "flags_of z ?b c \<Longrightarrow> ?b \<in> set (fl c)"
    proof (rule ccontr)
      assume "flags_of z ?b c" "?b \<notin> set (fl c)"
      then have "block (Suc c) ?b \<subseteq> free_set fl"
        using m True balign unfolding marks_ok_def by fastforce
      moreover have "p \<in> block (Suc c) ?b"
        using block_Suc [of c ?b] True by (simp add: find_buddy_sym block_self)
      ultimately show False using dis block_self [of p c] by blast
    qed
    show ?thesis
    proof (cases "flags_of z ?b c")
      case False
      then have nf: "?b \<notin> set (fl c)" using buddy_structD(8) [OF s c] by (auto simp: flags_of_def)
      have "merge_loop z p c = Some (z, p, c)"
        using True False ok by (subst merge_loop.simps) (simp add: MAX_ORDER_def Let_def pfn_to_page_id [OF s] flags_of_def)
      then show ?thesis using "1.prems" nf by (auto simp: same_frame_refl intro!: exI [of _ fl])
    next
      case fl: True
      let ?fl = "fl(c := remove1 ?b (fl c))" and ?p = "?b AND p"
      have bm: "?b \<in> set (fl c)" by (rule bmem [OF fl])
      obtain z1 where z1: "del_page_from_free_list z ?b c = Some z1" "buddy_struct z1 ?fl"
        "flags_of z1 = flags_of z" "same_frame z z1"
        by (rule del_page_spec [OF s c bm])
      have fs: "free_set ?fl = free_set fl - block c ?b" by (rule free_set_upd_remove [OF s c bm])
      have bl: "block (Suc c) ?p = block c p \<union> block c ?b"
        using True block_Suc [of c p] by (simp add: combined_in_block)
      have bfree: "block c ?b \<subseteq> free_set fl" by (rule free_setI [where fl = fl, OF c bm])
      have m1: "marks_ok z1 ?fl (block (Suc c) ?p) (Suc c)"
        unfolding marks_ok_def
      proof (intro allI impI)
        fix k q assume k: "k < 10" and q: "take_bit k q = 0" "flags_of z1 q k"
        consider "q \<in> set (fl k)" | "block (Suc k) q \<subseteq> free_set fl \<union> (if k < c then block c p else {})"
          using m k q unfolding marks_ok_def z1(3) by blast
        then show "q \<in> set (?fl k) \<or> block (Suc k) q \<subseteq> free_set ?fl \<union> (if k < Suc c then block (Suc c) ?p else {})"
        proof cases
          case 1
          show ?thesis
          proof (cases "k = c \<and> q = ?b")
            case True
            then show ?thesis using block_Suc [of c ?b] \<open>c < 10\<close> bl by (auto simp: find_buddy_sym)
          next
            case False
            then have "q \<in> set (?fl k)" using 1 by auto
            then show ?thesis by blast
          qed
        next
          case 2
          show ?thesis
          proof (cases "k < Suc c")
            case True
            then have "block (Suc k) q \<subseteq> free_set fl \<union> block c p" using 2 by (auto split: if_splits)
            then show ?thesis using True by (auto simp: fs bl)
          next
            case False
            have "block (Suc k) q \<inter> block c ?b = {}"
            proof (rule ccontr)
              assume "block (Suc k) q \<inter> block c ?b \<noteq> {}"
              then obtain x where x: "x \<in> block (Suc k) q" "x \<in> block c ?b" by blast
              then have "block (Suc c) ?p \<subseteq> block (Suc k) q"
                using False bl by (intro block_nested [of _ _ x]) auto
              then have "block c p \<subseteq> free_set fl" using 2 False bl by auto
              then show False using dis block_self [of p c] by blast
            qed
            then show ?thesis using 2 False by (auto simp: fs)
          qed
        qed
      qed
      have pok: "page_ok z ?p"
        by (rule block_in_array [OF s _ _ arr, of _ "Suc c"])
          (use True combined_in_block [of c p] block_self [of ?p "Suc c"] in auto)
      have "\<exists>z' p' c' fl'. merge_loop z1 ?p (c + 1) = Some (z', p', c') \<and> buddy_struct z' fl' \<and> no_buddies fl' \<and>
        marks_ok z' fl' (block c' p') c' \<and> c' < 11 \<and> take_bit c' p' = 0 \<and> unat p' < arr_len z' \<and>
        block c' p' \<inter> free_set fl' = {} \<and> block c' p' \<union> free_set fl' = block (c + 1) ?p \<union> free_set ?fl \<and>
        same_frame z1 z' \<and> (c' < 10 \<longrightarrow> find_buddy_pfn p' c' \<notin> set (fl' c'))"
      proof (rule "1.IH" [OF _ refl refl])
        show "c < MAX_ORDER - 1" using True by (simp add: MAX_ORDER_def)
        show "\<not> \<not> page_ok z (pfn_to_page z ?b)" using ok by (simp add: pfn_to_page_id [OF s])
        show "\<not> \<not> page_is_buddy (pages z (pfn_to_page z ?b)) c"
          using fl by (simp add: pfn_to_page_id [OF s] flags_of_def)
        show "no_buddies ?fl" by (rule no_buddies_remove [OF nb])
        show "take_bit (c + 1) ?p = 0" using combined_aligned [of c p] True al by simp
        show "unat ?p < arr_len z1" using pok z1(4) by (simp add: page_ok_def same_frame_def)
        show "block (c + 1) ?p \<inter> free_set ?fl = {}" using dis by (auto simp: bl fs)
        show "buddy_struct z1 ?fl" by (rule z1(2))
        show "marks_ok z1 ?fl (block (c + 1) ?p) (c + 1)" using m1 by simp
        show "del_page_from_free_list z (pfn_to_page z ?b) c = Some z1"
          using z1(1) by (simp add: pfn_to_page_id [OF s])
        show "c + 1 < 11" using True by simp
      qed
      moreover have "merge_loop z p c = merge_loop z1 ?p (c + 1)"
        using True ok fl z1(1) by (subst merge_loop.simps)
          (simp add: MAX_ORDER_def Let_def pfn_to_page_id [OF s] flags_of_def)
      moreover have "block (c + 1) ?p \<union> free_set ?fl = block c p \<union> free_set fl"
        using bl fs bfree by auto
      ultimately show ?thesis using same_frame_trans [OF z1(4)] by metis
    qed
  qed
qed


lemma same_frameD:
  assumes "same_frame z z'"
  shows "mem_map z' = mem_map z" "pfn_base z' = pfn_base z" "nr_pages z' = nr_pages z"
    "nr_free_pages z' = nr_free_pages z" "arr_len z' = arr_len z"
  using assms by (auto simp: same_frame_def)

lemma buddy_free_block_ex:
  assumes i: "buddy_inv z fl" and c: "c < 11" "take_bit c p = 0" "unat p < arr_len z"
    and d: "block c p \<inter> free_set fl = {}"
  shows "\<exists>z' fl'. buddy_free_block z p c = Some z' \<and> buddy_inv z' fl' \<and>
    free_set fl' = free_set fl \<union> block c p \<and> same_frame z z'"
proof -
  have s: "buddy_struct z fl" and nb: "no_buddies fl" and m: "marks_ok z fl {} 0"
    using i by (auto simp: buddy_inv_def)
  have m': "marks_ok z fl (block c p) c"
    using m unfolding marks_ok_def by (auto split: if_splits)
  obtain z1 p1 c1 fl1 where r: "merge_loop z p c = Some (z1, p1, c1)" "buddy_struct z1 fl1" "no_buddies fl1"
    "marks_ok z1 fl1 (block c1 p1) c1" "c1 < 11" "take_bit c1 p1 = 0" "unat p1 < arr_len z1"
    "block c1 p1 \<inter> free_set fl1 = {}" "block c1 p1 \<union> free_set fl1 = block c p \<union> free_set fl" "same_frame z z1"
    "c1 < 10 \<longrightarrow> find_buddy_pfn p1 c1 \<notin> set (fl1 c1)"
    using merge_loop_spec [OF s nb m' c d] by (elim exE conjE) (rule that; assumption)
  let ?fl = "fl1(c1 := fl1 c1 @ [p1])"
  obtain z2 where z2: "(set_buddy_order z1 p1 c1 \<bind> (\<lambda>z1. add_page_to_free_list z1 p1 c1)) = Some z2"
    "buddy_struct z2 ?fl"
    "flags_of z2 = (\<lambda>q. if q = p1 then (\<lambda>j. if j < 11 then j = c1 else flags_of z2 p1 j) else flags_of z1 q)"
    "same_frame z1 z2"
    by (rule add_page_spec [OF r(2,5,6,7,8)])
  have fs: "free_set ?fl = free_set fl1 \<union> block c1 p1" by (rule free_set_upd_add [OF r(5)])
  have "pfn_to_page z2' p1 = p1" if "set_buddy_order z1 p1 c1 = Some z2'" for z2'
    using that buddy_structD(1) [OF r(2)]
    by (auto simp: set_buddy_order_def pfn_to_page_def split: if_splits)
  then have "buddy_free_block z p c = Some z2"
    using z2(1) unfolding buddy_free_block_def r(1)
    by (simp add: pfn_to_page_id [OF r(2)] split: bind_splits)
  moreover have "no_buddies ?fl"
    unfolding no_buddies_def
  proof (intro allI impI ballI)
    fix k q assume k: "k < (10::nat)" "q \<in> set (?fl k)"
    show "find_buddy_pfn q k \<notin> set (?fl k)"
    proof (cases "k = c1")
      case True
      have "find_buddy_pfn p1 c1 \<noteq> p1"
        using buddy_disjoint [of c1 p1] block_self [of p1 c1] r(5) by auto
      moreover have "find_buddy_pfn q c1 = p1 \<Longrightarrow> find_buddy_pfn p1 c1 = q"
        by (metis find_buddy_sym)
      ultimately show ?thesis using True k r(3,11) by (auto simp: no_buddies_def)
    qed (use r(3) k in \<open>auto simp: no_buddies_def\<close>)
  qed
  moreover have "marks_ok z2 ?fl {} 0"
    unfolding marks_ok_def
  proof (intro allI impI)
    fix k q assume k: "k < (10::nat)" "take_bit k q = 0" "flags_of z2 q k"
    show "q \<in> set (?fl k) \<or> block (Suc k) q \<subseteq> free_set ?fl \<union> (if k < 0 then {} else {})"
    proof (cases "q = p1")
      case True
      then have "k = c1" using k fun_cong [OF fun_cong [OF z2(3), of q], of k] by simp
      then show ?thesis using True by simp
    next
      case False
      then have "flags_of z1 q k" using k(3) fun_cong [OF z2(3), of q] by simp
      then have "q \<in> set (fl1 k) \<or> block (Suc k) q \<subseteq> free_set fl1 \<union> (if k < c1 then block c1 p1 else {})"
        using r(4) k unfolding marks_ok_def by blast
      then show ?thesis unfolding fs by (auto split: if_splits)
    qed
  qed
  ultimately show ?thesis
    using z2 r(9) same_frame_trans [OF r(10) z2(4)]
    by (intro exI [of _ z2] exI [of _ ?fl]) (auto simp: buddy_inv_def fs)
qed

definition pfn_range :: "size_t \<Rightarrow> size_t \<Rightarrow> size_t set" where
  "pfn_range pfn nr = {x. unat pfn \<le> unat x \<and> unat x < unat pfn + unat nr}"

lemma pick_order_total:
  assumes "nr \<noteq> 0" "0 < n"
  shows "\<exists>k. pick_order pfn nr n = Some k"
  using assms(2)
proof (induction n)
  case (Suc n)
  show ?case
  proof (cases "n = 0")
    case True
    then show ?thesis using assms(1) by (simp add: word_le_nat_alt Suc_le_eq unat_gt_0)
  qed (use Suc in auto)
qed simp

lemma aligned_mod: "k < 64 \<Longrightarrow> pfn mod 2 ^ k = 0 \<longleftrightarrow> take_bit k pfn = 0" for pfn :: size_t
  by (subst aligned_unat) (simp_all only: dvd_eq_mod_eq_0 word_unat_eq_iff unat_mod unat_pow2 unsigned_0)

lemma free_range_loop_ex:
  assumes "buddy_inv z fl" "unat pfn + unat nr \<le> arr_len z" "pfn_range pfn nr \<inter> free_set fl = {}"
  shows "\<exists>z' fl'. free_range_loop z pfn nr = Some z' \<and> buddy_inv z' fl' \<and>
    free_set fl' = free_set fl \<union> pfn_range pfn nr \<and> same_frame z z'"
  using assms
proof (induction z pfn nr arbitrary: fl rule: free_range_loop.induct)
  case (1 z pfn nr)
  show ?case
  proof (cases "nr = 0")
    case True
    then show ?thesis using 1 by (subst free_range_loop.simps) (auto simp: pfn_range_def same_frame_refl)
  next
    case False
    obtain k where k: "pick_order pfn nr MAX_ORDER = Some k"
      using pick_order_total [OF False, of MAX_ORDER pfn] by (auto simp: MAX_ORDER_def)
    from pick_order_Some [OF this] have k11: "k < 11" and al: "take_bit k pfn = 0" and le: "2 ^ k \<le> nr"
      using aligned_mod [of k pfn] by (auto simp: MAX_ORDER_def)
    have le': "2 ^ k \<le> unat nr" using le k11 by (simp add: word_le_nat_alt unat_pow2)
    have un: "unat (nr - 2 ^ k) = unat nr - 2 ^ k"
      using le k11 by (simp add: unat_sub unat_pow2)
    have "arr_len z < 2 ^ 64" using "1.prems"(1) by (simp add: buddy_inv_def buddy_struct_def)
    then have up: "unat (pfn + 2 ^ k) = unat pfn + 2 ^ k"
      using le' k11 "1.prems"(2) by (subst unat_add_lem [THEN iffD1]) (simp_all add: unat_pow2)
    have bl: "block k pfn = {x. unat pfn \<le> unat x \<and> unat x < unat pfn + 2 ^ k}"
      using block_interval [of k pfn] k11 al by auto
    have rng: "pfn_range pfn nr = block k pfn \<union> pfn_range (pfn + 2 ^ k) (nr - 2 ^ k)"
      using le' unfolding pfn_range_def up un bl by auto
    have disj: "block k pfn \<inter> pfn_range (pfn + 2 ^ k) (nr - 2 ^ k) = {}"
      unfolding pfn_range_def up un bl by auto
    have inarr: "unat pfn < arr_len z"
      using "1.prems"(2) False unat_gt_0 [of nr] by linarith
    have bfree: "block k pfn \<inter> free_set fl = {}" using "1.prems"(3) rng by blast
    obtain z1 fl1 where z1: "buddy_free_block z pfn k = Some z1" "buddy_inv z1 fl1"
      "free_set fl1 = free_set fl \<union> block k pfn" "same_frame z z1"
      using buddy_free_block_ex [OF "1.prems"(1) k11 al inarr bfree] by blast
    have "\<exists>z' fl'. free_range_loop z1 (pfn + push_bit k 1) (nr - push_bit k 1) = Some z' \<and> buddy_inv z' fl' \<and>
      free_set fl' = free_set fl1 \<union> pfn_range (pfn + push_bit k 1) (nr - push_bit k 1) \<and> same_frame z1 z'"
    proof (rule "1.IH" [OF False k z1(1) z1(2)])
      show "unat (pfn + push_bit k 1) + unat (nr - push_bit k 1) \<le> arr_len z1"
        using "1.prems"(2) le' z1(4) by (simp add: up un same_frame_def)
      show "pfn_range (pfn + push_bit k 1) (nr - push_bit k 1) \<inter> free_set fl1 = {}"
        using disj rng "1.prems"(3) by (auto simp: z1(3))
    qed
    moreover have "free_range_loop z pfn nr = free_range_loop z1 (pfn + push_bit k 1) (nr - push_bit k 1)"
      using False k z1(1) by (subst free_range_loop.simps) simp
    ultimately show ?thesis
      using z1(3) rng same_frame_trans [OF z1(4)] by (simp add: Un_assoc) metis
  qed
qed

lemma buddy_struct_more [simp]:
  "buddy_struct (z\<lparr>nr_free_pages := n\<rparr>) fl = buddy_struct z fl"
  by (simp add: buddy_struct_def)

lemma buddy_inv_more [simp]:
  "buddy_inv (z\<lparr>nr_free_pages := n\<rparr>) fl = buddy_inv z fl"
  by (simp add: buddy_inv_def marks_ok_def flags_of_def)

lemma buddy_page_free_ex:
  assumes "buddy_inv z fl" "unat pfn + unat nr \<le> arr_len z" "pfn_range pfn nr \<inter> free_set fl = {}"
  shows "\<exists>z' fl'. buddy_page_free z pfn nr = Some z' \<and> buddy_inv z' fl' \<and>
    free_set fl' = free_set fl \<union> pfn_range pfn nr \<and> nr_free_pages z' = nr_free_pages z + nr \<and> arr_len z' = arr_len z"
  using free_range_loop_ex [of "z\<lparr>nr_free_pages := nr_free_pages z + nr\<rparr>" fl pfn nr] assms
  by (auto simp: buddy_page_free_def same_frame_def)

section \<open>Initialisation\<close>

lemma list_init_upd: "list_init n h = h(n := \<lparr>node_prev = n, node_next = n\<rparr>)"
  by (auto simp: list_init_def list_upd fun_eq_iff)

lemma init_areas_eq:
  "init_areas ks z = z\<lparr>free_count := (\<lambda>k. if k \<in> set ks then 0 else free_count z k),
     nodes := (\<lambda>n. if n \<in> FreeHead ` set ks then \<lparr>node_prev = n, node_next = n\<rparr> else nodes z n)\<rparr>"
  by (induction ks arbitrary: z) (auto simp: list_init_upd fun_eq_iff intro!: zone.equality)

lemma buddy_init_zone_inv:
  assumes "1024 dvd arr_len z" "arr_len z < 2 ^ 64" "\<forall>p. page_flag (pages z p) AND PAGE_FLAG_BUDDY = 0"
  shows "buddy_inv (buddy_init_zone z start nr) (\<lambda>_. [])"
proof -
  have "buddy_struct (buddy_init_zone z start nr) (\<lambda>_. [])"
    using assms(1,2) by (intro buddy_structI)
     (auto simp: buddy_init_zone_def init_areas_eq MAX_ORDER_def kernel_list.family_def lists_of_def ring_def)
  moreover have "flags_of (buddy_init_zone z start nr) p k = False" for p k
    using assms(3) by (simp add: flags_of_def page_is_buddy_def buddy_init_zone_def init_areas_eq)
  ultimately show ?thesis by (simp add: buddy_inv_def no_buddies_def marks_ok_def)
qed


section \<open>Allocation\<close>

lemma half_offset: "c < 63 \<Longrightarrow> drop_bit 1 (push_bit (Suc c) 1 :: size_t) = push_bit c 1"
  by (rule bit_word_eqI) (auto simp: bit_simps)

lemma find_buddy_in_block: "c < 64 \<Longrightarrow> find_buddy_pfn p c \<in> block (Suc c) p"
  using block_Suc [of c p] block_self by simp

lemma expand_loop_ex:
  assumes "buddy_struct z fl" "c < 11" "t \<le> c" "take_bit c p = 0" "unat p < arr_len z" "block c p \<inter> free_set fl = {}"
  shows "\<exists>z' fl'. expand_loop z p (push_bit c 1) c t = Some z' \<and> buddy_struct z' fl' \<and>
    free_set fl' = free_set fl \<union> (block c p - block t p) \<and> same_frame z z'"
  using assms
proof (induction c arbitrary: z fl)
  case 0
  then show ?case by (auto simp: same_frame_refl)
next
  case (Suc c)
  note s = Suc.prems(1)
  show ?case
  proof (cases "t \<le> c")
    case False
    then have "t = Suc c" using Suc.prems(3) by simp
    then show ?thesis using s by (auto simp: same_frame_refl)
  next
    case True
    let ?q = "find_buddy_pfn p c"
    have c: "c < 11" "c < 63" using Suc.prems(2) by simp_all
    have e: "p + push_bit c 1 = ?q" using aligned_plus [OF c(2) Suc.prems(4)] by simp
    have al: "take_bit c p = 0" using Suc.prems(4) by (auto simp: aligned_bits)
    have bl: "block (Suc c) p = block c p \<union> block c ?q" "block c p \<inter> block c ?q = {}"
      using c block_Suc [of c p] buddy_disjoint [of c p] by simp_all
    have "unat ?q < arr_len z"
      using block_in_array [OF s find_buddy_in_block [of c p] Suc.prems(2,5)] c by (simp add: page_ok_def)
    moreover have "take_bit c ?q = 0" using aligned_find_buddy [of c p] al c by simp
    moreover have "block c ?q \<inter> free_set fl = {}" using Suc.prems(6) bl by auto
    ultimately obtain z1 where z1: "(add_page_to_free_list z ?q c \<bind> (\<lambda>z1. set_buddy_order z1 ?q c)) = Some z1"
      "buddy_struct z1 (fl(c := fl c @ [?q]))" "same_frame z z1"
      using add_page_spec [OF s c(1)] by blast
    have fs: "free_set (fl(c := fl c @ [?q])) = free_set fl \<union> block c ?q"
      by (rule free_set_upd_add [OF c(1)])
    have "\<exists>z' fl'. expand_loop z1 p (push_bit c 1) c t = Some z' \<and> buddy_struct z' fl' \<and>
      free_set fl' = free_set (fl(c := fl c @ [?q])) \<union> (block c p - block t p) \<and> same_frame z1 z'"
      by (rule Suc.IH [OF z1(2) c(1) True al])
        (use Suc.prems(5,6) bl fs z1(3) in \<open>simp_all only: same_frame_def, blast\<close>)
    moreover have "expand_loop z p (push_bit (Suc c) 1) (Suc c) t = expand_loop z1 p (push_bit c 1) c t"
    proof -
      have "expand_loop z p (push_bit (Suc c) 1) (Suc c) t =
        (add_page_to_free_list z ?q c \<bind> (\<lambda>z1. set_buddy_order z1 ?q c)) \<bind> (\<lambda>z2. expand_loop z2 p (push_bit c 1) c t)"
        using True by (simp only: expand_loop.simps half_offset [OF c(2)] e bind_assoc) simp
      then show ?thesis by (simp add: z1(1))
    qed
    moreover have "free_set (fl(c := fl c @ [?q])) \<union> (block c p - block t p) =
        free_set fl \<union> (block (Suc c) p - block t p)"
      using fs bl block_mono [OF True, of p] by auto
    ultimately show ?thesis using same_frame_trans [OF z1(3)] by metis
  qed
qed

lemma alloc_order_0 [simp]: "alloc_order sz k = k"
  by (subst alloc_order.simps) simp

definition alloc_result :: "zone \<Rightarrow> (nat \<Rightarrow> size_t list) \<Rightarrow> size_t \<Rightarrow> nat \<Rightarrow> nat list \<Rightarrow> zone \<Rightarrow> size_t \<Rightarrow> bool" where
  "alloc_result z fl nr t ks z' r \<longleftrightarrow>
     (if \<forall>k \<in> set ks. fl k = [] then z' = z \<and> r = PFN_NOTFOUND
      else unat r < arr_len z \<and> take_bit t r = 0 \<and> block t r \<subseteq> free_set fl \<and>
        nr_free_pages z' = nr_free_pages z - nr \<and> arr_len z' = arr_len z \<and>
        (\<exists>fl'. buddy_struct z' fl' \<and> free_set fl' = free_set fl - block t r))"

lemma alloc_search_ex:
  assumes s: "buddy_struct z fl" and ks: "\<forall>k \<in> set ks. t \<le> k \<and> k < 11"
  shows "\<exists>z' r. alloc_search z nr t ks = Some (z', r) \<and> alloc_result z fl nr t ks z' r"
  using ks
proof (induction ks)
  case Nil
  then show ?case by (simp add: alloc_result_def)
next
  case (Cons k ks)
  have k: "t \<le> k" "k < 11" using Cons.prems by auto
  show ?case
  proof (cases "fl k = []")
    case True
    then show ?thesis using Cons buddy_count_0 [OF s k(2)] by (simp add: alloc_result_def)
  next
    case False
    let ?p = "hd (fl k)"
    have p: "?p \<in> set (fl k)" using False by simp
    have fr: "front_page z k = Some ?p"
      using kernel_list.family_front [OF buddy_structD(4) [OF s], of k] k False
      by (simp add: front_page_def lists_of_def hd_map)
    obtain z1 where z1: "del_page_from_free_list z ?p k = Some z1" "buddy_struct z1 (fl(k := remove1 ?p (fl k)))" "same_frame z z1"
      using del_page_spec [OF s k(2) p] by blast
    have fs: "free_set (fl(k := remove1 ?p (fl k))) = free_set fl - block k ?p"
      by (rule free_set_upd_remove [OF s k(2) p])
    have "\<exists>z' fl'. expand_loop z1 ?p (push_bit k 1) k t = Some z' \<and> buddy_struct z' fl' \<and>
      free_set fl' = free_set (fl(k := remove1 ?p (fl k))) \<union> (block k ?p - block t ?p) \<and> same_frame z1 z'"
      by (rule expand_loop_ex [OF z1(2) k(2,1)])
        (use buddy_structD(6,7) [OF s k(2) p] z1(3) fs in \<open>auto simp: same_frame_def\<close>)
    then obtain z2 fl2 where z2: "expand_loop z1 ?p (push_bit k 1) k t = Some z2" "buddy_struct z2 fl2"
      "free_set fl2 = free_set (fl(k := remove1 ?p (fl k))) \<union> (block k ?p - block t ?p)" "same_frame z1 z2"
      by (elim exE conjE) (rule that; assumption)
    have "expand_loop z1 ?p (push_bit k 1) k k = Some z1" by (cases k) auto
    then have z2': "(if k \<noteq> t then expand_buddy z1 ?p k t else Some z1) = Some z2"
      using z2(1) by (auto simp: expand_buddy_def)
    have bf: "block k ?p \<subseteq> free_set fl" by (rule free_setI [where fl = fl, OF k(2) p])
    have bt: "block t ?p \<subseteq> block k ?p" by (rule block_mono [OF k(1)])
    have "alloc_search z nr t (k # ks) = Some (z2\<lparr>nr_free_pages := nr_free_pages z2 - nr\<rparr>, ?p)"
      using False buddy_count_0 [OF s k(2)] z2' by (simp add: fr z1(1) page_to_pfn_id [OF z2(2)])
    moreover have "alloc_result z fl nr t (k # ks) (z2\<lparr>nr_free_pages := nr_free_pages z2 - nr\<rparr>) ?p"
      unfolding alloc_result_def
      using False buddy_structD(6,7) [OF s k(2) p] z2 z1(3) k bf bt fs
      by (auto simp: same_frame_def aligned_bits intro!: exI [of _ fl2])
    ultimately show ?thesis by blast
  qed
qed

lemma buddy_page_alloc_ex:
  assumes "buddy_struct z fl"
  shows "\<exists>z' r. buddy_page_alloc z nr = Some (z', r) \<and>
    (if free_set fl = {} then z' = z \<and> r = PFN_NOTFOUND
     else r \<in> free_set fl \<and> arr_len z' = arr_len z \<and> (\<exists>fl'. buddy_struct z' fl' \<and> free_set fl' = free_set fl - {r}))"
proof -
  have "\<forall>k \<in> set [0..<MAX_ORDER]. 0 \<le> k \<and> k < 11" by (simp add: MAX_ORDER_def)
  from alloc_search_ex [OF assms this, of nr]
  obtain z' r where r: "alloc_search z nr 0 [0..<MAX_ORDER] = Some (z', r)" "alloc_result z fl nr 0 [0..<MAX_ORDER] z' r"
    by blast
  have "(\<forall>k \<in> set [0..<MAX_ORDER]. fl k = []) \<longleftrightarrow> free_set fl = {}"
  proof
    assume e: "free_set fl = {}"
    show "\<forall>k \<in> set [0..<MAX_ORDER]. fl k = []"
    proof (intro ballI, rule ccontr)
      fix k assume "k \<in> set [0..<MAX_ORDER]" "fl k \<noteq> []"
      then show False
        using free_setI [of k "hd (fl k)" fl] block_self [of "hd (fl k)" k] e by (simp add: MAX_ORDER_def)
    qed
  qed (auto simp: free_set_def MAX_ORDER_def)
  then show ?thesis
    using r by (auto simp: buddy_page_alloc_def alloc_result_def block_0 split: if_splits)
qed

section \<open>Zones for the witnesses\<close>

definition empty_zone :: zone where
  "empty_zone = buddy_init_zone (blank_zone 1024) 0 1024"

definition one_page_zone :: zone where
  "one_page_zone = the (set_buddy_order empty_zone 0 0 \<bind> (\<lambda>z. add_page_to_free_list z 0 0))"

lemma empty_zone_struct: "buddy_struct empty_zone (\<lambda>_. [])"
  using buddy_init_zone_inv [of "blank_zone 1024" 0 1024]
  by (simp add: empty_zone_def buddy_inv_def blank_zone_def)

lemma one_page_zone_struct: "buddy_struct one_page_zone ((\<lambda>_. [])(0 := [0]))"
proof -
  obtain z' where "(set_buddy_order empty_zone 0 0 \<bind> (\<lambda>z. add_page_to_free_list z 0 0)) = Some z'"
    "buddy_struct z' ((\<lambda>_. [])(0 := [] @ [0]))"
    by (rule add_page_spec [OF empty_zone_struct, of 0 0])
      (simp_all add: free_set_def empty_zone_def buddy_init_zone_def init_areas_eq blank_zone_def)
  then show ?thesis by (simp add: one_page_zone_def)
qed

lemma free_set_one: "free_set ((\<lambda>_. [])(0 := [0])) \<noteq> {}"
proof -
  have "0 \<in> free_set ((\<lambda>_. [])(0 := [0]))"
    unfolding mem_free_set by (intro exI [of _ 0]) (simp add: block_0)
  then show ?thesis by blast
qed

section \<open>Properties\<close>

text \<open>C1: Freeing any range of pages that lies in the page array and holds no free page succeeds, adds
  exactly these pages to the free set, adds their number to \<open>nr_free_pages\<close>, and keeps the invariant:
  aligned, disjoint, marked blocks on well-formed free lists whose counters are exact, and no two
  free buddies left unmerged.\<close>

theorem buddy_page_free_correct:
  assumes "buddy_inv z fl" "unat pfn + unat nr \<le> arr_len z" "pfn_range pfn nr \<inter> free_set fl = {}"
  shows "\<exists>z' fl'. buddy_page_free z pfn nr = Some z' \<and> buddy_inv z' fl' \<and>
    free_set fl' = free_set fl \<union> pfn_range pfn nr \<and> nr_free_pages z' = nr_free_pages z + nr"
  using buddy_page_free_ex [OF assms] by blast

theorem buddy_page_free_correct_witness:
  "\<exists>z' fl'. buddy_page_free (buddy_init_zone (blank_zone 1024) 0 1024) 5 100 = Some z' \<and> buddy_inv z' fl' \<and>
    free_set fl' = free_set (\<lambda>_. []) \<union> pfn_range 5 100 \<and>
    nr_free_pages z' = nr_free_pages (buddy_init_zone (blank_zone 1024) 0 1024) + 100"
  by (rule buddy_page_free_correct)
    (simp_all add: buddy_init_zone_inv blank_zone_def free_set_def, simp add: buddy_init_zone_def init_areas_eq)

text \<open>C2: One block of order \<open>t\<close> is handed out whenever some list of order at least \<open>t\<close> is not empty:
  an aligned block of free pages, whose surplus halves \<open>expand_buddy\<close> puts back, so that exactly
  the block leaves the free set; otherwise \<open>PFN_NOTFOUND\<close>, with the zone unchanged.\<close>

theorem buddy_alloc_order_correct:
  assumes "buddy_struct z fl" "t < MAX_ORDER"
  shows "\<exists>z' r. alloc_search z nr t [t..<MAX_ORDER] = Some (z', r) \<and>
    (if \<forall>k \<in> {t..<MAX_ORDER}. fl k = [] then z' = z \<and> r = PFN_NOTFOUND
     else take_bit t r = 0 \<and> block t r \<subseteq> free_set fl \<and> nr_free_pages z' = nr_free_pages z - nr \<and>
       (\<exists>fl'. buddy_struct z' fl' \<and> free_set fl' = free_set fl - block t r))"
proof -
  have "\<forall>k \<in> set [t..<MAX_ORDER]. t \<le> k \<and> k < 11" by (simp add: MAX_ORDER_def)
  from alloc_search_ex [OF assms(1) this, of nr] show ?thesis
    unfolding alloc_result_def by (auto split: if_splits)
qed

theorem buddy_alloc_order_correct_witness:
  "\<exists>z' r. alloc_search empty_zone 4 2 [2..<MAX_ORDER] = Some (z', r) \<and>
    (if \<forall>k \<in> {2..<MAX_ORDER}. [] = ([] :: size_t list) then z' = empty_zone \<and> r = PFN_NOTFOUND
     else take_bit 2 r = 0 \<and> block 2 r \<subseteq> free_set (\<lambda>_. []) \<and> nr_free_pages z' = nr_free_pages empty_zone - 4 \<and>
       (\<exists>fl'. buddy_struct z' fl' \<and> free_set fl' = free_set (\<lambda>_. []) - block 2 r))"
  by (rule buddy_alloc_order_correct [OF empty_zone_struct]) (simp add: MAX_ORDER_def)

text \<open>Asked for any number of pages, \<open>buddy_page_alloc\<close> hands out one free page, which leaves the
  free set alone; it fails, with the zone unchanged, only when no page is free.\<close>

theorem buddy_page_alloc_one:
  assumes "buddy_struct z fl"
  shows "\<exists>z' r. buddy_page_alloc z nr = Some (z', r) \<and>
    (if free_set fl = {} then z' = z \<and> r = PFN_NOTFOUND
     else r \<in> free_set fl \<and> (\<exists>fl'. buddy_struct z' fl' \<and> free_set fl' = free_set fl - {r}))"
  using buddy_page_alloc_ex [OF assms, of nr] by (auto split: if_splits)

theorem buddy_page_alloc_one_witness:
  "\<exists>z' r. buddy_page_alloc empty_zone 8 = Some (z', r) \<and>
    (if free_set (\<lambda>_. []) = {} then z' = empty_zone \<and> r = PFN_NOTFOUND
     else r \<in> free_set (\<lambda>_. []) \<and> (\<exists>fl'. buddy_struct z' fl' \<and> free_set fl' = free_set (\<lambda>_. []) - {r}))"
  by (rule buddy_page_alloc_one [OF empty_zone_struct])

definition drop_counter :: "(zone \<times> size_t) option \<Rightarrow> (zone \<times> size_t) option" where
  "drop_counter = map_option (\<lambda>(z, r). (z\<lparr>nr_free_pages := 0\<rparr>, r))"

lemma alloc_search_nr: "drop_counter (alloc_search z nr t ks) = drop_counter (alloc_search z nr' t ks)"
  by (induction ks) (auto simp: drop_counter_def split: bind_splits)

text \<open>The number of pages asked for only reaches the counter: the order loop tests
  \<open>sz & (1 == 0)\<close>, so a request for \<open>nr\<close> pages takes the same single page, and leaves the same
  zone but for \<open>nr_free_pages\<close>, as a request for one.\<close>

theorem buddy_alloc_ignores_size: "drop_counter (buddy_page_alloc z nr) = drop_counter (buddy_page_alloc z 1)"
  by (simp add: buddy_page_alloc_def alloc_search_nr [of z nr 0 _ 1])

lemma expand_loop_target:
  "expand_loop z p (push_bit c 1) c t = Some z' \<Longrightarrow> c < 63 \<Longrightarrow>
   pages z' p = pages z p \<and> mem_map z' = mem_map z \<and> pfn_base z' = pfn_base z"
proof (induction c arbitrary: z)
  case (Suc c)
  have h: "drop_bit 1 (push_bit (Suc c) 1 :: size_t) = push_bit c 1"
    using Suc.prems(2) by (intro half_offset) simp
  have "bit (push_bit c 1 :: size_t) c" using Suc.prems(2) by (simp add: bit_simps)
  then have n: "(push_bit c 1 :: size_t) \<noteq> 0" by (metis bit_0_eq bot_apply bot_bool_def)
  show ?case
  proof (cases "Suc c > t")
    case True
    then obtain z1 z2 where z: "add_page_to_free_list z (p + push_bit c 1) c = Some z1"
      "set_buddy_order z1 (p + push_bit c 1) c = Some z2" "expand_loop z2 p (push_bit c 1) c t = Some z'"
      using Suc.prems(1) by (simp only: expand_loop.simps h if_True) (auto split: bind_splits)
    have "pages z2 p = pages z p \<and> mem_map z2 = mem_map z \<and> pfn_base z2 = pfn_base z"
      using z(1,2) n by (auto simp: set_buddy_order_def add_page_to_free_list_def split: if_splits)
    then show ?thesis using Suc.IH [OF z(3)] Suc.prems(2) by simp
  qed (use Suc.prems in simp)
qed simp

lemma merge_step:
  assumes "mem_map z = pfn_base z" "c < MAX_ORDER - 1" "page_ok z (find_buddy_pfn p c)"
    and "page_is_buddy (pages z (find_buddy_pfn p c)) c" "del_page_from_free_list z (find_buddy_pfn p c) c = Some z1"
  shows "merge_loop z p c = merge_loop z1 (find_buddy_pfn p c AND p) (c + 1)"
  using assms by (subst merge_loop.simps) (simp add: Let_def pfn_to_page_def)

lemma merge_stop:
  assumes "mem_map z = pfn_base z" "c < MAX_ORDER - 1" "page_ok z (find_buddy_pfn p c)"
    and "\<not> page_is_buddy (pages z (find_buddy_pfn p c)) c"
  shows "merge_loop z p c = Some (z, p, c)"
  using assms by (subst merge_loop.simps) (simp add: Let_def pfn_to_page_def)

lemma pick_order_1: "pick_order p 1 MAX_ORDER = Some 0"
proof -
  have "\<not> push_bit k 1 \<le> (1 :: size_t)" if "0 < k" "k < 11" for k
    using that one_less_power [of "2 :: nat" k] by (simp add: word_le_nat_alt unat_pow2)
  note n = this
  have "pick_order p 1 (Suc n) = Some 0" if "n < 11" for n
    using that
  proof (induction n)
    case (Suc n)
    then show ?case using n [of "Suc n"] by simp
  qed simp
  from this [of 10] show ?thesis by (simp add: MAX_ORDER_def)
qed

lemma alloc_search_mark:
  assumes s: "buddy_struct z fl" and "\<forall>k \<in> set ks. k < 11" "\<exists>k \<in> set ks. fl k \<noteq> []"
  shows "alloc_search z nr t ks = Some (z', r) \<Longrightarrow> \<exists>k \<in> set ks. page_is_buddy (pages z' r) k"
  using assms(2,3)
proof (induction ks)
  case (Cons k ks)
  have k: "k < 11" using Cons.prems by simp
  show ?case
  proof (cases "fl k = []")
    case True
    then have "\<exists>j \<in> set ks. page_is_buddy (pages z' r) j"
      using Cons buddy_count_0 [OF s k] by simp
    then show ?thesis by auto
  next
    case False
    let ?p = "hd (fl k)"
    have p: "?p \<in> set (fl k)" using False by simp
    have fr: "front_page z k = Some ?p"
      using kernel_list.family_front [OF buddy_structD(4) [OF s], of k] k False
      by (simp add: front_page_def lists_of_def hd_map)
    obtain z1 where z1: "del_page_from_free_list z ?p k = Some z1" "buddy_struct z1 (fl(k := remove1 ?p (fl k)))"
      "flags_of z1 = flags_of z" "same_frame z z1"
      by (rule del_page_spec [OF s k p])
    obtain z2 where z2: "(if k \<noteq> t then expand_buddy z1 ?p k t else Some z1) = Some z2"
      and r: "z' = z2\<lparr>nr_free_pages := nr_free_pages z2 - nr\<rparr>" "r = page_to_pfn z2 ?p"
      using Cons.prems(1) False buddy_count_0 [OF s k] by (auto simp: fr z1(1) split: bind_splits)
    have m: "pages z2 ?p = pages z1 ?p" "mem_map z2 = pfn_base z2"
      using buddy_structD(1) [OF z1(2)] z2 k expand_loop_target [of z1 ?p k t z2] by (auto simp: expand_buddy_def split: if_splits)
    have "page_is_buddy (pages z2 ?p) k"
      using fun_cong [OF fun_cong [OF z1(3)], of ?p k] buddy_structD(8) [OF s k p] m by (simp add: flags_of_def)
    then show ?thesis using r m by (simp add: page_to_pfn_def)
  qed
qed simp

text \<open>A page that \<open>buddy_page_alloc\<close> hands out is still marked as the head of a free block:
  \<open>del_page_from_free_list\<close> computes \<open>flag &= PAGE_FLAG_BUDDY\<close>, which keeps the mark it should clear.\<close>

theorem buddy_alloc_keeps_mark:
  assumes "buddy_struct z fl" "free_set fl \<noteq> {}"
  shows "\<exists>z' r k. buddy_page_alloc z nr = Some (z', r) \<and> k < MAX_ORDER \<and> page_is_buddy (pages z' r) k"
proof -
  have ks: "\<forall>k \<in> set [0..<MAX_ORDER]. 0 \<le> k \<and> k < 11" by (simp add: MAX_ORDER_def)
  have ne: "\<exists>k \<in> set [0..<MAX_ORDER]. fl k \<noteq> []"
    using assms(2) by (auto simp: free_set_def MAX_ORDER_def)
  obtain z' r where r: "alloc_search z nr 0 [0..<MAX_ORDER] = Some (z', r)"
    using alloc_search_ex [OF assms(1) ks, of nr] by blast
  then show ?thesis
    using alloc_search_mark [OF assms(1) _ ne r] ks by (auto simp: buddy_page_alloc_def)
qed

theorem buddy_alloc_keeps_mark_witness:
  "\<exists>z' r k. buddy_page_alloc one_page_zone 1 = Some (z', r) \<and> k < MAX_ORDER \<and> page_is_buddy (pages z' r) k"
  using buddy_alloc_keeps_mark [OF one_page_zone_struct] by (simp add: free_set_one)

text \<open>C3: When the buddy of a page is allocated and keeps the mark of order 0, freeing the page merges the
  two: the counter of order 0 falls below zero, and the next allocation follows the front of
  the empty list of order 0, a null pointer.\<close>

theorem buddy_free_takes_allocated_buddy:
  assumes s: "buddy_struct z fl" and p: "unat p < arr_len z" "p \<notin> free_set fl"
    and q: "find_buddy_pfn p 0 \<notin> free_set fl" "page_is_buddy (pages z (find_buddy_pfn p 0)) 0"
       "ring (nodes z) (PageNode (find_buddy_pfn p 0)) []"
    and e: "fl 0 = []" and st: "\<not> page_is_buddy (pages z (find_buddy_pfn (find_buddy_pfn p 0 AND p) 1)) 1"
  shows "\<exists>z'. buddy_page_free z p 1 = Some z' \<and> free_count z' 0 = -1 \<and> buddy_page_alloc z' nr = None"
proof -
  let ?q = "find_buddy_pfn p 0" and ?m = "find_buddy_pfn p 0 AND p"
  define z0 where "z0 = z\<lparr>nr_free_pages := nr_free_pages z + 1\<rparr>"
  define z1 where "z1 = z0\<lparr>free_count := (free_count z)(0 := -1),
    pages := (pages z)(?q := (pages z ?q)\<lparr>page_flag := page_flag (pages z ?q) AND PAGE_FLAG_BUDDY\<rparr>)\<rparr>"
  define z2 where "z2 = z1\<lparr>nodes := list_add_last (PageNode ?m) (FreeHead 1) (list_init (PageNode ?m) (nodes z)),
    free_count := (free_count z1)(1 := free_count z1 1 + 1),
    pages := (pages z1)(?m := (pages z1 ?m)\<lparr>page_order := 1, page_flag := page_flag (pages z1 ?m) OR PAGE_FLAG_BUDDY\<rparr>)\<rparr>"
  have id: "pfn_to_page z0 x = x" "pfn_to_page z1 x = x" for x
    using s by (simp_all add: z0_def z1_def pfn_to_page_def buddy_structD)
  have inb: "page_ok z x" if "x \<in> block 2 p" for x
    by (rule block_in_array [OF s that _ p(1)]) simp
  have "?q \<in> block 2 p" "?m \<in> block 2 p" "find_buddy_pfn ?m 1 \<in> block 2 p"
    by (auto simp: mem_block bit_find_buddy bit_and_iff)
  then have ok: "page_ok z ?q" "page_ok z ?m" "page_ok z (find_buddy_pfn ?m 1)" using inb by blast+
  have cnt: "free_count z 0 = 0" using buddy_count_0 [OF s] e by simp
  have "del_page_from_free_list z0 ?q 0 = Some z1"
    using ok cnt list_remove_self [OF q(3)] by (simp add: del_page_from_free_list_def z0_def z1_def page_ok_def)
  moreover have mk: "page_is_buddy (pages z1 x) 1 = page_is_buddy (pages z x) 1" for x
    by (simp add: z1_def)
  ultimately have "merge_loop z0 p 0 = merge_loop z1 ?m (0 + 1)"
    using ok q(2) s by (intro merge_step) (simp_all add: z0_def MAX_ORDER_def page_ok_def buddy_structD)
  also have "\<dots> = Some (z1, ?m, 1)"
    using ok st s mk by (subst merge_stop) (simp_all add: z0_def z1_def MAX_ORDER_def page_ok_def buddy_structD)
  finally have "merge_loop z0 p 0 = Some (z1, ?m, 1)" .
  then have fb: "buddy_free_block z0 p 0 = Some z2"
    using ok(2) by (simp add: buddy_free_block_def id)
      (simp add: set_buddy_order_def add_page_to_free_list_def z2_def z1_def z0_def page_ok_def pfn_to_page_def buddy_structD[OF s])
  note pick = pick_order_1 [of p]
  have "buddy_page_free z p 1 = Some z2"
    unfolding buddy_page_free_def z0_def [symmetric]
    by (subst free_range_loop.simps) (simp add: pick fb free_range_loop.simps [of z2])
  moreover have c0: "free_count z2 0 = -1" by (simp add: z2_def z1_def)
  moreover have "buddy_page_alloc z2 nr = None"
  proof -
    have "?m \<in> block 1 p" by (auto simp: mem_block bit_find_buddy bit_and_iff)
    then have "?m \<in> block 0 p \<union> block 0 ?q" using block_Suc [of 0 p] by simp
    then have "?m \<notin> free_set fl" using p(2) q(1) by (auto simp: block_0)
    then have mn: "PageNode ?m \<notin> set (lists_of fl 1)"
      using free_setI [of 1 ?m fl] block_self [of ?m 1] by (auto simp: lists_of_def)
    have r1: "ring (nodes z) (FreeHead 1) (lists_of fl 1)" and
      d: "set (FreeHead 0 # lists_of fl 0) \<inter> set (FreeHead 1 # lists_of fl 1) = {}"
      using kernel_list.familyD(1) [OF buddy_structD(4) [OF s], of 1]
        kernel_list.familyD(2) [OF buddy_structD(4) [OF s], of 1 0] by simp_all
    have "ring (list_init (PageNode ?m) (nodes z)) (FreeHead 1) (lists_of fl 1)"
      by (rule ring_frame [OF r1]) (use mn in \<open>auto intro!: list_init_frame\<close>)
    then have "nodes z2 (FreeHead 0) = nodes z (FreeHead 0)"
      using d list_add_last_frame [of "list_init (PageNode ?m) (nodes z)" "FreeHead 1" "lists_of fl 1" "FreeHead 0" "PageNode ?m"]
      by (simp add: z2_def z1_def list_init_frame)
    then have "front_page z2 0 = None"
      using kernel_list.family_front [OF buddy_structD(4) [OF s], of 0] e
      by (auto simp: front_page_def list_front_def list_empty_def lists_of_def split: if_splits)
    moreover have "[0..<MAX_ORDER] = 0 # [1..<MAX_ORDER]" by (simp add: upt_conv_Cons MAX_ORDER_def)
    ultimately show ?thesis
      by (simp add: buddy_page_alloc_def c0 del: upt_Suc)
  qed
  ultimately show ?thesis by blast
qed

definition marked_zone :: zone where
  "marked_zone = empty_zone\<lparr>pages := (pages empty_zone)(1 := \<lparr>page_flag = 1, page_order = 0, page_u = 0\<rparr>)\<rparr>"

theorem buddy_free_takes_allocated_buddy_witness:
  "\<exists>z'. buddy_page_free marked_zone 0 1 = Some z' \<and> free_count z' 0 = -1 \<and> buddy_page_alloc z' 1 = None"
proof (rule buddy_free_takes_allocated_buddy)
  show "buddy_struct marked_zone (\<lambda>_. [])"
    using empty_zone_struct by (simp add: buddy_struct_def marked_zone_def)
qed (simp_all add: marked_zone_def empty_zone_def buddy_init_zone_def init_areas_eq blank_zone_def free_set_def
    find_buddy_pfn_def page_is_buddy_def PAGE_FLAG_BUDDY_def ring_def)

text \<open>Freeing the last page of an array with an odd number of entries looks up a buddy past the end of
  the array: no bound is checked before \<open>page_is_buddy\<close> reads it.\<close>

theorem buddy_free_last_page_reads_past_end:
  assumes "mem_map z = pfn_base z" "unat pfn + 1 = arr_len z" "even (unat pfn)" "arr_len z < 2 ^ 64"
  shows "buddy_page_free z pfn 1 = None"
proof -
  have "take_bit (Suc 0) pfn = 0" using assms(3) aligned_unat [of 1 pfn] by simp
  then have e: "find_buddy_pfn pfn 0 = pfn + 1" using aligned_plus [of 0 pfn] by simp
  have "unat (pfn + 1) = unat pfn + 1"
    using assms(2,4) unat_add_lem [of pfn 1] by simp
  then have "merge_loop (z\<lparr>nr_free_pages := nr_free_pages z + 1\<rparr>) pfn 0 = None"
    using assms by (subst merge_loop.simps) (simp add: MAX_ORDER_def Let_def e page_ok_def pfn_to_page_def)
  then show ?thesis
    unfolding buddy_page_free_def by (subst free_range_loop.simps) (simp add: pick_order_1 buddy_free_block_def)
qed

theorem buddy_free_last_page_reads_past_end_witness:
  "buddy_page_free (buddy_init_zone (blank_zone 1001) 0 1001) 1000 1 = None"
  by (rule buddy_free_last_page_reads_past_end)
    (simp_all add: buddy_init_zone_def init_areas_eq blank_zone_def)

end
