(* ===== verification/CString.thy ===== *)
theory CString
  imports Prelude
begin

text \<open>
  The memory and string functions of \<open>src/lib/string.c\<close> on a flat byte memory \<open>mem\<close>, a function
  from 64-bit addresses to bytes; every address may be read and written, so that an access past a
  buffer shows as a changed or inspected byte outside it.  \<open>char\<close> is signed, as on x86.  Loops
  that a missing terminator keeps going are \<open>partial_function\<close>s: \<open>None\<close> is a loop that does not end.
\<close>

section \<open>Memory\<close>

type_synonym mem = "addr_t \<Rightarrow> u8"

definition word_size :: addr_t where "word_size = 8"

definition load_long :: "mem \<Rightarrow> addr_t \<Rightarrow> u8 list" where
  "load_long m p = map (\<lambda>i. m (p + of_nat i)) [0..<8]"

fun store_bytes :: "mem \<Rightarrow> addr_t \<Rightarrow> u8 list \<Rightarrow> mem" where
  "store_bytes m p [] = m"
| "store_bytes m p (b # bs) = store_bytes (m(p := b)) (p + 1) bs"

section \<open>memcpy, memmove, memset, memcmp\<close>

lemma sint_sub_small:
  fixes sz :: ssize_t
  assumes "0 \<le> sint sz" "0 \<le> k" "k \<le> 2 ^ 62"
  shows "sint (sz - word_of_int k) = sint sz - k"
proof -
  have k: "sint (word_of_int k :: ssize_t) = k"
    using assms by (simp add: sint_sbintrunc' signed_take_bit_int_eq_self)
  have "sint sz < 2 ^ 63" using sint_lt [of sz] by simp
  then show ?thesis
    unfolding sint_word_ariths k using assms by (simp add: signed_take_bit_int_eq_self)
qed

function copy_head :: "mem \<Rightarrow> addr_t \<Rightarrow> addr_t \<Rightarrow> ssize_t \<Rightarrow> addr_t \<Rightarrow> mem \<times> addr_t \<times> addr_t \<times> ssize_t" where
  "copy_head m d s sz dptr =
     (if 0 <s sz \<and> d < dptr then copy_head (m(d := m s)) (d + 1) (s + 1) (sz - 1) dptr else (m, d, s, sz))"
  by pat_completeness auto
termination
  by (relation "measure (\<lambda>(m, d, s, sz, dptr). nat (sint sz))")
    (use sint_sub_small [of _ 1] in \<open>auto simp: word_sless_alt\<close>)

function copy_longs :: "mem \<Rightarrow> addr_t \<Rightarrow> addr_t \<Rightarrow> addr_t \<Rightarrow> ssize_t \<Rightarrow> addr_t \<Rightarrow> mem \<times> addr_t \<times> addr_t \<times> ssize_t" where
  "copy_longs m d dptr sptr sz dptr_end =
     (if 0 <s sz \<and> d < dptr_end
      then copy_longs (store_bytes m dptr (load_long m sptr)) d (dptr + 8) (sptr + 8) (sz - word_size) dptr_end
      else (m, dptr, sptr, sz))"
  by pat_completeness auto
termination
  by (relation "measure (\<lambda>(m, d, dptr, sptr, sz, e). nat (sint sz))")
    (use sint_sub_small [of _ 8] in \<open>auto simp: word_sless_alt word_size_def\<close>)

function copy_tail :: "mem \<Rightarrow> addr_t \<Rightarrow> addr_t \<Rightarrow> ssize_t \<Rightarrow> mem" where
  "copy_tail m d s sz = (if 0 <s sz then copy_tail (m(d := m s)) (d + 1) (s + 1) (sz - 1) else m)"
  by pat_completeness auto
termination
  by (relation "measure (\<lambda>(m, d, s, sz). nat (sint sz))")
    (use sint_sub_small [of _ 1] in \<open>auto simp: word_sless_alt\<close>)

definition memcpy :: "mem \<Rightarrow> addr_t \<Rightarrow> addr_t \<Rightarrow> size_t \<Rightarrow> mem" where
  "memcpy m dst src n =
     (let dptr = align dst word_size;
          dptr_end = align_down (dst + n) word_size;
          (m1, d1, s1, sz1) = copy_head m dst src n dptr
      in if s1 AND size_mask word_size = 0
         then let (m2, dptr2, sptr2, sz2) = copy_longs m1 d1 dptr s1 sz1 dptr_end
              in copy_tail m2 dptr2 sptr2 sz2
         else copy_tail m1 d1 s1 sz1)"

function copy_back :: "mem \<Rightarrow> addr_t \<Rightarrow> addr_t \<Rightarrow> size_t \<Rightarrow> mem" where
  "copy_back m d s n = (if n > 0 then copy_back (m(d - 1 := m (s - 1))) (d - 1) (s - 1) (n - 1) else m)"
  by pat_completeness auto
termination
  by (relation "measure (\<lambda>(m, d, s, n). unat n)") (auto simp: unat_minus_one unat_gt_0 word_gt_0)

definition memmove :: "mem \<Rightarrow> addr_t \<Rightarrow> addr_t \<Rightarrow> size_t \<Rightarrow> mem" where
  "memmove m dst src n = (if dst - src \<ge> n then memcpy m dst src n else copy_back m (dst + n) (src + n) n)"

function memset :: "mem \<Rightarrow> addr_t \<Rightarrow> cint \<Rightarrow> size_t \<Rightarrow> mem" where
  "memset m p ch n = (if n > 0 then memset (m(p := ucast ch)) (p + 1) ch (n - 1) else m)"
  by pat_completeness auto
termination
  by (relation "measure (\<lambda>(m, p, ch, n). unat n)") (auto simp: unat_minus_one unat_gt_0 word_gt_0)

function memcmp :: "mem \<Rightarrow> addr_t \<Rightarrow> addr_t \<Rightarrow> size_t \<Rightarrow> cint" where
  "memcmp m p1 p2 n =
     (if n > 0
      then if m p1 \<noteq> m p2 then scast (m p1) - scast (m p2) else memcmp m (p1 + 1) (p2 + 1) (n - 1)
      else 0)"
  by pat_completeness auto
termination
  by (relation "measure (\<lambda>(m, p, q, n). unat n)") (auto simp: unat_minus_one unat_gt_0 word_gt_0)

declare copy_head.simps [simp del] copy_longs.simps [simp del] copy_tail.simps [simp del]
  copy_back.simps [simp del] memset.simps [simp del] memcmp.simps [simp del]

section \<open>The string functions\<close>

partial_function (option) str_end :: "mem \<Rightarrow> addr_t \<Rightarrow> addr_t option" where
  [code]: "str_end m p = (if m p \<noteq> 0 then str_end m (p + 1) else Some p)"

partial_function (option) strcpy_loop :: "mem \<Rightarrow> addr_t \<Rightarrow> addr_t \<Rightarrow> mem option" where
  [code]: "strcpy_loop m p src = (if m src \<noteq> 0 then strcpy_loop (m(p := m src)) (p + 1) (src + 1) else Some (m(p := 0)))"

definition strcpy :: "mem \<Rightarrow> addr_t \<Rightarrow> addr_t \<Rightarrow> mem option" where
  "strcpy m dst src = strcpy_loop m dst src"

definition strcat :: "mem \<Rightarrow> addr_t \<Rightarrow> addr_t \<Rightarrow> (mem \<times> addr_t) option" where
  "strcat m dst src =
     (if dst = 0 \<or> src = 0 then Some (m, 0)
      else do { temp \<leftarrow> str_end m dst; m' \<leftarrow> strcpy_loop m temp src; Some (m', dst) })"

function strncat_loop :: "mem \<Rightarrow> addr_t \<Rightarrow> addr_t \<Rightarrow> size_t \<Rightarrow> mem" where
  "strncat_loop m temp src n =
     (if n > 0 then (if m src \<noteq> 0 then strncat_loop (m(temp := m src)) (temp + 1) (src + 1) (n - 1) else m(temp := 0)) else m)"
  by pat_completeness auto
termination
  by (relation "measure (\<lambda>(m, p, q, n). unat n)") (auto simp: unat_minus_one unat_gt_0 word_gt_0)

definition strncat :: "mem \<Rightarrow> addr_t \<Rightarrow> addr_t \<Rightarrow> size_t \<Rightarrow> (mem \<times> addr_t) option" where
  "strncat m dst src n =
     (if dst = 0 \<or> src = 0 then Some (m, 0)
      else do { temp \<leftarrow> str_end m dst; Some (strncat_loop m temp src n, dst) })"

partial_function (option) strlen_loop :: "mem \<Rightarrow> addr_t \<Rightarrow> cint \<Rightarrow> cint option" where
  [code]: "strlen_loop m p cnt = (if m p \<noteq> 0 then strlen_loop m (p + 1) (cnt + 1) else Some cnt)"

definition strlen :: "mem \<Rightarrow> addr_t \<Rightarrow> cint option" where
  "strlen m p = strlen_loop m p 0"

function strnlen_loop :: "mem \<Rightarrow> addr_t \<Rightarrow> size_t \<Rightarrow> cint \<Rightarrow> cint" where
  "strnlen_loop m s n cnt = (if n > 0 \<and> m s \<noteq> 0 then strnlen_loop m (s + 1) (n - 1) (cnt + 1) else cnt)"
  by pat_completeness auto
termination
  by (relation "measure (\<lambda>(m, p, n, c). unat n)") (auto simp: unat_minus_one unat_gt_0 word_gt_0)

definition strnlen :: "mem \<Rightarrow> addr_t \<Rightarrow> size_t \<Rightarrow> cint" where
  "strnlen m s n = strnlen_loop m s n 0"

function strncpy_loop :: "mem \<Rightarrow> addr_t \<Rightarrow> addr_t \<Rightarrow> size_t \<Rightarrow> size_t \<Rightarrow> mem" where
  "strncpy_loop m dest src i n =
     (if i < n
      then let m' = m(dest + i := m (src + i))
           in if m' (src + i) = 0 then m' else strncpy_loop m' dest src (i + 1) n
      else m)"
  by pat_completeness auto
termination
  by (relation "measure (\<lambda>(m, p, q, i, n). unat n - unat i)")
    (auto simp: unat_inc word_less_nat_alt)

definition strncpy :: "mem \<Rightarrow> addr_t \<Rightarrow> addr_t \<Rightarrow> size_t \<Rightarrow> mem" where
  "strncpy m dest src n = (if dest = 0 \<or> src = 0 then m else strncpy_loop m dest src 0 n)"

partial_function (option) strcmp_loop :: "mem \<Rightarrow> addr_t \<Rightarrow> addr_t \<Rightarrow> cint option" where
  [code]: "strcmp_loop m p1 p2 =
     (if m p1 \<noteq> 0 \<and> m p2 \<noteq> 0 \<and> m p1 = m p2 then strcmp_loop m (p1 + 1) (p2 + 1)
      else Some (scast (m p1) - scast (m p2)))"

definition strcmp :: "mem \<Rightarrow> addr_t \<Rightarrow> addr_t \<Rightarrow> cint option" where
  "strcmp m s1 s2 = (if s1 = 0 \<or> s2 = 0 then Some (ucast (s1 - s2)) else strcmp_loop m s1 s2)"

function strncmp_loop :: "mem \<Rightarrow> addr_t \<Rightarrow> addr_t \<Rightarrow> size_t \<Rightarrow> size_t \<Rightarrow> cint" where
  "strncmp_loop m s1 s2 i n =
     (if i < n
      then if m (s1 + i) \<noteq> m (s2 + i) then scast (m (s1 + i)) - scast (m (s2 + i))
           else strncmp_loop m s1 s2 (i + 1) n
      else 0)"
  by pat_completeness auto
termination
  by (relation "measure (\<lambda>(m, p, q, i, n). unat n - unat i)")
    (auto simp: unat_inc word_less_nat_alt)

definition strncmp :: "mem \<Rightarrow> addr_t \<Rightarrow> addr_t \<Rightarrow> size_t \<Rightarrow> cint" where
  "strncmp m s1 s2 n = (if s1 = 0 \<or> s2 = 0 then ucast (s1 - s2) else strncmp_loop m s1 s2 0 n)"

partial_function (option) strchr_loop :: "mem \<Rightarrow> addr_t \<Rightarrow> u8 \<Rightarrow> addr_t option" where
  [code]: "strchr_loop m p c = (if m p \<noteq> 0 \<and> m p \<noteq> c then strchr_loop m (p + 1) c else Some p)"

definition strchr :: "mem \<Rightarrow> addr_t \<Rightarrow> u8 \<Rightarrow> addr_t option" where
  "strchr m s c = (if s = 0 then Some 0 else do { p \<leftarrow> strchr_loop m s c; Some (if m p = c then p else 0) })"

partial_function (option) strrchr_loop :: "mem \<Rightarrow> addr_t \<Rightarrow> u8 \<Rightarrow> addr_t \<Rightarrow> addr_t option" where
  [code]: "strrchr_loop m s c r =
     (if m s \<noteq> 0 then strrchr_loop m (s + 1) c (if m s = c then s else r) else Some r)"

definition strrchr :: "mem \<Rightarrow> addr_t \<Rightarrow> u8 \<Rightarrow> addr_t option" where
  "strrchr m s c = (if s = 0 then Some 0 else strrchr_loop m s c 0)"

declare strncat_loop.simps [simp del] strnlen_loop.simps [simp del] strncpy_loop.simps [simp del]
  strncmp_loop.simps [simp del]

section \<open>Copying byte by byte\<close>

text \<open>What the copy loops amount to: \<open>k\<close> bytes copied one after the other, upwards or downwards.\<close>

fun fwd :: "mem \<Rightarrow> addr_t \<Rightarrow> addr_t \<Rightarrow> nat \<Rightarrow> mem" where
  "fwd m d s 0 = m"
| "fwd m d s (Suc k) = fwd (m(d := m s)) (d + 1) (s + 1) k"

fun bwd :: "mem \<Rightarrow> addr_t \<Rightarrow> addr_t \<Rightarrow> nat \<Rightarrow> mem" where
  "bwd m d s 0 = m"
| "bwd m d s (Suc k) = bwd (m(d + of_nat k := m (s + of_nat k))) d s k"

lemma fwd_add: "fwd m d s (j + k) = fwd (fwd m d s j) (d + of_nat j) (s + of_nat j) k"
  by (induction j arbitrary: m d s) (auto simp: add.assoc)

lemma fwd_snoc: "fwd m d s (Suc k) = (fwd m d s k)(d + of_nat k := fwd m d s k (s + of_nat k))"
  using fwd_add [of m d s k 1] by simp

lemma fwd_other: "\<forall>i<k. a \<noteq> d + of_nat i \<Longrightarrow> fwd m d s k a = m a"
  by (induction k) (auto simp: fwd_snoc simp del: fwd.simps(2))

lemma of_nat_inj64: "i < 2 ^ 64 \<Longrightarrow> j < 2 ^ 64 \<Longrightarrow> (of_nat i :: addr_t) = of_nat j \<Longrightarrow> i = j"
  by (simp add: word_of_nat_eq_iff take_bit_nat_eq_self)

lemma fwd_read:
  assumes "i < k" "k \<le> 2 ^ 63" "\<forall>j<i. s + of_nat i \<noteq> d + of_nat j"
  shows "fwd m d s k (d + of_nat i) = m (s + of_nat i)"
  using assms(1,2)
proof (induction k)
  case (Suc k)
  show ?case
  proof (cases "i = k")
    case True
    then show ?thesis using fwd_other [of k "s + of_nat k" d m s] assms(3) by (simp add: fwd_snoc del: fwd.simps(2))
  next
    case False
    then have "d + of_nat i \<noteq> d + of_nat k" using Suc.prems of_nat_inj64 [of i k] by auto
    then show ?thesis using False Suc by (simp add: fwd_snoc del: fwd.simps(2))
  qed
qed simp

lemma store_bytes_append: "store_bytes m d (xs @ [b]) = (store_bytes m d xs)(d + of_nat (length xs) := b)"
  by (induction xs arbitrary: m d) (auto simp: add.assoc)

lemma store_bytes_fwd:
  assumes "\<forall>j<k. \<forall>i<j. s + of_nat j \<noteq> d + of_nat i"
  shows "store_bytes m d (map (\<lambda>i. m (s + of_nat i)) [0..<k]) = fwd m d s k"
  using assms
proof (induction k)
  case (Suc k)
  then show ?case
    using fwd_other [of k "s + of_nat k" d m s]
    by (simp add: store_bytes_append fwd_snoc del: fwd.simps(2))
qed simp

lemma apart:
  assumes "d = s \<or> unat (d - s) \<ge> n" "j < i" "i \<le> j + n - 1" "n \<le> 2 ^ 63"
  shows "s + of_nat i \<noteq> (d + of_nat j :: addr_t)"
proof
  assume "s + of_nat i = d + of_nat j"
  then have e: "d - s = of_nat (i - j)" using assms(2) by (simp add: of_nat_diff algebra_simps)
  have "unat (of_nat (i - j) :: addr_t) = i - j" using assms unfolding unat_of_nat by simp
  then show False using assms unfolding e [symmetric] by auto
qed

lemma copy_tail_fwd: "copy_tail m d s sz = fwd m d s (nat (sint sz))"
proof (induction m d s sz rule: copy_tail.induct)
  case (1 m d s sz)
  show ?case
  proof (cases "0 <s sz")
    case True
    then have "0 < sint sz" by (simp add: word_sless_alt)
    then have "nat (sint sz) = Suc (nat (sint (sz - 1)))" using sint_sub_small [of sz 1] by simp
    then show ?thesis using 1 True by (subst copy_tail.simps) (simp del: fun_upd_apply)
  qed (subst copy_tail.simps, simp add: word_sless_alt)
qed

lemma copy_head_fwd:
  "copy_head m d s sz dptr = (let k = min (nat (sint sz)) (unat dptr - unat d) in
     (fwd m d s k, d + of_nat k, s + of_nat k, sz - of_nat k))"
proof (induction m d s sz dptr rule: copy_head.induct)
  case (1 m d s sz dptr)
  show ?case
  proof (cases "0 <s sz \<and> d < dptr")
    case True
    then have "0 < sint sz" by (simp add: word_sless_alt)
    then have a: "nat (sint sz) = Suc (nat (sint (sz - 1)))" using sint_sub_small [of sz 1] by simp
    have b: "unat dptr - unat d = Suc (unat dptr - unat (d + 1))"
      using True unat_inc [of d dptr] by (auto simp: word_less_nat_alt Suc_diff_Suc)
    show ?thesis
      using 1 [OF True] True by (subst copy_head.simps) (simp add: a b Let_def del: fun_upd_apply)
  next
    case False
    then have "min (nat (sint sz)) (unat dptr - unat d) = 0" by (auto simp: word_sless_alt word_less_nat_alt)
    then show ?thesis using False by (subst copy_head.simps) (auto simp: Let_def)
  qed
qed

lemma long_fwd:
  assumes "dp = sp \<or> unat (dp - sp) \<ge> 8"
  shows "store_bytes m dp (load_long m sp) = fwd m dp sp 8"
  unfolding load_long_def by (rule store_bytes_fwd) (use assms apart [of dp sp 8] in auto)

lemma copy_longs_fwd:
  assumes "dp = sp \<or> unat (dp - sp) \<ge> 8" "d < e"
  shows "copy_longs m d dp sp sz e = (let k = 8 * ((nat (sint sz) + 7) div 8) in
     (fwd m dp sp k, dp + of_nat k, sp + of_nat k, sz - of_nat k))"
  using assms
proof (induction m d dp sp sz e rule: copy_longs.induct)
  case (1 m d dp sp sz e)
  show ?case
  proof (cases "0 <s sz")
    case True
    then have p: "0 < sint sz" by (simp add: word_sless_alt)
    then have "sint (sz - 8) = sint sz - 8" using sint_sub_small [of sz 8] by simp
    then have a: "8 * ((nat (sint sz) + 7) div 8) = 8 + 8 * ((nat (sint (sz - 8)) + 7) div 8)"
      using p by (cases "sint sz \<ge> 8") (auto simp: nat_diff_distrib div_if)
    have "copy_longs m d dp sp sz e = copy_longs (fwd m dp sp 8) d (dp + 8) (sp + 8) (sz - 8) e"
      using True 1(3) long_fwd [OF 1(2)] by (subst copy_longs.simps) (simp add: word_size_def)
    also have "\<dots> = (let k = 8 * ((nat (sint (sz - 8)) + 7) div 8) in
     (fwd (fwd m dp sp 8) (dp + 8) (sp + 8) k, dp + 8 + of_nat k, sp + 8 + of_nat k, sz - 8 - of_nat k))"
      using 1 True long_fwd [OF 1(2)] by (simp add: word_size_def)
    finally show ?thesis using fwd_add [of m dp sp 8] unfolding a by (simp add: Let_def)
  next
    case False
    then have "nat (sint sz) = 0" by (simp add: word_sless_alt)
    then show ?thesis using False by (subst copy_longs.simps) (simp add: Let_def)
  qed
qed

definition memcpy_len :: "addr_t \<Rightarrow> addr_t \<Rightarrow> nat \<Rightarrow> nat" where
  "memcpy_len dst src n =
     (let h = (unat dst + 7) div 8 * 8 - unat dst
      in if unat dst mod 8 = unat src mod 8 \<and> h + 8 \<le> n then h + 8 * ((n - h + 7) div 8) else n)"

lemma memcpy_len_bounds: "n \<le> memcpy_len dst src n \<and> memcpy_len dst src n \<le> n + 7"
  unfolding memcpy_len_def Let_def by (auto; presburger)

lemma and_7: "x AND 7 = 0 \<longleftrightarrow> unat x mod 8 = 0" for x :: addr_t
proof -
  have "x AND 7 = take_bit 3 x" by (simp add: take_bit_eq_mask mask_eq_exp_minus_1)
  moreover have "unat (take_bit 3 x) = unat x mod 8" by (simp add: unsigned_take_bit_eq take_bit_eq_mod [where 'a = nat])
  ultimately show ?thesis by (metis unat_0_iff)
qed

lemma longs_apart:
  fixes a b :: addr_t
  assumes "unat a mod 8 = 0" "unat b mod 8 = 0"
  shows "a = b \<or> unat (a - b) \<ge> 8"
proof (cases "a = b")
  case False
  then have "unat a \<noteq> unat b" by (simp add: word_unat_eq_iff)
  moreover obtain x y where "unat a = 8 * x" "unat b = 8 * y" using assms by (auto simp: mod_eq_0_iff_dvd elim!: dvdE)
  moreover have "unat b < 2 ^ 64" using unsigned_less [of b] by simp
  ultimately show ?thesis unfolding unat_sub_if' by (auto simp: word_size)
qed simp

lemma round8:
  fixes d n :: nat
  shows "(d + 7) div 8 * 8 - d < 8" "n \<le> 8 * ((n + 7) div 8)"
  by linarith+

lemma round8_mod: "(d + ((d + 7) div 8 * 8 - d)) mod 8 = 0" for d :: nat
proof -
  have "d \<le> (d + 7) div 8 * 8" by linarith
  then show ?thesis by simp
qed

lemma same_mod8:
  fixes d h s :: nat
  assumes "(d + h) mod 8 = 0"
  shows "(s + h) mod 8 = 0 \<longleftrightarrow> d mod 8 = s mod 8"
proof
  assume "(s + h) mod 8 = 0"
  then have "(s + h) mod 8 = (d + h) mod 8" by (simp only: assms)
  then have "(s + h + 7 * h) mod 8 = (d + h + 7 * h) mod 8" by (rule mod_add_cong [OF _ refl])
  moreover have "s + h + 7 * h = s + h * 8" "d + h + 7 * h = d + h * 8" by simp_all
  ultimately show "d mod 8 = s mod 8" by (simp only: mod_mult_self1)
next
  assume "d mod 8 = s mod 8"
  then have "(s + h) mod 8 = (d + h) mod 8" by (intro mod_add_cong) simp_all
  then show "(s + h) mod 8 = 0" using assms by simp
qed

lemma long_fits: "(d + h) mod 8 = 0 \<Longrightarrow> d + h < (d + n) div 8 * 8 \<longleftrightarrow> h + 8 \<le> n" for d h n :: nat
  by (auto elim!: dvdE simp: mod_eq_0_iff_dvd)

lemma sint_small:
  fixes n :: size_t
  assumes "unat n < 2 ^ 63"
  shows "sint n = int (unat n)"
proof -
  obtain k where k: "n = of_nat k" "k < 2 ^ 63"
    using assms by (rule that [of "unat n", rotated]) simp
  then have "sint n = int k" by (simp add: signed_of_nat signed_take_bit_int_eq_self)
  moreover have "unat n = k" unfolding k(1) unat_of_nat using k(2) by simp
  ultimately show ?thesis by simp
qed

lemma memcpy_fwd:
  assumes n: "unat n < 2 ^ 62" and d: "unat dst + unat n + 8 \<le> 2 ^ 64" and s: "unat src + unat n + 8 \<le> 2 ^ 64"
  shows "memcpy m dst src n = fwd m dst src (memcpy_len dst src (unat n))"
proof -
  define h where "h = (unat dst + 7) div 8 * 8 - unat dst"
  define k where "k = min (unat n) h"
  have sn: "sint n = int (unat n)"
    by (rule sint_small) (use n in simp)
  have ua: "unat (align dst 8) = unat dst + h"
    using unat_align [of 3 dst] d by (simp add: h_def)
  have ue: "unat (align_down (dst + n) 8) = (unat dst + unat n) div 8 * 8"
    using unat_align_down [of "dst + n" 3] d by (simp add: unat_add_lem [THEN iffD1])
  have dp: "align dst 8 = dst + of_nat h"
    using arg_cong [OF ua, of "of_nat :: nat \<Rightarrow> addr_t"] by simp
  have h8: "h < 8" unfolding h_def by (rule round8)
  have hm: "(unat dst + h) mod 8 = 0" unfolding h_def by (rule round8_mod)
  have head: "copy_head m dst src n (align dst 8) = (fwd m dst src k, dst + of_nat k, src + of_nat k, n - of_nat k)"
    unfolding copy_head_fwd by (simp add: sn ua k_def Let_def)
  have sz: "sint (n - of_nat k) = int (unat n - k)"
    using sint_sub_small [of n "int k"] sn h8 by (simp add: k_def)
  have nsz: "nat (sint (n - of_nat k)) = unat n - k" by (simp only: sz nat_int)
  have kn: "k \<le> unat n" by (simp add: k_def)
  have ml: "memcpy m dst src n =
    (if (src + of_nat k) AND 7 = 0
     then case copy_longs (fwd m dst src k) (dst + of_nat k) (align dst 8) (src + of_nat k) (n - of_nat k) (align_down (dst + n) 8)
       of (m2, dptr2, sptr2, sz2) \<Rightarrow> copy_tail m2 dptr2 sptr2 sz2
     else copy_tail (fwd m dst src k) (dst + of_nat k) (src + of_nat k) (n - of_nat k))"
    by (simp add: memcpy_def word_size_def size_mask_def head Let_def)
  have tail: "copy_tail (fwd m dst src k) (dst + of_nat k) (src + of_nat k) (n - of_nat k) = fwd m dst src (unat n)"
    using fwd_add [of m dst src k "unat n - k"] kn nsz by (simp add: copy_tail_fwd)
  show ?thesis
  proof (cases "unat n \<le> h")
    case True
    then have k: "k = unat n" by (simp add: k_def)
    have "copy_longs (fwd m dst src k) (dst + of_nat k) (align dst 8) (src + of_nat k) (n - of_nat k) (align_down (dst + n) 8) =
      (fwd m dst src k, align dst 8, src + of_nat k, n - of_nat k)"
      using sz by (subst copy_longs.simps) (simp add: word_sless_alt k)
    moreover have "memcpy_len dst src (unat n) = unat n" using True by (simp add: memcpy_len_def h_def [symmetric])
    ultimately show ?thesis using ml tail sz by (simp add: copy_tail_fwd k split: if_splits)
  next
    case False
    then have k: "k = h" by (simp add: k_def)
    have us: "unat (src + of_nat h) = unat src + h"
      using s h8 by (simp add: unat_add_lem [THEN iffD1] unat_of_nat)
    have al: "(src + of_nat k) AND 7 = 0 \<longleftrightarrow> unat dst mod 8 = unat src mod 8"
      unfolding and_7 k us by (rule same_mod8 [OF hm])
    have lt: "dst + of_nat k < align_down (dst + n) 8 \<longleftrightarrow> h + 8 \<le> unat n"
      unfolding k dp [symmetric] word_less_nat_alt ua ue by (rule long_fits [OF hm])
    show ?thesis
    proof (cases "unat dst mod 8 = unat src mod 8 \<and> h + 8 \<le> unat n")
      case True
      let ?c = "8 * ((unat n - h + 7) div 8)"
      have ap: "align dst 8 = src + of_nat k \<or> unat (align dst 8 - (src + of_nat k)) \<ge> 8"
        using True al hm by (intro longs_apart) (simp_all add: ua and_7)
      have "sint (n - of_nat k - of_nat ?c) = sint (n - of_nat k) - int ?c"
        using sint_sub_small [of "n - of_nat k" "int ?c"] n sz by simp
      also have "\<dots> \<le> 0"
      proof -
        have "int (unat n - k) \<le> int ?c" unfolding k of_nat_le_iff by (rule round8)
        then show ?thesis by (simp only: sz diff_le_0_iff_le)
      qed
      finally have z: "nat (sint (n - of_nat k - of_nat ?c)) = 0" by simp
      have "copy_longs (fwd m dst src k) (dst + of_nat k) (align dst 8) (src + of_nat k) (n - of_nat k) (align_down (dst + n) 8) =
        (fwd (fwd m dst src k) (align dst 8) (src + of_nat k) ?c, align dst 8 + of_nat ?c, src + of_nat k + of_nat ?c, n - of_nat k - of_nat ?c)"
        using copy_longs_fwd [OF ap iffD2 [OF lt conjunct2 [OF True]], of "fwd m dst src k" "n - of_nat k"]
        unfolding nsz by (simp only: Let_def k)
      then have "memcpy m dst src n = fwd (fwd m dst src k) (align dst 8) (src + of_nat k) ?c"
        using ml al True z by (simp add: copy_tail_fwd)
      then show ?thesis
        using True fwd_add [of m dst src h ?c] by (simp add: k dp memcpy_len_def h_def [symmetric] Let_def)
    next
      case f: False
      then have len: "memcpy_len dst src (unat n) = unat n" by (auto simp: memcpy_len_def h_def [symmetric])
      show ?thesis
      proof (cases "unat dst mod 8 = unat src mod 8")
        case True
        then have "copy_longs (fwd m dst src k) (dst + of_nat k) (align dst 8) (src + of_nat k) (n - of_nat k) (align_down (dst + n) 8) =
           (fwd m dst src k, align dst 8, src + of_nat k, n - of_nat k)"
          using lt f by (subst copy_longs.simps) simp
        then show ?thesis using ml al True tail len by (simp add: dp k)
      next
        case False
        then show ?thesis using ml al tail len by simp
      qed
    qed
  qed
qed

lemma fwd_correct:
  assumes "n \<le> k" "k \<le> 2 ^ 63" "dst = src \<or> unat (dst - src) \<ge> n"
  shows "\<forall>i<n. fwd m dst src k (dst + of_nat i) = m (src + of_nat i)"
proof (intro allI impI)
  fix i assume i: "i < n"
  show "fwd m dst src k (dst + of_nat i) = m (src + of_nat i)"
    by (rule fwd_read) (use i assms apart [OF assms(3), of _ i] in auto)
qed

lemma bwd_other: "\<forall>i<k. a \<noteq> d + of_nat i \<Longrightarrow> bwd m d s k a = m a"
  by (induction k arbitrary: m) auto

lemma bwd_read:
  assumes "\<forall>j<k. \<forall>i<j. s + of_nat i \<noteq> d + of_nat j" "k \<le> 2 ^ 63" "i < k"
  shows "bwd m d s k (d + of_nat i) = m (s + of_nat i)"
  using assms
proof (induction k arbitrary: m)
  case (Suc k)
  show ?case
  proof (cases "i = k")
    case True
    have "d + of_nat k \<noteq> d + of_nat j" if "j < k" for j
      using of_nat_inj64 [of k j] that Suc.prems(2) by auto
    then show ?thesis using True bwd_other [of k "d + of_nat k" d] by auto
  next
    case False
    then show ?thesis using Suc by (auto simp: less_Suc_eq)
  qed
qed simp

lemma copy_back_bwd: "copy_back m (d + n) (s + n) n = bwd m d s (unat n)"
proof (induction "unat n" arbitrary: m n)
  case 0
  then show ?case by (subst copy_back.simps) (simp add: word_gt_0 unat_0_iff)
next
  case (Suc k)
  have n: "n \<noteq> 0" using Suc(2) by auto
  then have u: "unat (n - 1) = k" using Suc(2) by (simp add: unat_minus_one)
  then have e: "n - 1 = of_nat k" by auto
  have "copy_back m (d + n) (s + n) n = copy_back (m(d + (n - 1) := m (s + (n - 1)))) (d + (n - 1)) (s + (n - 1)) (n - 1)"
    using n by (subst copy_back.simps) (simp add: word_gt_0 algebra_simps)
  also have "\<dots> = bwd m d s (unat n)"
    using Suc(1) [of "n - 1"] u Suc(2) by (simp add: e flip: Suc(2))
  finally show ?case .
qed

lemma memset_eq: "memset m p ch n = (\<lambda>a. if unat (a - p) < unat n then ucast ch else m a)"
proof (induction m p ch n rule: memset.induct)
  case (1 m p ch n)
  show ?case
  proof (cases "n > 0")
    case True
    then have u: "unat n = Suc (unat (n - 1))" by (simp add: unat_minus_one word_gt_0 unat_gt_0)
    have "unat (a - p) < unat n \<longleftrightarrow> a = p \<or> unat (a - (p + 1)) < unat (n - 1)" for a
    proof (cases "a = p")
      case False
      then have "a - p \<noteq> 0" by simp
      then have "unat (a - p) = Suc (unat (a - p - 1))" by (simp add: unat_minus_one unat_gt_0)
      then show ?thesis using False u by (simp add: diff_diff_add)
    qed (simp add: u)
    moreover have "memset m p ch n = memset (m(p := ucast ch)) (p + 1) ch (n - 1)"
      using True by (subst memset.simps) simp
    ultimately show ?thesis by (auto simp: 1 [OF True] fun_eq_iff)
  qed (subst memset.simps, simp add: word_gt_0)
qed

lemma scast_byte_eq: "(scast a :: cint) = scast b \<longleftrightarrow> a = b" for a b :: u8
proof -
  have "(ucast (scast x :: cint) :: u8) = x" for x :: u8
    by (rule bit_word_eqI) (simp add: bit_simps)
  from this [of a] this [of b] show ?thesis by metis
qed

lemma memcmp_zero: "memcmp m p q n = 0 \<longleftrightarrow> (\<forall>i<unat n. m (p + of_nat i) = m (q + of_nat i))"
proof (induction m p q n rule: memcmp.induct)
  case (1 m p q n)
  show ?case
  proof (cases "n > 0")
    case True
    then have u: "unat n = Suc (unat (n - 1))" by (simp add: unat_minus_one word_gt_0 unat_gt_0)
    show ?thesis
      using 1 True by (subst memcmp.simps) (auto simp: u All_less_Suc2 scast_byte_eq simp flip: add.assoc)
  qed (subst memcmp.simps, simp add: word_gt_0)
qed

section \<open>Strings in memory\<close>

fun cstr :: "mem \<Rightarrow> addr_t \<Rightarrow> u8 list \<Rightarrow> bool" where
  "cstr m p [] \<longleftrightarrow> m p = 0"
| "cstr m p (c # cs) \<longleftrightarrow> m p = c \<and> c \<noteq> 0 \<and> cstr m (p + 1) cs"

lemma cstr_end: "cstr m p cs \<Longrightarrow> str_end m p = Some (p + of_nat (length cs))"
  by (induction cs arbitrary: p) (auto simp: str_end.simps add.assoc)

lemma strlen_loop_cstr: "cstr m p cs \<Longrightarrow> strlen_loop m p k = Some (k + of_nat (length cs))"
  by (induction cs arbitrary: p k) (auto simp: strlen_loop.simps add.assoc)

lemma cstr_nth: "cstr m p cs \<Longrightarrow> i < length cs \<Longrightarrow> m (p + of_nat i) = cs ! i"
  by (induction cs arbitrary: p i) (auto simp: nth_Cons split: nat.splits simp flip: add.assoc)

lemma cstr_iff: "cstr m p cs \<longleftrightarrow> (\<forall>i<length cs. m (p + of_nat i) = cs ! i \<and> cs ! i \<noteq> 0) \<and> m (p + of_nat (length cs)) = 0"
  by (induction cs arbitrary: p) (auto simp: All_less_Suc2 simp flip: add.assoc)

lemma strcpy_loop_cstr:
  assumes "cstr m src cs" "\<forall>j\<le>length cs. \<forall>i<j. src + of_nat j \<noteq> d + of_nat i"
  shows "strcpy_loop m d src = Some (fwd m d src (Suc (length cs)))"
  using assms
proof (induction cs arbitrary: m d src)
  case Nil
  then show ?case by (subst strcpy_loop.simps) simp
next
  case (Cons c cs)
  have "cstr (m(d := m src)) (src + 1) cs"
    unfolding cstr_iff
  proof (intro conjI allI impI)
    have ne: "src + 1 + of_nat i \<noteq> d" if "i \<le> length cs" for i
      using Cons.prems(2) [rule_format, of "Suc i" 0] that by (simp add: add.assoc)
    show "(m(d := m src)) (src + 1 + of_nat (length cs)) = 0"
      using ne [of "length cs"] Cons.prems(1) by (simp add: cstr_iff [of m "src + 1"])
    fix i assume i: "i < length cs"
    show "(m(d := m src)) (src + 1 + of_nat i) = cs ! i" "cs ! i \<noteq> 0"
      using i ne [of i] Cons.prems(1) by (simp_all add: cstr_iff [of m "src + 1"])
  qed
  moreover have "\<forall>j\<le>length cs. \<forall>i<j. src + 1 + of_nat j \<noteq> d + 1 + of_nat i"
  proof (intro allI impI)
    fix j i assume "j \<le> length cs" "i < j"
    then show "src + 1 + of_nat j \<noteq> d + 1 + of_nat i"
      using Cons.prems(2) [rule_format, of "Suc j" "Suc i"] by (simp add: add.assoc)
  qed
  ultimately show ?case using Cons by (subst strcpy_loop.simps) simp
qed


lemma strcmp_loop_cstr:
  assumes "cstr m p xs" "cstr m q ys"
  shows "\<exists>r. strcmp_loop m p q = Some r \<and> (r = 0 \<longleftrightarrow> xs = ys)"
  using assms
proof (induction xs arbitrary: p q ys)
  case Nil
  then have "m p = 0" "m q = 0 \<longleftrightarrow> ys = []" by (cases ys; simp)+
  then show ?case using scast_byte_eq [of 0 "m q"] by (subst strcmp_loop.simps) auto
next
  case (Cons x xs)
  show ?case
  proof (cases "\<exists>zs. ys = x # zs")
    case True
    then obtain zs where ys: "ys = x # zs" ..
    then have "strcmp_loop m p q = strcmp_loop m (p + 1) (q + 1)"
      using Cons.prems by (subst strcmp_loop.simps) simp
    then show ?thesis using Cons.IH [of "p + 1" "q + 1" zs] Cons.prems ys by simp
  next
    case False
    then have "m p \<noteq> m q" using Cons.prems by (cases ys) auto
    then have "strcmp_loop m p q = Some (scast (m p) - scast (m q))" by (subst strcmp_loop.simps) simp
    moreover have "x # xs \<noteq> ys" using False by auto
    ultimately show ?thesis using \<open>m p \<noteq> m q\<close> scast_byte_eq [of "m p" "m q"] by simp
  qed
qed

lemma strchr_loop_cstr:
  assumes "cstr m p xs"
  shows "strchr_loop m p c = Some (p + of_nat (length (takeWhile (\<lambda>x. x \<noteq> c) xs)))"
  using assms
proof (induction xs arbitrary: p)
  case (Cons x xs)
  then show ?case by (subst strchr_loop.simps) (auto simp: add.assoc)
qed (subst strchr_loop.simps, simp)

lemma strrchr_loop_none: "cstr m p xs \<Longrightarrow> c \<notin> set xs \<Longrightarrow> strrchr_loop m p c r = Some r"
proof (induction xs arbitrary: p)
  case Nil
  then show ?case by (subst strrchr_loop.simps) simp
next
  case (Cons x xs)
  then show ?case by (subst strrchr_loop.simps) auto
qed

lemma strrchr_loop_last:
  "cstr m p (ys @ c # zs) \<Longrightarrow> c \<notin> set zs \<Longrightarrow> strrchr_loop m p c r = Some (p + of_nat (length ys))"
proof (induction ys arbitrary: p r)
  case Nil
  then show ?case using strrchr_loop_none [of m "p + 1" zs c p] by (subst strrchr_loop.simps) simp
next
  case (Cons y ys)
  then show ?case by (subst strrchr_loop.simps) (simp add: add.assoc)
qed

lemma strncat_loop_stops:
  assumes "\<forall>i<n. m (src + of_nat i) \<noteq> 0" "\<forall>j\<le>n. \<forall>i<j. src + of_nat j \<noteq> d + of_nat i" "n < 2 ^ 63"
  shows "strncat_loop m d src (of_nat n) = fwd m d src n"
  using assms
proof (induction n arbitrary: m d src)
  case 0
  then show ?case by (subst strncat_loop.simps) simp
next
  case (Suc n)
  have ne: "src + 1 + of_nat i \<noteq> d" if "i < Suc n" for i
    using Suc.prems(2) [rule_format, of "Suc i" 0] that by (simp add: add.assoc)
  have pos: "(of_nat (Suc n) :: size_t) > 0" and dec: "of_nat (Suc n) - 1 = (of_nat n :: size_t)"
    using Suc.prems(3) by (auto simp: word_gt_0 word_of_nat_eq_0_iff dest: dvd_imp_le simp del: of_nat_Suc) simp
  have nz: "m src \<noteq> 0" using Suc.prems(1) [rule_format, of 0] by simp
  have "strncat_loop m d src (of_nat (Suc n)) = strncat_loop (m(d := m src)) (d + 1) (src + 1) (of_nat n)"
    using pos nz by (subst strncat_loop.simps) (simp only: dec if_True simp_thms)
  also have "\<dots> = fwd (m(d := m src)) (d + 1) (src + 1) n"
  proof (rule Suc.IH)
    show "\<forall>i<n. (m(d := m src)) (src + 1 + of_nat i) \<noteq> 0"
    proof (intro allI impI)
      fix i assume "i < n"
      then show "(m(d := m src)) (src + 1 + of_nat i) \<noteq> 0"
        using ne [of i] Suc.prems(1) [rule_format, of "Suc i"] by (simp add: add.assoc)
    qed
    show "\<forall>j\<le>n. \<forall>i<j. src + 1 + of_nat j \<noteq> d + 1 + of_nat i"
    proof (intro allI impI)
      fix j i assume "j \<le> n" "i < j"
      then show "src + 1 + of_nat j \<noteq> d + 1 + of_nat i"
        using Suc.prems(2) [rule_format, of "Suc j" "Suc i"] by (simp add: add.assoc)
    qed
  qed (use Suc.prems(3) in simp)
  finally show ?case by simp
qed

lemma fwd_range: "fwd m d s k a = m a" if "k \<le> unat (a - d)" "k \<le> 2 ^ 63"
proof (rule fwd_other, intro allI impI notI)
  fix i assume i: "i < k" "a = d + of_nat i"
  then have "unat (a - d) = i" using that(2) by (simp add: unat_of_nat)
  then show False using that i by simp
qed

lemma memcpy_reads:
  assumes "unat n < 2 ^ 62" "unat dst + unat n + 8 \<le> 2 ^ 64" "unat src + unat n + 8 \<le> 2 ^ 64"
    and "dst = src \<or> unat (dst - src) \<ge> unat n" "i < unat n"
  shows "memcpy m dst src n (dst + of_nat i) = m (src + of_nat i)"
  unfolding memcpy_fwd [OF assms(1-3)]
  using fwd_correct [of "unat n" "memcpy_len dst src (unat n)" dst src] memcpy_len_bounds [of "unat n" dst src] assms
  by simp

lemma memcpy_frame:
  assumes "unat n < 2 ^ 62" "unat dst + unat n + 8 \<le> 2 ^ 64" "unat src + unat n + 8 \<le> 2 ^ 64"
    and "memcpy_len dst src (unat n) \<le> unat (a - dst)"
  shows "memcpy m dst src n a = m a"
  unfolding memcpy_fwd [OF assms(1-3)]
  by (rule fwd_range) (use memcpy_len_bounds [of "unat n" dst src] assms in auto)

section \<open>Properties\<close>

definition mem0 :: mem where "mem0 a = ucast a"

text \<open>C8: When the regions do not overlap harmfully, \<open>memcpy\<close> fills the destination with the bytes of
  the source; apart from these it may only touch the at most seven bytes up to \<open>memcpy_len\<close>.\<close>

theorem memcpy_copies:
  assumes "unat n < 2 ^ 62" "unat dst + unat n + 8 \<le> 2 ^ 64" "unat src + unat n + 8 \<le> 2 ^ 64"
    and "dst = src \<or> unat (dst - src) \<ge> unat n"
  shows "(\<forall>i<unat n. memcpy m dst src n (dst + of_nat i) = m (src + of_nat i)) \<and>
    (\<forall>a. memcpy_len dst src (unat n) \<le> unat (a - dst) \<longrightarrow> memcpy m dst src n a = m a) \<and>
    memcpy_len dst src (unat n) \<le> unat n + 7"
  using memcpy_reads [OF assms] memcpy_frame [OF assms(1-3)] memcpy_len_bounds by blast

theorem memcpy_copies_witness:
  "memcpy mem0 0x1003 0x2001 13 (0x1003 + of_nat 12) = mem0 (0x2001 + of_nat 12) \<and>
   memcpy mem0 0x1003 0x2001 13 0x1800 = mem0 0x1800"
proof -
  have m: "(\<forall>i<unat (13 :: size_t). memcpy mem0 0x1003 0x2001 13 (0x1003 + of_nat i) = mem0 (0x2001 + of_nat i)) \<and>
    (\<forall>a. memcpy_len 0x1003 0x2001 (unat (13 :: size_t)) \<le> unat (a - 0x1003) \<longrightarrow> memcpy mem0 0x1003 0x2001 13 a = mem0 a) \<and>
    memcpy_len 0x1003 0x2001 (unat (13 :: size_t)) \<le> unat (13 :: size_t) + 7"
    by (rule memcpy_copies) simp_all
  have "memcpy mem0 0x1003 0x2001 13 (0x1003 + of_nat 12) = mem0 (0x2001 + of_nat 12)"
    using spec [OF conjunct1 [OF m], where x = 12] by simp
  moreover have "memcpy mem0 0x1003 0x2001 13 0x1800 = mem0 0x1800"
    using spec [OF conjunct1 [OF conjunct2 [OF m]], where x = "0x1800"] by (simp add: memcpy_len_def)
  ultimately show ?thesis ..
qed

text \<open>Between two word-aligned buffers \<open>memcpy\<close> writes past the end of the destination whenever the
  length is not a multiple of the word size: the word loop tests \<open>d\<close>, which it never advances.\<close>

theorem memcpy_overruns:
  assumes "unat n < 2 ^ 62" "unat dst + unat n + 8 \<le> 2 ^ 64" "unat src + unat n + 8 \<le> 2 ^ 64"
    and "unat (dst - src) > unat n" "8 dvd unat dst" "8 dvd unat src" "8 \<le> unat n" "\<not> 8 dvd unat n"
  shows "memcpy m dst src n (dst + n) = m (src + n)"
proof -
  obtain q where q: "unat dst = 8 * q" using assms(5) by (elim dvdE)
  have "memcpy_len dst src (unat n) = 8 * ((unat n + 7) div 8)"
    using assms(6,7) by (simp add: memcpy_len_def Let_def q mod_eq_0_iff_dvd)
  moreover have "unat n < 8 * ((unat n + 7) div 8)" using assms(8) by presburger
  ultimately have "unat n < memcpy_len dst src (unat n)" by simp
  moreover have "src + of_nat (unat n) \<noteq> dst + of_nat j" if "j < unat n" for j
    by (rule apart [where n = "Suc (unat n)"]) (use that assms(1,4) in auto)
  ultimately have "fwd m dst src (memcpy_len dst src (unat n)) (dst + of_nat (unat n)) = m (src + of_nat (unat n))"
    using memcpy_len_bounds [of "unat n" dst src] assms(1) by (intro fwd_read) auto
  then show ?thesis by (simp add: memcpy_fwd [OF assms(1-3)])
qed

theorem memcpy_overruns_witness: "memcpy mem0 0x1000 0x2000 13 (0x1000 + 13) = mem0 (0x2000 + 13)"
  by (rule memcpy_overruns) simp_all

text \<open>C9: \<open>memmove\<close> fills the destination with the bytes the source held before the call, also when the
  two overlap in either direction.\<close>

theorem memmove_copies:
  assumes "unat n < 2 ^ 62" "unat dst + unat n + 8 \<le> 2 ^ 64" "unat src + unat n + 8 \<le> 2 ^ 64" "i < unat n"
  shows "memmove m dst src n (dst + of_nat i) = m (src + of_nat i)"
proof (cases "n \<le> dst - src")
  case True
  then show ?thesis
    using memcpy_reads [OF assms(1-3) _ assms(4)] by (simp add: memmove_def word_le_nat_alt)
next
  case False
  then have lt: "unat (dst - src) < unat n" by (simp add: word_le_nat_alt)
  have "s' \<noteq> d'" if "j < unat n" "k < j" "s' = src + of_nat k" "d' = dst + of_nat j" for j k s' d'
  proof
    assume "s' = d'"
    then have "dst - src + of_nat (j - k) = 0" using that by (simp add: of_nat_diff algebra_simps)
    then have "of_nat (unat (dst - src) + (j - k)) = (0 :: addr_t)" by simp
    then have "2 ^ 64 dvd unat (dst - src) + (j - k)" by (simp only: word_of_nat_eq_0_iff) simp
    then show False using that lt assms(1) by (auto dest: dvd_imp_le)
  qed
  then have "bwd m dst src (unat n) (dst + of_nat i) = m (src + of_nat i)"
    using assms by (intro bwd_read) auto
  then show ?thesis using False copy_back_bwd [of m dst n src] by (simp add: memmove_def)
qed

theorem memmove_copies_witness: "memmove mem0 0x1003 0x1001 13 (0x1003 + of_nat 5) = mem0 (0x1001 + of_nat 5)"
  by (rule memmove_copies) simp_all

text \<open>\<open>memset\<close> writes the low byte of its argument to the \<open>n\<close> bytes from \<open>p\<close> and nothing else, and
  \<open>memcmp\<close> is zero exactly for equal regions.\<close>

theorem memset_memcmp_correct:
  "memset m p ch n a = (if unat (a - p) < unat n then ucast ch else m a) \<and>
   (memcmp m p q n = 0 \<longleftrightarrow>
     map (\<lambda>i. m (p + of_nat i)) [0..<unat n] = map (\<lambda>i. m (q + of_nat i)) [0..<unat n])"
  by (auto simp: memset_eq memcmp_zero)

definition mem_str :: mem where
  "mem_str a = (if unat a \<in> {10, 13} then 97 else if unat a \<in> {11, 12} then 98 else 0)"

text \<open>C10: On terminated strings, empty ones included, the searches end for every character: \<open>strlen\<close> counts the bytes
  before the terminator, \<open>strcmp\<close> is zero exactly for equal strings, \<open>strchr\<close> finds the first occurrence of a
  character, where the terminator counts as one, and \<open>strrchr\<close> the last one before the terminator; both return the null
  pointer when there is none.\<close>

theorem string_searches_correct:
  assumes "cstr m p xs" "cstr m q ys" "p \<noteq> 0" "q \<noteq> 0"
  shows "strlen m p = Some (of_nat (length xs)) \<and> (\<exists>r. strcmp m p q = Some r \<and> (r = 0 \<longleftrightarrow> xs = ys)) \<and>
    (\<forall>us vs. xs @ [0] = us @ c # vs \<and> c \<notin> set us \<longrightarrow> strchr m p c = Some (p + of_nat (length us))) \<and>
    (c \<notin> set (xs @ [0]) \<longrightarrow> strchr m p c = Some 0) \<and>
    (\<forall>us vs. xs = us @ c # vs \<and> c \<notin> set vs \<longrightarrow> strrchr m p c = Some (p + of_nat (length us))) \<and>
    (c \<notin> set xs \<longrightarrow> strrchr m p c = Some 0)"
proof (intro conjI allI impI)
  show "strlen m p = Some (of_nat (length xs))" by (simp add: strlen_def strlen_loop_cstr [OF assms(1)])
  show "\<exists>r. strcmp m p q = Some r \<and> (r = 0 \<longleftrightarrow> xs = ys)"
    using strcmp_loop_cstr [OF assms(1,2)] assms(3,4) by (simp add: strcmp_def)
  have found: "strchr m p c = Some (if m (p + of_nat k) = c then p + of_nat k else 0)"
    if "k = length (takeWhile (\<lambda>x. x \<noteq> c) xs)" for k
    using strchr_loop_cstr [OF assms(1), of c] assms(3) that by (simp add: strchr_def)
  show "strchr m p c = Some (p + of_nat (length us))" if a: "xs @ [0] = us @ c # vs \<and> c \<notin> set us" for us vs
  proof -
    have "takeWhile (\<lambda>x. x \<noteq> c) xs = us \<and> m (p + of_nat (length us)) = c"
    proof (cases vs rule: rev_cases)
      case Nil
      then have "xs = us" "c = 0" using a by simp_all
      moreover have "takeWhile (\<lambda>x. x \<noteq> c) us = us" using a by (simp add: takeWhile_eq_all_conv) blast
      ultimately show ?thesis using assms(1) by (simp add: cstr_iff)
    next
      case (snoc vs' z)
      then have xs: "xs = us @ c # vs'" using a by simp
      have "takeWhile (\<lambda>x. x \<noteq> c) xs = us" using a unfolding xs by (induction us) auto
      moreover have "m (p + of_nat (length us)) = c" using cstr_nth [OF assms(1), of "length us"] xs by simp
      ultimately show ?thesis by blast
    qed
    then show ?thesis using found [of "length us"] by simp
  qed
  show "strchr m p c = Some 0" if "c \<notin> set (xs @ [0])"
  proof -
    have "takeWhile (\<lambda>x. x \<noteq> c) xs = xs" using that by (auto simp: takeWhile_eq_all_conv)
    then have "length xs = length (takeWhile (\<lambda>x. x \<noteq> c) xs)" by (simp only:)
    from found [OF this] show ?thesis using assms(1) that by (auto simp: cstr_iff)
  qed
  show "strrchr m p c = Some (p + of_nat (length us))" if "xs = us @ c # vs \<and> c \<notin> set vs" for us vs
    using strrchr_loop_last [of m p us c vs] assms(1,3) that by (simp add: strrchr_def)
  show "strrchr m p c = Some 0" if "c \<notin> set xs"
    using strrchr_loop_none [OF assms(1) that] assms(3) by (simp add: strrchr_def)
qed

theorem string_searches_correct_witness:
  "strlen mem_str 10 = Some 4 \<and> strchr mem_str 10 98 = Some 11 \<and> strrchr mem_str 10 98 = Some 12 \<and>
    strchr mem_str 10 99 = Some 0 \<and> strrchr mem_str 10 99 = Some 0 \<and> strchr mem_str 10 0 = Some 14"
proof -
  have c: "cstr mem_str 10 [97, 98, 98, 97]" by (simp add: mem_str_def)
  have p: "(10 :: addr_t) \<noteq> 0" by simp
  note w = string_searches_correct [OF c c p p]
  have "strchr mem_str 10 98 = Some 11" "strrchr mem_str 10 98 = Some 12"
    using w [of 98, THEN conjunct2, THEN conjunct2, THEN conjunct1, rule_format, of "[97]" "[98, 97, 0]"]
      w [of 98, THEN conjunct2, THEN conjunct2, THEN conjunct2, THEN conjunct2, THEN conjunct1, rule_format, of "[97, 98]" "[97]"] by simp_all
  moreover have "strchr mem_str 10 0 = Some 14"
    using w [of 0, THEN conjunct2, THEN conjunct2, THEN conjunct1, rule_format, of "[97, 98, 98, 97]" "[]"] by simp
  moreover have "strlen mem_str 10 = Some 4" "strchr mem_str 10 99 = Some 0" "strrchr mem_str 10 99 = Some 0"
    using w [of 99] by simp_all
  ultimately show ?thesis by blast
qed

text \<open>\<open>strcat\<close> appends a terminated string to another when the copy, terminator included, lies clear
  of the source.\<close>

theorem strcat_appends:
  assumes "cstr m d xs" "cstr m s ys" "d \<noteq> 0" "s \<noteq> 0" "length xs + length ys < 2 ^ 62"
    and "unat d + length xs + length ys < 2 ^ 64" "unat s + length ys < 2 ^ 64"
    and "unat d + length xs + length ys < unat s \<or> unat s + length ys < unat d"
  shows "\<exists>m'. strcat m d s = Some (m', d) \<and> cstr m' d (xs @ ys)"
proof -
  let ?t = "d + of_nat (length xs)" and ?k = "Suc (length ys)"
  have ud: "unat (d + of_nat i) = unat d + i" if "i \<le> length xs + length ys" for i
  proof -
    have "unat (of_nat i :: addr_t) = i" unfolding unat_of_nat using that assms(5) by simp
    then show ?thesis using that assms(6) by (simp add: unat_add_lem [THEN iffD1])
  qed
  have us: "unat (s + of_nat i) = unat s + i" if "i \<le> length ys" for i
  proof -
    have "unat (of_nat i :: addr_t) = i" unfolding unat_of_nat using that assms(5) by simp
    then show ?thesis using that assms(7) by (simp add: unat_add_lem [THEN iffD1])
  qed
  have t: "?t + of_nat i = d + of_nat (length xs + i)" for i by (simp add: add.assoc)
  have clear: "s + of_nat j \<noteq> ?t + of_nat i" if "j \<le> length ys" "i \<le> length ys" for i j
  proof
    assume "s + of_nat j = ?t + of_nat i"
    then have "unat (s + of_nat j) = unat (d + of_nat (length xs + i))" by (simp only: t)
    then show False using us [OF that(1)] ud [of "length xs + i"] that assms(8) by simp
  qed
  have cp: "strcpy_loop m ?t s = Some (fwd m ?t s ?k)"
    by (rule strcpy_loop_cstr [OF assms(2)]) (use clear in auto)
  have new: "fwd m ?t s ?k (?t + of_nat i) = m (s + of_nat i)" if "i < ?k" for i
    by (rule fwd_read) (use that clear assms(5) in auto)
  have old: "fwd m ?t s ?k (d + of_nat i) = m (d + of_nat i)" if "i < length xs" for i
  proof (rule fwd_other, intro allI impI notI)
    fix j assume j: "j < ?k" "d + of_nat i = ?t + of_nat j"
    then have "unat (d + of_nat i) = unat (d + of_nat (length xs + j))" by (simp only: t)
    then show False using ud [of i] ud [of "length xs + j"] that j(1) by simp
  qed
  have "cstr (fwd m ?t s ?k) d (xs @ ys)"
    unfolding cstr_iff
  proof (intro conjI allI impI)
    fix i assume i: "i < length (xs @ ys)"
    have "fwd m ?t s ?k (d + of_nat i) = (xs @ ys) ! i \<and> (xs @ ys) ! i \<noteq> 0"
    proof (cases "i < length xs")
      case True
      then show ?thesis using old [OF True] assms(1) by (simp add: cstr_iff nth_append)
    next
      case False
      then obtain k where k: "i = length xs + k" "k < length ys"
        using i by (auto simp: not_less dest: le_Suc_ex)
      then have "fwd m ?t s ?k (d + of_nat i) = m (s + of_nat k)"
        using new [of k] unfolding t by simp
      then show ?thesis using k assms(2) by (simp add: cstr_iff nth_append)
    qed
    then show "fwd m ?t s ?k (d + of_nat i) = (xs @ ys) ! i" "(xs @ ys) ! i \<noteq> 0" by simp_all
  next
    have "fwd m ?t s ?k (d + of_nat (length (xs @ ys))) = m (s + of_nat (length ys))"
      using new [of "length ys"] unfolding t length_append by simp
    then show "fwd m ?t s ?k (d + of_nat (length (xs @ ys))) = 0"
      using assms(2) by (simp add: cstr_iff)
  qed
  then show ?thesis using assms(3,4) cp by (simp add: strcat_def cstr_end [OF assms(1)])
qed

theorem strcat_appends_witness:
  "\<exists>m'. strcat mem_str 30 10 = Some (m', 30) \<and> cstr m' 30 ([] @ [97, 98, 98, 97])"
  by (rule strcat_appends) (simp_all add: mem_str_def)

text \<open>When \<open>strncat\<close> stops because the count is used up it writes no terminator: the byte behind the
  copied ones keeps its old value.\<close>

theorem strncat_leaves_unterminated:
  assumes "\<forall>i<n. m (s + of_nat i) \<noteq> 0" "n < 2 ^ 62" "d \<noteq> 0" "s \<noteq> 0" "m d = 0" "d = s \<or> unat (d - s) > n"
  shows "\<exists>m'. strncat m d s (of_nat n) = Some (m', d) \<and> m' (d + of_nat n) = m (d + of_nat n)"
proof -
  have "str_end m d = Some d" using assms(5) by (subst str_end.simps) simp
  moreover have "strncat_loop m d s (of_nat n) = fwd m d s n"
  proof (rule strncat_loop_stops [OF assms(1)])
    show "\<forall>j\<le>n. \<forall>i<j. s + of_nat j \<noteq> d + of_nat i"
    proof (intro allI impI)
      fix j i assume "j \<le> n" "i < j"
      then show "s + of_nat j \<noteq> d + of_nat i"
        by (intro apart [where n = "Suc n"]) (use assms(2,6) in auto)
    qed
  qed (use assms(2) in simp)
  moreover have "fwd m d s n (d + of_nat n) = m (d + of_nat n)"
    by (rule fwd_range) (use assms(2) in \<open>simp_all add: unat_of_nat\<close>)
  ultimately show ?thesis using assms(3,4) by (simp add: strncat_def)
qed

theorem strncat_leaves_unterminated_witness:
  "\<exists>m'. strncat mem_str 30 10 (of_nat 3) = Some (m', 30) \<and> m' (30 + of_nat 3) = mem_str (30 + of_nat 3)"
  by (rule strncat_leaves_unterminated) (auto simp: mem_str_def less_Suc_eq numeral_3_eq_3)

text \<open>\<open>strncmp\<close> does not stop at the terminator: equal strings compare as different when the bytes
  behind their terminators differ.\<close>

theorem strncmp_reads_past_terminator:
  assumes "cstr m p xs" "cstr m q xs" "p \<noteq> 0" "q \<noteq> 0" "length xs + 1 < unat n"
    and "m (p + of_nat (length xs + 1)) \<noteq> m (q + of_nat (length xs + 1))"
  shows "strncmp m p q n \<noteq> 0"
proof -
  have l: "strncmp_loop m p q (of_nat i) n \<noteq> 0" if "i \<le> length xs + 1" for i
    using that
  proof (induction "length xs + 1 - i" arbitrary: i)
    case 0
    then have i: "i = length xs + 1" by simp
    have "unat n < 2 ^ 64" using unsigned_less [of n] by simp
    then have "unat (of_nat i :: size_t) = i" unfolding unat_of_nat using i assms(5) by simp
    then have "of_nat i < n" using i assms(5) by (simp add: word_less_nat_alt)
    moreover have "m (p + of_nat i) \<noteq> m (q + of_nat i)" unfolding i by (rule assms(6))
    ultimately show ?case by (subst strncmp_loop.simps) (simp add: scast_byte_eq)
  next
    case (Suc k)
    then have i: "i \<le> length xs" by simp
    have "unat n < 2 ^ 64" using unsigned_less [of n] by simp
    then have "unat (of_nat i :: size_t) = i" unfolding unat_of_nat using i assms(5) by simp
    then have "of_nat i < n" using i assms(5) by (simp add: word_less_nat_alt)
    moreover have "m (p + of_nat i) = m (q + of_nat i)"
      using assms(1,2) i by (cases "i = length xs") (auto simp: cstr_iff)
    moreover have "strncmp_loop m p q (of_nat (Suc i)) n \<noteq> 0"
      by (rule Suc.hyps(1)) (use Suc.hyps(2) i in simp_all)
    ultimately show ?case by (subst strncmp_loop.simps) (simp add: add.commute)
  qed
  show ?thesis using l [of 0] assms(3,4) by (simp add: strncmp_def)
qed

theorem strncmp_reads_past_terminator_witness:
  "strncmp (mem_str(20 := 97, 21 := 0, 22 := 1)) 13 20 3 \<noteq> 0"
  by (rule strncmp_reads_past_terminator [where xs = "[97]"]) (simp_all add: mem_str_def)

end
