(* ===== verification/Layout.thy ===== *)
theory Layout
  imports CString
begin

text \<open>
  Fields of C structures in the byte memory of \<open>CString\<close>: little-endian loads and stores of 16, 32
  and 64 bits, as x86 does them, with the facts that a load returns what was stored at its address and
  is not disturbed by a store elsewhere.  A \<open>struct\<close> is read field by field at the offsets the
  compiler gives its members.
\<close>

section \<open>Little-endian objects in memory\<close>

fun load_le :: "mem \<Rightarrow> addr_t \<Rightarrow> nat \<Rightarrow> nat" where
  "load_le m p 0 = 0"
| "load_le m p (Suc n) = unat (m p) + 256 * load_le m (p + 1) n"

definition load_u16 :: "mem \<Rightarrow> addr_t \<Rightarrow> u16" where "load_u16 m p = of_nat (load_le m p 2)"
definition load_u32 :: "mem \<Rightarrow> addr_t \<Rightarrow> u32" where "load_u32 m p = of_nat (load_le m p 4)"
definition load_u64 :: "mem \<Rightarrow> addr_t \<Rightarrow> u64" where "load_u64 m p = of_nat (load_le m p 8)"

fun le_bytes :: "nat \<Rightarrow> nat \<Rightarrow> u8 list" where
  "le_bytes 0 v = []"
| "le_bytes (Suc n) v = of_nat v # le_bytes n (v div 256)"

definition store_u16 :: "mem \<Rightarrow> addr_t \<Rightarrow> u16 \<Rightarrow> mem" where
  "store_u16 m p v = store_bytes m p (le_bytes 2 (unat v))"
definition store_u32 :: "mem \<Rightarrow> addr_t \<Rightarrow> u32 \<Rightarrow> mem" where
  "store_u32 m p v = store_bytes m p (le_bytes 4 (unat v))"
definition store_u64 :: "mem \<Rightarrow> addr_t \<Rightarrow> u64 \<Rightarrow> mem" where
  "store_u64 m p v = store_bytes m p (le_bytes 8 (unat v))"

lemma load_le_cong: "(\<And>i. i < n \<Longrightarrow> m (p + of_nat i) = m' (p + of_nat i)) \<Longrightarrow> load_le m p n = load_le m' p n"
proof (induction n arbitrary: p)
  case (Suc n)
  have "load_le m (p + 1) n = load_le m' (p + 1) n"
    by (rule Suc.IH) (use Suc.prems [of "Suc i" for i] in \<open>simp add: algebra_simps\<close>)
  then show ?case using Suc.prems [of 0] by simp
qed simp

lemma length_le_bytes [simp]: "length (le_bytes n v) = n"
  by (induction n arbitrary: v) auto

lemma store_bytes_other: "(\<And>i. i < length bs \<Longrightarrow> a \<noteq> p + of_nat i) \<Longrightarrow> store_bytes m p bs a = m a"
proof (induction bs arbitrary: m p)
  case (Cons b bs)
  have "store_bytes (m(p := b)) (p + 1) bs a = (m(p := b)) a"
    by (rule Cons.IH) (use Cons.prems [of "Suc i" for i] in \<open>simp add: algebra_simps\<close>)
  then show ?case using Cons.prems [of 0] by simp
qed simp

lemma load_le_store:
  assumes "n \<le> 8"
  shows "load_le (store_bytes m p (le_bytes n v)) p n = v mod 256 ^ n"
  using assms
proof (induction n arbitrary: m p v)
  case (Suc n)
  have ne: "p \<noteq> p + 1 + of_nat i" if "i < n" for i
  proof
    assume "p = p + 1 + of_nat i"
    then have "(1 + of_nat i :: addr_t) = 0" by (simp add: algebra_simps)
    then have "unat (of_nat (Suc i) :: addr_t) = 0" by simp
    then show False using that Suc.prems by (simp only: unat_of_nat) simp
  qed
  have "store_bytes (m(p := of_nat v)) (p + 1) (le_bytes n (v div 256)) p = of_nat v"
    by (subst store_bytes_other) (use ne in auto)
  then show ?case
    using Suc.IH [of "m(p := of_nat v)" "p + 1" "v div 256"] Suc.prems
    by (simp add: unat_of_nat mod_mult2_eq del: fun_upd_apply)
qed simp

lemma of_nat_unat_mod: "of_nat (unat v mod 2 ^ LENGTH('a)) = (v :: 'a::len word)"
  by (subst mod_less [OF unsigned_less]) simp

lemma load_store_u32: "load_u32 (store_u32 m p v) p = v"
  using load_le_store [of 4 m p "unat v"] of_nat_unat_mod [of v] by (simp add: load_u32_def store_u32_def)

lemma load_store_u64: "load_u64 (store_u64 m p v) p = v"
  using load_le_store [of 8 m p "unat v"] of_nat_unat_mod [of v] by (simp add: load_u64_def store_u64_def)

lemma load_store_u16: "load_u16 (store_u16 m p v) p = v"
  using load_le_store [of 2 m p "unat v"] of_nat_unat_mod [of v] by (simp add: load_u16_def store_u16_def)

lemma offset_ne:
  fixes p q :: addr_t
  assumes "n \<le> unat (p - q)" "k \<le> unat (q - p)" "i < k" "j < n"
  shows "p + of_nat i \<noteq> q + of_nat j"
proof
  assume e: "p + of_nat i = q + of_nat j"
  consider "i \<le> j" | "j \<le> i" by linarith
  then show False
  proof cases
    case 1
    then have "p - q = of_nat (j - i)" using e by (simp add: of_nat_diff algebra_simps)
    then have "unat (p - q) \<le> j - i" by (metis le_unat_uoi linear)
    then show False using assms(1,4) by linarith
  next
    case 2
    then have "q - p = of_nat (i - j)" using e by (simp add: of_nat_diff algebra_simps)
    then have "unat (q - p) \<le> i - j" by (metis le_unat_uoi linear)
    then show False using assms(2,3) by linarith
  qed
qed

lemma load_le_store_other:
  assumes "n \<le> unat (p - q)" "k \<le> unat (q - p)"
  shows "load_le (store_bytes m q (le_bytes n v)) p k = load_le m p k"
  by (rule load_le_cong, rule store_bytes_other) (use offset_ne [OF assms] in auto)

section \<open>Concrete memories\<close>

definition mem_of :: "addr_t \<Rightarrow> u8 list \<Rightarrow> mem" where
  "mem_of base bs a = (if unat (a - base) < length bs then bs ! unat (a - base) else 0)"

fun le_val :: "u8 list \<Rightarrow> nat" where
  "le_val [] = 0"
| "le_val (b # bs) = unat b + 256 * le_val bs"

lemma load_le_mem_of:
  assumes "unat (a - base) + n \<le> length bs" "length bs < 2 ^ 64"
  shows "load_le (mem_of base bs) a n = le_val (take n (drop (unat (a - base)) bs))"
  using assms
proof (induction n arbitrary: a)
  case (Suc n)
  let ?k = "unat (a - base)"
  have lt: "?k + unat (1 :: addr_t) < 2 ^ LENGTH(64)" using Suc.prems by simp
  have "a + 1 - base = (a - base) + 1" by simp
  then have s: "unat (a + 1 - base) = Suc ?k" using lt by (simp only: unat_add_lem [THEN iffD1] unsigned_1)
  moreover have "drop ?k bs = bs ! ?k # drop (Suc ?k) bs" using Suc.prems by (intro Cons_nth_drop_Suc [symmetric]) simp
  ultimately show ?case
    using Suc.IH [of "a + 1", unfolded s] Suc.prems by (simp add: mem_of_def)
qed simp

lemma loads_mem_of:
  "unat (a - base) + 2 \<le> length bs \<Longrightarrow> length bs < 2 ^ 64 \<Longrightarrow>
    load_u16 (mem_of base bs) a = of_nat (le_val (take 2 (drop (unat (a - base)) bs)))"
  "unat (a - base) + 4 \<le> length bs \<Longrightarrow> length bs < 2 ^ 64 \<Longrightarrow>
    load_u32 (mem_of base bs) a = of_nat (le_val (take 4 (drop (unat (a - base)) bs)))"
  "unat (a - base) + 8 \<le> length bs \<Longrightarrow> length bs < 2 ^ 64 \<Longrightarrow>
    load_u64 (mem_of base bs) a = of_nat (le_val (take 8 (drop (unat (a - base)) bs)))"
  by (simp_all add: load_u16_def load_u32_def load_u64_def load_le_mem_of)

section \<open>Words that do not overlap\<close>

definition apart8 :: "addr_t \<Rightarrow> addr_t \<Rightarrow> bool" where
  "apart8 x y \<longleftrightarrow> 8 \<le> unat (x - y) \<and> 8 \<le> unat (y - x)"

lemma neg_of_nat:
  assumes "0 < d" "d < 2 ^ 64"
  shows "unat (- (of_nat d :: addr_t)) = 2 ^ 64 - d"
proof -
  have "of_nat (2 ^ 64 - d) + (of_nat d :: addr_t) = of_nat (2 ^ 64)"
    unfolding of_nat_add [symmetric] using assms by (simp only: le_add_diff_inverse2 less_imp_le)
  also have "\<dots> = (0 :: addr_t)" by simp
  finally have "- (of_nat d :: addr_t) = of_nat (2 ^ 64 - d)" by (simp add: eq_neg_iff_add_eq_0 [symmetric])
  then show ?thesis using assms by (simp only: unat_of_nat) simp
qed

lemma apart8_offsets:
  assumes "o1 + 8 \<le> o2" "o2 \<le> 0x4000000000000000"
  shows "apart8 (a + of_nat o1) (a + of_nat o2)" "apart8 (a + of_nat o2) (a + of_nat o1)"
proof -
  define d where "d = o2 - o1"
  have d: "8 \<le> d" "d \<le> 0x4000000000000000" "o2 = o1 + d" using assms by (auto simp: d_def)
  have "(a + of_nat o1) - (a + of_nat o2) = - (of_nat d :: addr_t)" "(a + of_nat o2) - (a + of_nat o1) = (of_nat d :: addr_t)"
    by (simp_all add: d(3))
  moreover have "unat (- (of_nat d :: addr_t)) = 2 ^ 64 - d" by (rule neg_of_nat) (use d in simp_all)
  moreover have "unat (of_nat d :: addr_t) = d" using d by (simp add: unat_of_nat)
  ultimately show "apart8 (a + of_nat o1) (a + of_nat o2)" "apart8 (a + of_nat o2) (a + of_nat o1)"
    using d by (simp_all add: apart8_def)
qed

lemma load_u64_apart: "apart8 x q \<Longrightarrow> load_u64 (store_u64 m q v) x = load_u64 m x"
  using load_le_store_other [of 8 x q 8 m "unat v"] by (simp add: apart8_def load_u64_def store_u64_def)

lemma load_u64_cong: "(\<And>i. i < 8 \<Longrightarrow> m' (x + of_nat i) = m (x + of_nat i)) \<Longrightarrow> load_u64 m' x = load_u64 m x"
  unfolding load_u64_def by (subst load_le_cong) auto

end
