(* ===== verification/Multiboot.thy ===== *)
theory Multiboot
  imports Layout
begin

text \<open>
  The boot information of \<open>src/kernel/multiboot2.c\<close>: the tag list the boot loader leaves in memory, with the
  structures of \<open>include/kernel/multiboot2_s.h\<close> the kernel reads.  The loops that follow sizes found in
  memory are \<open>partial_function\<close>s: \<open>None\<close> is a loop that never ends.
\<close>

section \<open>Structures of kernel/multiboot2_s.h\<close>

definition MULTIBOOT_TAG_TYPE_END :: u32 where "MULTIBOOT_TAG_TYPE_END = 0"
definition MULTIBOOT_TAG_TYPE_CMDLINE :: u32 where "MULTIBOOT_TAG_TYPE_CMDLINE = 1"
definition MULTIBOOT_TAG_TYPE_MMAP :: u32 where "MULTIBOOT_TAG_TYPE_MMAP = 6"
definition MULTIBOOT_TAG_TYPE_FRAMEBUFFER :: u32 where "MULTIBOOT_TAG_TYPE_FRAMEBUFFER = 8"
definition MULTIBOOT_TAG_TYPE_ACPI_OLD :: u32 where "MULTIBOOT_TAG_TYPE_ACPI_OLD = 14"
definition MULTIBOOT_TAG_TYPE_ACPI_NEW :: u32 where "MULTIBOOT_TAG_TYPE_ACPI_NEW = 15"
definition MULTIBOOT_MEMORY_AVAILABLE :: u32 where "MULTIBOOT_MEMORY_AVAILABLE = 1"

lemmas multiboot_consts = MULTIBOOT_TAG_TYPE_END_def MULTIBOOT_TAG_TYPE_CMDLINE_def MULTIBOOT_TAG_TYPE_MMAP_def
  MULTIBOOT_TAG_TYPE_FRAMEBUFFER_def MULTIBOOT_TAG_TYPE_ACPI_OLD_def MULTIBOOT_TAG_TYPE_ACPI_NEW_def MULTIBOOT_MEMORY_AVAILABLE_def

text \<open>A \<open>struct multiboot_tag *\<close> is its address; the accessors read the members.\<close>

definition tag_type :: "mem \<Rightarrow> addr_t \<Rightarrow> u32" where "tag_type m tag = load_u32 m tag"
definition tag_size :: "mem \<Rightarrow> addr_t \<Rightarrow> u32" where "tag_size m tag = load_u32 m (tag + 4)"
definition tag_string :: "addr_t \<Rightarrow> addr_t" where "tag_string tag = tag + 8"

definition mmap_entry_size :: "mem \<Rightarrow> addr_t \<Rightarrow> u32" where "mmap_entry_size m tag = load_u32 m (tag + 8)"
definition mmap_entries :: "addr_t \<Rightarrow> addr_t" where "mmap_entries tag = tag + 16"

record mmap_entry =
  mm_addr :: u64
  mm_len :: u64
  mm_type :: u32
  mm_zero :: u32

definition read_mmap_entry :: "mem \<Rightarrow> addr_t \<Rightarrow> mmap_entry" where
  "read_mmap_entry m p = \<lparr>mm_addr = load_u64 m p, mm_len = load_u64 m (p + 8),
     mm_type = load_u32 m (p + 16), mm_zero = load_u32 m (p + 20)\<rparr>"

section \<open>The tag list: kernel/multiboot2.c\<close>

definition mboot_info_init :: "mem \<Rightarrow> addr_t \<Rightarrow> addr_t" where
  "mboot_info_init m mboot_info = mboot_info + ucast (load_u32 m mboot_info)"

definition next_tag :: "mem \<Rightarrow> addr_t \<Rightarrow> addr_t" where
  "next_tag m tag = tag + ucast ((tag_size m tag + 7) AND NOT 7)"

partial_function (option) tag_search :: "mem \<Rightarrow> addr_t \<Rightarrow> u32 \<Rightarrow> addr_t option" where
  "tag_search m tag ty =
     (if tag_type m tag = MULTIBOOT_TAG_TYPE_END then Some 0
      else if tag_type m tag = ty then Some tag
      else tag_search m (next_tag m tag) ty)"

definition mboot_get_mboot_info :: "mem \<Rightarrow> addr_t \<Rightarrow> u32 \<Rightarrow> addr_t option" where
  "mboot_get_mboot_info m mboot_info ty = tag_search m (mboot_info + 8) ty"

partial_function (option) mmap_walk :: "mem \<Rightarrow> addr_t \<Rightarrow> addr_t \<Rightarrow> mmap_entry list option" where
  "mmap_walk m tag cur =
     (if cur < tag + ucast (tag_size m tag)
      then Option.bind (mmap_walk m tag (cur + ucast (mmap_entry_size m tag)))
             (\<lambda>rest. Some (read_mmap_entry m cur # rest))
      else Some [])"

definition for_mmap :: "mem \<Rightarrow> addr_t \<Rightarrow> mmap_entry list option" where
  "for_mmap m tag = mmap_walk m tag (mmap_entries tag)"

text \<open>\<open>mboot_info_show\<close> only logs; the model returns the messages.\<close>

datatype mboot_msg = Announced addr_t u32 | CommandLine addr_t | MmapHeader | MmapEntry u64 u64 u32

definition tag_messages :: "mem \<Rightarrow> addr_t \<Rightarrow> mboot_msg list option" where
  "tag_messages m tag =
     (if tag_type m tag = MULTIBOOT_TAG_TYPE_CMDLINE then Some [CommandLine (tag_string tag)]
      else if tag_type m tag = MULTIBOOT_TAG_TYPE_MMAP
      then map_option (\<lambda>es. MmapHeader # map (\<lambda>e. MmapEntry (mm_addr e) (mm_len e) (mm_type e)) es) (for_mmap m tag)
      else Some [])"

partial_function (option) show_tags :: "mem \<Rightarrow> addr_t \<Rightarrow> mboot_msg list option" where
  "show_tags m tag =
     (if tag_type m tag = MULTIBOOT_TAG_TYPE_END then Some []
      else Option.bind (tag_messages m tag) (\<lambda>msgs.
           Option.bind (show_tags m (next_tag m tag)) (\<lambda>rest. Some (msgs @ rest))))"

definition mboot_info_show :: "mem \<Rightarrow> addr_t \<Rightarrow> mboot_msg list option" where
  "mboot_info_show m mboot_info =
     map_option (\<lambda>msgs. Announced mboot_info (load_u32 m mboot_info) # msgs) (show_tags m (mboot_info + 8))"

section \<open>Tag lists in memory\<close>

text \<open>\<open>tags_at m a ts\<close>: from \<open>a\<close> the memory holds the tags at the addresses \<open>ts\<close>, then the end tag.\<close>

inductive tags_at :: "mem \<Rightarrow> addr_t \<Rightarrow> addr_t list \<Rightarrow> bool" for m where
  tags_end: "tag_type m a = MULTIBOOT_TAG_TYPE_END \<Longrightarrow> tags_at m a []"
| tags_next: "tag_type m a \<noteq> MULTIBOOT_TAG_TYPE_END \<Longrightarrow> tags_at m (next_tag m a) ts \<Longrightarrow> tags_at m a (a # ts)"

inductive_cases tags_nilE: "tags_at m a []"
inductive_cases tags_consE: "tags_at m a (t # ts)"

lemma tag_search_tags:
  "tags_at m a ts \<Longrightarrow> tag_search m a ty = Some (case filter (\<lambda>t. tag_type m t = ty) ts of [] \<Rightarrow> 0 | t # _ \<Rightarrow> t)"
proof (induction rule: tags_at.induct)
  case (tags_end a)
  then show ?case by (subst tag_search.simps) simp
next
  case (tags_next a ts)
  then show ?case by (subst tag_search.simps) simp
qed

lemma unat_ucast32: "unat (ucast (x :: u32) :: addr_t) = unat x"
proof -
  have "unat x < 2 ^ LENGTH(32)" by (rule unsigned_less)
  then show ?thesis by (simp add: unsigned_ucast_eq take_bit_nat_eq_self)
qed

text \<open>A walk that comes back to where it was never ends.\<close>

lemma tag_search_loop:
  assumes "tag_search m a ty = Some r" "tag_type m a \<noteq> MULTIBOOT_TAG_TYPE_END" "tag_type m a \<noteq> ty"
  shows "next_tag m a \<noteq> a"
  using assms
proof (induction rule: tag_search.raw_induct [rotated 1, consumes 1, case_names step])
  case (step f m a ty r)
  then show ?case by (auto split: if_splits)
qed

lemma mmap_walk_loop:
  assumes "mmap_walk m tag cur = Some r" "mmap_entry_size m tag = 0"
  shows "\<not> cur < tag + ucast (tag_size m tag)"
  using assms
proof (induction rule: mmap_walk.raw_induct [rotated 1, consumes 1, case_names step])
  case (step f m tag cur r)
  then show ?case by (auto split: if_splits bind_splits)
qed

lemma mmap_walk_entries:
  assumes "unat tag + unat (tag_size m tag) < 2 ^ 64" "0 < unat (mmap_entry_size m tag)"
    and "unat cur + k * unat (mmap_entry_size m tag) = unat tag + unat (tag_size m tag)"
  shows "mmap_walk m tag cur = Some (map (\<lambda>i. read_mmap_entry m (cur + of_nat (i * unat (mmap_entry_size m tag)))) [0..<k])"
  using assms(3)
proof (induction k arbitrary: cur)
  let ?s = "unat (mmap_entry_size m tag)"
  let ?e = "tag + ucast (tag_size m tag) :: addr_t"
  have e: "unat ?e = unat tag + unat (tag_size m tag)"
    using assms(1) by (subst unat_add_lem [THEN iffD1]) (simp_all add: unat_ucast32)
  { case 0
    then have "\<not> cur < ?e" using e by (simp add: word_less_nat_alt)
    then show ?case by (subst mmap_walk.simps) simp }
  { case (Suc k)
    then have lt: "cur < ?e" using e assms(2) by (simp add: word_less_nat_alt)
    let ?c = "cur + ucast (mmap_entry_size m tag) :: addr_t"
    have "unat ?c = unat cur + ?s"
      using Suc.prems assms(1) by (subst unat_add_lem [THEN iffD1]) (simp_all add: unat_ucast32)
    then have ih: "mmap_walk m tag ?c = Some (map (\<lambda>i. read_mmap_entry m (?c + of_nat (i * ?s))) [0..<k])"
      by (intro Suc.IH) (use Suc.prems in simp)
    have "ucast (mmap_entry_size m tag) = (of_nat ?s :: addr_t)" by simp
    then have "(\<lambda>i. read_mmap_entry m (?c + of_nat (i * ?s))) = (\<lambda>i. read_mmap_entry m (cur + of_nat (Suc i * ?s)))"
      by (simp add: algebra_simps)
    then show ?case
      using lt by (subst mmap_walk.simps) (simp add: ih upt_conv_Cons map_Suc_upt [symmetric] comp_def algebra_simps del: upt_Suc) }
qed

section \<open>Properties\<close>

text \<open>A small information block: a command line, a memory map of two entries, the end tag.\<close>

definition boot_bytes :: "u8 list" where
  "boot_bytes = [96, 0, 0, 0,  0, 0, 0, 0,
     1, 0, 0, 0,  10, 0, 0, 0,  103, 0,  0, 0, 0, 0, 0, 0,
     6, 0, 0, 0,  64, 0, 0, 0,  24, 0, 0, 0,  0, 0, 0, 0,
       0, 0, 0, 0, 0, 0, 0, 0,  0, 240, 9, 0, 0, 0, 0, 0,  1, 0, 0, 0,  0, 0, 0, 0,
       0, 0, 16, 0, 0, 0, 0, 0,  0, 0, 48, 0, 0, 0, 0, 0,  1, 0, 0, 0,  0, 0, 0, 0,
     0, 0, 0, 0,  8, 0, 0, 0]"

definition boot_mem :: mem where "boot_mem = mem_of 0x1000 boot_bytes"

lemma boot_mem_loads:
  "load_u32 boot_mem 0x1000 = 96" "load_u32 boot_mem 0x1008 = 1" "load_u32 boot_mem 0x100C = 10"
  "load_u32 boot_mem 0x1018 = 6" "load_u32 boot_mem 0x101C = 64" "load_u32 boot_mem 0x1020 = 24"
  "load_u32 boot_mem 0x1058 = 0"
  "read_mmap_entry boot_mem 0x1028 = \<lparr>mm_addr = 0, mm_len = 0x9F000, mm_type = 1, mm_zero = 0\<rparr>"
  "read_mmap_entry boot_mem 0x1040 = \<lparr>mm_addr = 0x100000, mm_len = 0x300000, mm_type = 1, mm_zero = 0\<rparr>"
  by (simp_all add: boot_mem_def boot_bytes_def loads_mem_of read_mmap_entry_def)

lemma boot_tags: "tags_at boot_mem 0x1008 [0x1008, 0x1018]"
proof -
  have n: "next_tag boot_mem 0x1008 = 0x1018" "next_tag boot_mem 0x1018 = 0x1058"
    by (simp_all add: tag_size_def next_tag_def boot_mem_loads)
  have "tags_at boot_mem 0x1058 []" by (rule tags_end) (simp add: tag_type_def boot_mem_loads multiboot_consts)
  then have "tags_at boot_mem 0x1018 [0x1018]"
    by (intro tags_next) (simp_all add: n tag_type_def boot_mem_loads multiboot_consts)
  then show ?thesis by (intro tags_next) (simp_all add: n tag_type_def boot_mem_loads multiboot_consts)
qed

text \<open>C16: On a well-formed information block \<open>mboot_get_mboot_info\<close> ends and returns the first tag of the
  type asked for, or the null pointer when there is none; on a tag of size zero that is not the one it
  looks for the search never ends.\<close>

theorem mboot_search_correct:
  assumes "tags_at m (info + 8) ts" "next_tag m a = a" "tag_type m a \<notin> {MULTIBOOT_TAG_TYPE_END, ty}"
  shows "mboot_get_mboot_info m info ty = Some (case filter (\<lambda>t. tag_type m t = ty) ts of [] \<Rightarrow> 0 | t # _ \<Rightarrow> t) \<and>
    tag_search m a ty = None"
proof
  show "mboot_get_mboot_info m info ty = Some (case filter (\<lambda>t. tag_type m t = ty) ts of [] \<Rightarrow> 0 | t # _ \<Rightarrow> t)"
    unfolding mboot_get_mboot_info_def by (rule tag_search_tags [OF assms(1)])
  show "tag_search m a ty = None"
    using tag_search_loop [of m a ty] assms(2,3) by (cases "tag_search m a ty") auto
qed

theorem mboot_search_correct_witness:
  "mboot_get_mboot_info boot_mem 0x1000 MULTIBOOT_TAG_TYPE_MMAP = Some 0x1018 \<and>
   tag_search boot_mem 0x1010 MULTIBOOT_TAG_TYPE_MMAP = None"
proof -
  have "tag_type boot_mem 0x1010 = 0x67" "tag_size boot_mem 0x1010 = 0"
    by (simp_all add: boot_mem_def boot_bytes_def loads_mem_of tag_type_def tag_size_def)
  then have "tag_type boot_mem 0x1010 \<notin> {MULTIBOOT_TAG_TYPE_END, MULTIBOOT_TAG_TYPE_MMAP}" "next_tag boot_mem 0x1010 = 0x1010"
    by (simp_all add: multiboot_consts next_tag_def)
  then show ?thesis
    using mboot_search_correct [of boot_mem "0x1000" "[0x1008, 0x1018]" "0x1010" MULTIBOOT_TAG_TYPE_MMAP] boot_tags
    by (simp add: tag_type_def boot_mem_loads multiboot_consts)
qed

lemma boot_mmap: "for_mmap boot_mem 0x1018 = Some
  [\<lparr>mm_addr = 0, mm_len = 0x9F000, mm_type = 1, mm_zero = 0\<rparr>, \<lparr>mm_addr = 0x100000, mm_len = 0x300000, mm_type = 1, mm_zero = 0\<rparr>]"
proof -
  have e: "unat (tag_size boot_mem 0x1018) = 64" "unat (mmap_entry_size boot_mem 0x1018) = 24"
    by (simp_all add: tag_size_def mmap_entry_size_def boot_mem_loads)
  have "mmap_walk boot_mem 0x1018 0x1028 =
      Some (map (\<lambda>i. read_mmap_entry boot_mem (0x1028 + of_nat (i * unat (mmap_entry_size boot_mem 0x1018)))) [0..<2])"
    by (rule mmap_walk_entries) (simp_all add: e)
  moreover have "[0..<2] = [0, 1]" by (simp add: upt_rec)
  ultimately show ?thesis
    by (simp add: for_mmap_def mmap_entries_def e boot_mem_loads)
qed

end
