(* ===== verification/PhysMem.thy ===== *)
theory PhysMem
  imports Bitmap Buddy Multiboot
begin

text \<open>
  The physical memory manager, \<open>src/kernel/mm/memory.c\<close>: the bump allocator of early start-up, the bitmap of
  physical pages with its first-fit allocator, the hand-over of the free pages to the buddy allocator and
  the interface \<open>mm_phy_page_alloc\<close>, \<open>mm_phy_page_zalloc\<close>, \<open>mm_phy_page_free\<close>.  The static variables of the
  file are the record \<open>pmm\<close>; \<open>pm_mem\<close> is the byte memory behind the kernel's direct mapping, at its
  virtual addresses.  The bitmap and the page array start with the bytes the memory holds at their place
  and are separate objects from then on.  The linker symbol \<open>kern_end\<close> and the
  variables \<open>mboot_info\<close>, \<open>mboot_info_end\<close> of \<open>multiboot2.c\<close> are fields too.  Messages of \<open>error\<close> and \<open>warning\<close> are left out: both macros return, and so does the model.
\<close>

section \<open>State and constants\<close>

definition PGSIZE :: addr_t where "PGSIZE = 4096"
definition PGSHIFT :: nat where "PGSHIFT = 12"
definition PGOFF :: "addr_t \<Rightarrow> addr_t" where "PGOFF la = la AND 0xFFF"
definition KERN_BASE :: addr_t where "KERN_BASE = 0xFFFF800000000000"
definition kaddr :: "addr_t \<Rightarrow> addr_t" where "kaddr a = a + KERN_BASE"
definition paddr :: "addr_t \<Rightarrow> addr_t" where "paddr a = a - KERN_BASE"

definition MEM_PAGE_AVAIL :: cint where "MEM_PAGE_AVAIL = 0"
definition MEM_PAGE_USED :: cint where "MEM_PAGE_USED = 1"

record pmm =
  pm_zone :: zone
  pm_map :: bitmap
  reserved_end :: addr_t
  pfn_max :: size_t
  phy_addr_limit :: addr_t
  reserved_mem_ready :: bool
  buddy_mem_ready :: bool
  mm_ready :: bool
  pm_mem :: mem
  kern_end :: addr_t
  mboot_info :: addr_t
  mboot_info_end :: addr_t

section \<open>The early allocator\<close>

definition reserved_mem_allocator_init :: "pmm \<Rightarrow> pmm" where
  "reserved_mem_allocator_init s =
     (if reserved_mem_ready s then s
      else let re = (if paddr (mboot_info_end s) > kern_end s then paddr (mboot_info_end s) else kern_end s)
           in s\<lparr>reserved_end := align re PGSIZE, reserved_mem_ready := True\<rparr>)"

definition reserved_mem_alloc :: "pmm \<Rightarrow> size_t \<Rightarrow> pmm \<times> addr_t" where
  "reserved_mem_alloc s sz = (s\<lparr>reserved_end := align (reserved_end s + sz) PGSIZE\<rparr>, reserved_end s)"

section \<open>The bitmap allocator\<close>

text \<open>The loop is \<open>run_search\<close> of \<open>BitStore\<close>; the fuel is one more than the number of pages.\<close>

definition block_page_alloc :: "pmm \<Rightarrow> size_t \<Rightarrow> size_t option" where
  "block_page_alloc s nr =
     map_option (case_option PFN_NOTFOUND id)
       (run_search (Suc (unat (pfn_max s))) (bitmap_find (pm_map s)) (pfn_max s) nr 0)"

section \<open>Building the map of free memory\<close>

definition region_limit :: "mmap_entry \<Rightarrow> addr_t \<Rightarrow> addr_t" where
  "region_limit e limit =
     (if mm_type e = MULTIBOOT_MEMORY_AVAILABLE then max limit (mm_addr e + mm_len e) else limit)"

text \<open>The part of a region the kernel may use, as its first page and its number of pages.\<close>

definition usable_part :: "addr_t \<Rightarrow> mmap_entry \<Rightarrow> (size_t \<times> size_t) option" where
  "usable_part rend e =
     (if mm_type e = MULTIBOOT_MEMORY_AVAILABLE then
        let base = mm_addr e; len = mm_len e
        in if base + len \<le> rend then None
           else if base < rend then Some (drop_bit PGSHIFT rend, (base + len - rend) div PGSIZE)
           else Some (drop_bit PGSHIFT base, len div PGSIZE)
      else None)"

fun mark_regions :: "addr_t \<Rightarrow> bitmap \<Rightarrow> mmap_entry list \<Rightarrow> bitmap option" where
  "mark_regions rend bm [] = Some bm"
| "mark_regions rend bm (e # es) =
     (case usable_part rend e of
        None \<Rightarrow> mark_regions rend bm es
      | Some (start, n) \<Rightarrow> do { bm' \<leftarrow> bitmap_set bm MEM_PAGE_AVAIL start n; mark_regions rend bm' es })"

definition mem_bytes :: "mem \<Rightarrow> addr_t \<Rightarrow> nat \<Rightarrow> u8 list" where
  "mem_bytes m p n = map (\<lambda>i. m (p + of_nat i)) [0..<n]"

definition mem_map_init :: "pmm \<Rightarrow> pmm option" where
  "mem_map_init s =
     do { tag \<leftarrow> mboot_get_mboot_info (pm_mem s) (mboot_info s) MULTIBOOT_TAG_TYPE_MMAP;
          es \<leftarrow> for_mmap (pm_mem s) tag;
          let s1 = s\<lparr>phy_addr_limit := align (fold region_limit es (phy_addr_limit s)) PGSIZE\<rparr>;
          let s2 = reserved_mem_allocator_init s1;
          let n = div_round_up (phy_addr_limit s2) PGSIZE;
          let bitmap_size = div_round_up n 8;
          let (s3, ptr) = reserved_mem_alloc (s2\<lparr>pfn_max := n\<rparr>) bitmap_size;
          bm \<leftarrow> bitmap_set (bitmap_init (mem_bytes (pm_mem s3) (kaddr ptr) (unat bitmap_size)) n) MEM_PAGE_USED 0 n;
          bm' \<leftarrow> mark_regions (reserved_end s3) bm es;
          Some (s3\<lparr>pm_map := bm'\<rparr>) }"

section \<open>The general interface\<close>

definition mm_phy_page_alloc :: "pmm \<Rightarrow> size_t \<Rightarrow> (pmm \<times> addr_t) option" where
  "mm_phy_page_alloc s nr =
     (if \<not> mm_ready s
      then Some (reserved_mem_alloc (if reserved_mem_ready s then s else reserved_mem_allocator_init s)
                   (nr * PGSIZE))
      else do {
        (s1, pfn) \<leftarrow> (if buddy_mem_ready s
                     then map_option (\<lambda>(z, p). (s\<lparr>pm_zone := z\<rparr>, p)) (buddy_page_alloc (pm_zone s) nr)
                     else map_option (Pair s) (block_page_alloc s nr));
        bm \<leftarrow> bitmap_set (pm_map s1) MEM_PAGE_USED pfn nr;
        Some (s1\<lparr>pm_map := bm\<rparr>, push_bit PGSHIFT pfn) })"

definition mm_phy_page_zalloc :: "pmm \<Rightarrow> size_t \<Rightarrow> (pmm \<times> addr_t) option" where
  "mm_phy_page_zalloc s nr =
     do { (s1, phy) \<leftarrow> mm_phy_page_alloc s nr;
          Some (s1\<lparr>pm_mem := memset (pm_mem s1) (kaddr phy) 0 (nr * PGSIZE)\<rparr>, phy) }"

definition mm_phy_page_free :: "pmm \<Rightarrow> addr_t \<Rightarrow> size_t \<Rightarrow> pmm option" where
  "mm_phy_page_free s addr nr =
     (let pfn_start = drop_bit PGSHIFT addr in do {
        check \<leftarrow> bitmap_find (pm_map s) MEM_PAGE_AVAIL pfn_start nr;
        bm \<leftarrow> bitmap_set (pm_map s) MEM_PAGE_AVAIL pfn_start nr;
        if buddy_mem_ready s
        then map_option (\<lambda>z. s\<lparr>pm_map := bm, pm_zone := z\<rparr>) (buddy_page_free (pm_zone s) pfn_start nr)
        else Some (s\<lparr>pm_map := bm\<rparr>) })"

section \<open>Handing the free memory to the buddy allocator\<close>

definition PAGE_STRUCT_SIZE :: size_t where "PAGE_STRUCT_SIZE = 32"

definition read_page :: "mem \<Rightarrow> addr_t \<Rightarrow> page" where
  "read_page m p = \<lparr>page_flag = load_u32 m p, page_order = load_u32 m (p + 4), page_u = load_u64 m (p + 24)\<rparr>"

definition page_array :: "mem \<Rightarrow> addr_t \<Rightarrow> nat \<Rightarrow> size_t \<Rightarrow> page" where
  "page_array m base n i =
     (if unat i < n then read_page m (base + i * PAGE_STRUCT_SIZE) else \<lparr>page_flag = 0, page_order = 0, page_u = 0\<rparr>)"

fun free_runs :: "nat \<Rightarrow> bitmap \<Rightarrow> size_t \<Rightarrow> zone \<Rightarrow> ssize_t \<Rightarrow> zone option" where
  "free_runs 0 bm n z r = None"
| "free_runs (Suc fuel) bm n z r =
     (if r < n then do {
        l \<leftarrow> bitmap_find bm MEM_PAGE_AVAIL r n;
        r0 \<leftarrow> bitmap_find bm MEM_PAGE_USED (scast l) n;
        let r1 = (if scast r0 = (- 1 :: ssize_t) then n else scast r0);
        z1 \<leftarrow> buddy_page_free z (scast l) (r1 - scast l);
        free_runs fuel bm n z1 r1 }
      else Some z)"

definition buddy_init :: "pmm \<Rightarrow> pmm option" where
  "buddy_init s =
     do { (s1, phy) \<leftarrow> mm_phy_page_alloc s
            (div_round_up (pfn_max s * PAGE_STRUCT_SIZE) PGSIZE);
          let n = unat (pfn_max s1);
          let z0 = (pm_zone s1)\<lparr>pages := page_array (pm_mem s1) (kaddr phy) n, arr_len := n\<rparr>;
          z \<leftarrow> free_runs (Suc n) (pm_map s1) (pfn_max s1) (buddy_init_zone z0 0 (pfn_max s1)) 0;
          Some (s1\<lparr>pm_zone := z\<rparr>) }"

definition pmm_init :: "pmm \<Rightarrow> pmm option" where
  "pmm_init s =
     map_option (\<lambda>s1. s1\<lparr>buddy_mem_ready := True\<rparr>) (buddy_init s)"

section \<open>Pages in memory\<close>

lemma page_base:
  fixes a sl :: addr_t
  assumes "take_bit 12 sl = 0" "unat (a - sl) < 4096"
  shows "align_down a PGSIZE = sl"
proof -
  define d where "d = a - sl"
  have a: "a = sl + d" by (simp add: d_def)
  have dz: "drop_bit 12 d = 0" using assms(2) by (simp add: word_unat_eq_iff unat_drop_bit_eq drop_bit_eq_div [where 'a = nat] d_def)
  have db: "\<not> bit d k" if "12 \<le> k" for k using arg_cong [OF dz, of "\<lambda>w. bit w (k - 12)"] that by (simp add: bit_drop_bit_eq)
  have sb: "\<not> bit sl k" if "k < 12" for k using assms(1) that by (simp add: aligned_bits)
  have "\<not> (bit sl k \<and> bit d k)" for k using db [of k] sb [of k] by (cases "k < 12") auto
  then have "sl AND d = 0" by (intro bit_word_eqI) (simp add: bit_and_iff)
  then have "sl + d = sl OR d" by (rule disjunctive_add_eq_or)
  moreover have "align_down (sl OR d) (2 ^ 12) = sl"
    unfolding align_down_pow2
  proof (rule bit_word_eqI)
    fix k assume "k < LENGTH(64)"
    then show "bit ((sl OR d) AND NOT (mask 12)) k = bit sl k" using db [of k] sb [of k] by (cases "k < 12") (auto simp: bit_simps)
  qed
  ultimately show ?thesis by (simp add: a PGSIZE_def)
qed

lemma page_addr:
  fixes p :: size_t
  assumes "unat p < 2 ^ 31"
  shows "take_bit 12 (kaddr (push_bit PGSHIFT p)) = 0" "kaddr (push_bit PGSHIFT p) \<noteq> 0"
    "drop_bit PGSHIFT (paddr (kaddr (push_bit PGSHIFT p))) = p" "p \<noteq> 0 \<Longrightarrow> push_bit PGSHIFT p \<noteq> 0"
proof -
  have pu: "unat (push_bit PGSHIFT p) = unat p * 4096"
    using assms unat_mult_lem [of p 4096] by (simp add: PGSHIFT_def push_bit_eq_mult)
  have ku: "unat (kaddr (push_bit PGSHIFT p)) = unat p * 4096 + 0xFFFF800000000000"
    using assms pu unat_add_lem [of "push_bit PGSHIFT p" KERN_BASE] by (simp add: kaddr_def KERN_BASE_def)
  show "kaddr (push_bit PGSHIFT p) \<noteq> 0" using ku by (auto simp: word_unat_eq_iff)
  have "unat (kaddr (push_bit PGSHIFT p)) mod 4096 = 0" unfolding ku by (simp add: mod_add_eq [symmetric])
  then show "take_bit 12 (kaddr (push_bit PGSHIFT p)) = 0"
    by (simp add: word_unat_eq_iff unsigned_take_bit_eq take_bit_eq_mod [where 'a = nat])
  show "drop_bit PGSHIFT (paddr (kaddr (push_bit PGSHIFT p))) = p"
    by (simp add: word_unat_eq_iff unat_drop_bit_eq kaddr_def paddr_def drop_bit_eq_div [where 'a = nat] pu) (simp add: PGSHIFT_def)
  show "p \<noteq> 0 \<Longrightarrow> push_bit PGSHIFT p \<noteq> 0" using pu by (auto simp: word_unat_eq_iff)
qed

lemma page_load_frame:
  fixes x sl sl' :: addr_t
  assumes "unat (x - sl') + 8 \<le> 4096" "take_bit 12 sl' = 0" "take_bit 12 sl = 0" "sl' \<noteq> sl"
    and "\<And>a. \<not> unat (a - sl) < 4096 \<Longrightarrow> m' a = m a"
  shows "load_u64 m' x = load_u64 m x"
proof (rule load_u64_cong)
  fix i :: nat assume i: "i < 8"
  have "x + of_nat i - sl' = (x - sl') + of_nat i" by simp
  moreover have "unat (of_nat i :: addr_t) = i" using i by (simp add: unat_of_nat)
  ultimately have "unat (x + of_nat i - sl') < 4096"
    using assms(1) i by (simp only: unat_add_lem [THEN iffD1]) (simp add: unat_add_lem [THEN iffD1])
  then have "align_down (x + of_nat i) PGSIZE = sl'" using page_base [OF assms(2)] by blast
  then have "\<not> unat (x + of_nat i - sl) < 4096" using page_base [OF assms(3), of "x + of_nat i"] assms(4) by auto
  then show "m' (x + of_nat i) = m (x + of_nat i)" by (rule assms(5))
qed

section \<open>The available pages of a map\<close>

definition avail_pages :: "bitmap \<Rightarrow> size_t set" where
  "avail_pages bm = {p. unat p < unat (map_size bm) \<and> \<not> bit_at bm (unat p)}"

lemma mark_pages:
  assumes "bitmap_ok bm" "unat start \<le> unat (map_size bm)" "unat start + unat n < 2 ^ 64"
  obtains bm' where "bitmap_set bm v start n = Some bm'" "bitmap_ok bm'" "map_size bm' = map_size bm"
    "avail_pages bm' = (if v \<noteq> 0 then avail_pages bm - pfn_range start n
       else avail_pages bm \<union> {p \<in> pfn_range start n. unat p < unat (map_size bm)})"
proof -
  obtain bm' where bm': "bitmap_set bm v start n = Some bm'" "bitmap_ok bm'" "unat (map_size bm') = unat (map_size bm)"
    "\<forall>i < unat (map_size bm). bit_at bm' i = (if unat start \<le> i \<and> i < unat start + unat n then v \<noteq> 0 else bit_at bm i)"
    using page_bits.set_law [OF assms, of v] by blast
  moreover have "avail_pages bm' = (if v \<noteq> 0 then avail_pages bm - pfn_range start n
       else avail_pages bm \<union> {p \<in> pfn_range start n. unat p < unat (map_size bm)})"
    using bm'(3,4) by (auto simp: avail_pages_def pfn_range_def split: if_splits)
  ultimately show ?thesis by (intro that [of bm']) (simp_all add: word_unat_eq_iff)
qed

lemma mark_pages_past:
  assumes "bitmap_ok bm" "unat (map_size bm) \<le> unat start"
  obtains bm' where "bitmap_set bm v start n = Some bm'" "bitmap_ok bm'" "map_size bm' = map_size bm"
    "avail_pages bm' = avail_pages bm"
proof -
  obtain bm' where bm': "bitmap_set bm v start n = Some bm'" "bitmap_ok bm'" "unat (map_size bm') = unat (map_size bm)"
    "\<forall>i < unat (map_size bm). bit_at bm' i = bit_at bm i"
    using page_bits.set_past [OF assms, of v n] by blast
  moreover have "avail_pages bm' = avail_pages bm" using bm'(3,4) by (auto simp: avail_pages_def)
  ultimately show ?thesis by (intro that [of bm']) (simp_all add: word_unat_eq_iff)
qed

section \<open>buddy_init hands over exactly the available pages\<close>

lemma find_cases:
  assumes "bitmap_ok bm" "unat start \<le> unat (map_size bm)" "n = map_size bm"
  obtains (none) "bitmap_find bm v start n = Some (-1)"
      "\<And>i. unat start \<le> i \<Longrightarrow> i < unat n \<Longrightarrow> bit_at bm i \<noteq> (v \<noteq> 0)"
    | (hit) i where "bitmap_find bm v start n = Some (of_nat i)" "scast (of_nat i :: cint) = (of_nat i :: ssize_t)"
      "unat (of_nat i :: ssize_t) = i" "(of_nat i :: ssize_t) \<noteq> -1" "unat start \<le> i" "i < unat n" "bit_at bm i = (v \<noteq> 0)"
      "\<And>k. unat start \<le> k \<Longrightarrow> k < i \<Longrightarrow> bit_at bm k \<noteq> (v \<noteq> 0)"
proof -
  have N: "unat (map_size bm) + 8 \<le> 2 ^ 31" by (rule page_bits.nbits_small [OF assms(1)])
  have "find_result (bit_at bm) (v \<noteq> 0) (unat start) (min (unat (map_size bm)) (unat start + unat n)) (bitmap_find bm v start n)"
    by (rule page_bits.find_law [OF assms(1,2)]) (use assms(2,3) N in simp)
  then consider "no_hit (bit_at bm) (v \<noteq> 0) (unat start) (unat n)" "bitmap_find bm v start n = Some (-1)"
    | i where "first_hit (bit_at bm) (v \<noteq> 0) (unat start) (unat n) i" "bitmap_find bm v start n = Some (of_nat i)"
    using assms(3) by (auto simp: find_result_def)
  then show ?thesis
  proof cases
    case 1
    then show ?thesis by (intro none) (auto simp: no_hit_def)
  next
    case (2 i)
    then have i: "i < unat n" by (simp add: first_hit_def)
    then have i31: "i < 2 ^ 31" using N assms(3) by simp
    then have u: "unat (of_nat i :: ssize_t) = i" by (simp add: unat_of_nat)
    then have "(of_nat i :: ssize_t) \<noteq> -1" using i31 by (auto simp: unsigned_minus_1_eq_mask mask_eq_exp_minus_1)
    then show ?thesis using 2 i u scast_small [OF i31] by (intro hit [of i]) (auto simp: first_hit_def)
  qed
qed

lemma find_hit:
  assumes "bitmap_ok bm" "unat start \<le> unat (map_size bm)" "n = map_size bm"
    and "unat start \<le> i" "i < unat n" "bit_at bm i = (v \<noteq> 0)"
  obtains j where "bitmap_find bm v start n = Some (of_nat j)" "scast (of_nat j :: cint) = (of_nat j :: ssize_t)"
    "unat (of_nat j :: ssize_t) = j" "unat start \<le> j" "j < unat n" "bit_at bm j = (v \<noteq> 0)"
    "\<And>k. unat start \<le> k \<Longrightarrow> k < j \<Longrightarrow> bit_at bm k \<noteq> (v \<noteq> 0)"
proof (rule find_cases [OF assms(1-3), of v])
  assume "\<And>k. unat start \<le> k \<Longrightarrow> k < unat n \<Longrightarrow> bit_at bm k \<noteq> (v \<noteq> 0)"
  then show thesis using assms(4-6) by blast
qed (rule that)

text \<open>The end of the run of available pages that starts at \<open>l\<close>.\<close>

lemma find_run_end:
  assumes "bitmap_ok bm" "unat l < unat n" "n = map_size bm" "\<not> bit_at bm (unat l)"
  obtains r0 j where "bitmap_find bm 1 l n = Some r0" "(if scast r0 = (- 1 :: ssize_t) then n else scast r0) = of_nat j"
    "unat (of_nat j :: ssize_t) = j" "unat l < j" "j \<le> unat n" "\<And>k. unat l \<le> k \<Longrightarrow> k < j \<Longrightarrow> \<not> bit_at bm k"
proof (rule find_cases [OF assms(1) _ assms(3), of l 1])
  show "unat l \<le> unat (map_size bm)" using assms(2,3) by simp
next
  assume a: "bitmap_find bm 1 l n = Some (-1)" "\<And>i. unat l \<le> i \<Longrightarrow> i < unat n \<Longrightarrow> bit_at bm i \<noteq> ((1::cint) \<noteq> 0)"
  show thesis by (rule that [OF a(1), of "unat n"]) (use a(2) assms(2) in simp_all)
next
  fix i assume a: "bitmap_find bm 1 l n = Some (of_nat i)" "scast (of_nat i :: cint) = (of_nat i :: ssize_t)"
    "unat (of_nat i :: ssize_t) = i" "(of_nat i :: ssize_t) \<noteq> -1" "unat l \<le> i" "i < unat n"
    "bit_at bm i = ((1::cint) \<noteq> 0)" "\<And>k. unat l \<le> k \<Longrightarrow> k < i \<Longrightarrow> bit_at bm k \<noteq> ((1::cint) \<noteq> 0)"
  have "unat l \<noteq> i" using a(7) assms(4) by auto
  then show thesis by (intro that [OF a(1), of i]) (use a in simp_all)
qed

lemma free_runs_step:
  assumes "bitmap_ok bm" "map_size bm = n" "arr_len z = unat n" "buddy_inv z fl"
    and "free_set fl = {p \<in> avail_pages bm. unat p < unat r}" "unat r \<le> i" "i < unat n" "\<not> bit_at bm i"
  obtains z1 fl1 j where "\<And>fuel. free_runs (Suc fuel) bm n z r = free_runs fuel bm n z1 (of_nat j)"
    "buddy_inv z1 fl1" "free_set fl1 = {p \<in> avail_pages bm. unat p < unat (of_nat j :: ssize_t)}" "arr_len z1 = unat n"
    "unat (of_nat j :: ssize_t) = j" "unat r < j" "j \<le> unat n" "\<not> bit_at bm (j - 1)"
proof -
  have rn: "unat r \<le> unat (map_size bm)" using assms(2,6,7) by simp
  obtain l where l: "bitmap_find bm 0 r n = Some (of_nat l)" "scast (of_nat l :: cint) = (of_nat l :: ssize_t)"
    "unat (of_nat l :: ssize_t) = l" "unat r \<le> l" "l < unat n" "bit_at bm l = ((0::cint) \<noteq> 0)"
    "\<And>k. unat r \<le> k \<Longrightarrow> k < l \<Longrightarrow> bit_at bm k \<noteq> ((0::cint) \<noteq> 0)"
    by (rule find_hit [OF assms(1) rn assms(2) [symmetric] assms(6,7), of 0]) (use assms(8) in simp_all)
  then have l6: "\<not> bit_at bm l" "\<And>k. unat r \<le> k \<Longrightarrow> k < l \<Longrightarrow> bit_at bm k" by simp_all
  have lf: "\<not> bit_at bm (unat (of_nat l :: ssize_t))" "unat (of_nat l :: ssize_t) < unat n" using l(3,5) l6(1) by simp_all
  obtain r0 j where r0: "bitmap_find bm 1 (of_nat l) n = Some r0"
    and j: "(if scast r0 = (- 1 :: ssize_t) then n else scast r0) = of_nat j" "unat (of_nat j :: ssize_t) = j"
      "unat (of_nat l :: ssize_t) < j" "j \<le> unat n" "\<And>k. unat (of_nat l :: ssize_t) \<le> k \<Longrightarrow> k < j \<Longrightarrow> \<not> bit_at bm k"
    by (rule find_run_end [OF assms(1) lf(2) assms(2) [symmetric] lf(1)]) (rule that; assumption)
  note j' = j(3,5) [unfolded l(3)]
  let ?l = "of_nat l :: ssize_t" and ?j = "of_nat j :: ssize_t"
  have lj: "unat (?j - ?l) = j - l"
    using j(2) j'(1) l(3) by (subst unat_sub) (simp_all add: word_le_nat_alt)
  have rng: "pfn_range ?l (?j - ?l) = {p. l \<le> unat p \<and> unat p < j}"
    using j'(1) by (auto simp: pfn_range_def l(3) lj)
  have "\<exists>z' fl'. buddy_page_free z ?l (?j - ?l) = Some z' \<and> buddy_inv z' fl' \<and>
      free_set fl' = free_set fl \<union> pfn_range ?l (?j - ?l) \<and> nr_free_pages z' = nr_free_pages z + (?j - ?l) \<and> arr_len z' = arr_len z"
  proof (rule buddy_page_free_ex [OF assms(4)])
    show "unat ?l + unat (?j - ?l) \<le> arr_len z" unfolding lj l(3) assms(3) using j'(1) j(4) by linarith
    show "pfn_range ?l (?j - ?l) \<inter> free_set fl = {}" unfolding rng assms(5) using l(4) by force
  qed
  then obtain z1 fl1 where z1: "buddy_page_free z ?l (?j - ?l) = Some z1" "buddy_inv z1 fl1"
    "free_set fl1 = free_set fl \<union> pfn_range ?l (?j - ?l)" "arr_len z1 = arr_len z" by blast
  have "free_set fl1 = {p \<in> avail_pages bm. unat p < unat ?j}"
  proof (rule set_eqI)
    fix p :: size_t
    have sz: "unat (map_size bm) = unat n" using assms(2) by simp
    consider "unat p < unat r" | "unat r \<le> unat p" "unat p < l" | "l \<le> unat p" "unat p < j" | "j \<le> unat p"
      by linarith
    then show "p \<in> free_set fl1 \<longleftrightarrow> p \<in> {p \<in> avail_pages bm. unat p < unat ?j}"
    proof cases
      case 1
      then show ?thesis unfolding z1(3) rng j(2) assms(5) using l(4) j'(1) by simp
    next
      case 2
      then show ?thesis unfolding z1(3) rng j(2) assms(5) using l6(2) by (simp add: avail_pages_def)
    next
      case 3
      then have "\<not> bit_at bm (unat p)" "unat p < unat n" using j'(2) [OF 3] j(4) by simp_all
      with 3 show ?thesis unfolding z1(3) rng j(2) assms(5) by (simp add: avail_pages_def sz)
    next
      case 4
      then show ?thesis unfolding z1(3) rng j(2) assms(5) using l(4) j'(1) by simp
    qed
  qed
  moreover have "r < n" using l(4,5) by (simp add: word_less_nat_alt)
  then have "free_runs (Suc fuel) bm n z r = free_runs fuel bm n z1 ?j" for fuel
    using l(1,2) r0 j(1) z1(1) by (simp add: MEM_PAGE_AVAIL_def MEM_PAGE_USED_def Let_def)
  moreover have "\<not> bit_at bm (j - 1)" using j'(1) by (intro j'(2)) auto
  ultimately show thesis using z1(2,4) assms(3) j(2,4) j'(1) l(4) by (intro that) simp_all
qed

lemma free_runs_spec:
  assumes "bitmap_ok bm" "map_size bm = n" "\<not> bit_at bm (unat n - 1)" "arr_len z = unat n"
    and "buddy_inv z fl" "free_set fl = {p \<in> avail_pages bm. unat p < unat r}" "unat r \<le> unat n" "unat n - unat r < fuel"
  shows "\<exists>z' fl'. free_runs fuel bm n z r = Some z' \<and> buddy_inv z' fl' \<and> free_set fl' = avail_pages bm \<and> arr_len z' = unat n"
  using assms(4-)
proof (induction fuel arbitrary: z fl r)
  case 0
  then show ?case by simp
next
  case (Suc fuel)
  show ?case
  proof (cases "r < n")
    case False
    then have "unat r = unat n" using Suc.prems(4) by (simp add: word_less_nat_alt)
    then have "free_set fl = avail_pages bm" using Suc.prems(3) assms(2) by (auto simp: avail_pages_def)
    then show ?thesis using False Suc.prems by auto
  next
    case True
    then have le: "unat r \<le> unat n - 1" "unat n - 1 < unat n" by (simp_all add: word_less_nat_alt)
    obtain z1 fl1 j where s: "free_runs (Suc fuel) bm n z r = free_runs fuel bm n z1 (of_nat j)"
        "buddy_inv z1 fl1" "free_set fl1 = {p \<in> avail_pages bm. unat p < unat (of_nat j :: ssize_t)}" "arr_len z1 = unat n"
        "unat (of_nat j :: ssize_t) = j" "unat r < j" "j \<le> unat n"
      by (rule free_runs_step [OF assms(1,2) Suc.prems(1-3) le assms(3)]) (rule that; assumption)
    then show ?thesis unfolding s(1) using Suc.prems(5) by (intro Suc.IH) simp_all
  qed
qed

text \<open>When the last page of memory is not available the loop asks for a page past it and frees page \<open>-1\<close>.\<close>

lemma free_minus_one:
  assumes "buddy_struct z fl" "arr_len z \<le> 2 ^ 32" "nr \<noteq> 0"
  shows "buddy_page_free z (-1) nr = None"
proof -
  let ?z = "z\<lparr>nr_free_pages := nr_free_pages z + nr\<rparr>"
  have odd: "(-1 :: size_t) mod push_bit k 1 \<noteq> 0" if "0 < k" "k < 64" for k
  proof -
    have "take_bit k (-1 :: size_t) \<noteq> 0" using that by (auto simp: aligned_bits)
    then show ?thesis using aligned_mod [of k "-1"] that by simp
  qed
  have "pick_order (-1) nr (Suc k) = Some 0" if "k < 64" for k
    using that
  proof (induction k)
    case 0
    then show ?case using assms(3) by (simp add: word_le_nat_alt Suc_le_eq unat_gt_0)
  next
    case (Suc k)
    then show ?case using odd [of "Suc k"] by (subst pick_order.simps) (simp del: pick_order.simps)
  qed
  from this [of 10] have "pick_order (-1) nr MAX_ORDER = Some 0" by (simp add: MAX_ORDER_def)
  moreover have "merge_loop ?z (-1) 0 = None"
  proof -
    have "find_buddy_pfn (-1) 0 = -2" by (simp add: find_buddy_pfn_def)
    moreover have "pfn_to_page ?z p = p" for p using pfn_to_page_id [of ?z fl p] assms(1) by simp
    moreover have "2 ^ 32 \<le> unat (-2 :: size_t)" by simp
    ultimately show ?thesis using assms(2) by (subst merge_loop.simps) (simp add: page_ok_def MAX_ORDER_def)
  qed
  ultimately show ?thesis
    using assms(3) by (simp add: buddy_page_free_def buddy_free_block_def free_range_loop.simps [of ?z])
qed

lemma free_runs_fault:
  assumes "bitmap_ok bm" "map_size bm = n" "bit_at bm (unat n - 1)" "arr_len z = unat n"
    and "buddy_inv z fl" "free_set fl = {p \<in> avail_pages bm. unat p < unat r}" "unat r < unat n"
  shows "free_runs fuel bm n z r = None"
  using assms(4-)
proof (induction fuel arbitrary: z fl r)
  case (Suc fuel)
  have N: "unat n + 8 \<le> 2 ^ 31" using page_bits.nbits_small [OF assms(1)] assms(2) by simp
  show ?case
  proof (cases "\<exists>i. unat r \<le> i \<and> i < unat n \<and> \<not> bit_at bm i")
    case True
    then obtain i where i: "unat r \<le> i" "i < unat n" "\<not> bit_at bm i" by blast
    obtain z1 fl1 j where s: "free_runs (Suc fuel) bm n z r = free_runs fuel bm n z1 (of_nat j)"
        "buddy_inv z1 fl1" "free_set fl1 = {p \<in> avail_pages bm. unat p < unat (of_nat j :: ssize_t)}" "arr_len z1 = unat n"
        "unat (of_nat j :: ssize_t) = j" "unat r < j" "j \<le> unat n" "\<not> bit_at bm (j - 1)"
      by (rule free_runs_step [OF assms(1,2) Suc.prems(1-3) i]) (rule that; assumption)
    have "j \<noteq> unat n" using s(8) assms(3) by auto
    then show ?thesis unfolding s(1) using s by (intro Suc.IH) simp_all
  next
    case False
    have r: "r < n" using Suc.prems(4) by (simp add: word_less_nat_alt)
    have f: "bitmap_find bm 0 r n = Some (-1)"
      by (rule find_cases [OF assms(1) _ assms(2) [symmetric], of r 0]) (use False Suc.prems(4) assms(2) in auto)
    have m1: "unat (map_size bm) \<le> unat (-1 :: size_t)" using N assms(2) by (simp add: unsigned_minus_1_eq_mask mask_eq_exp_minus_1)
    obtain r0 where r0: "bitmap_find bm 1 (-1) n = Some r0" "r0 = -1 \<or> unat (map_size bm) \<le> unat r0 \<and> unat r0 < 2 ^ 31"
      using page_bits.find_past [OF assms(1) m1, of 1 n] by blast
    let ?r1 = "if scast r0 = (- 1 :: ssize_t) then n else scast r0"
    have "?r1 - (- 1) \<noteq> 0"
    proof (cases "scast r0 = (-1 :: ssize_t)")
      case True
      have "n \<noteq> -1" using N by (auto simp: unsigned_minus_1_eq_mask mask_eq_exp_minus_1)
      then have "n + 1 \<noteq> 0" by (simp add: eq_neg_iff_add_eq_0 [symmetric])
      then show ?thesis using True by simp
    next
      case False
      then show ?thesis by (simp add: eq_neg_iff_add_eq_0)
    qed
    then have "buddy_page_free z (-1) (?r1 - (-1)) = None"
      using Suc.prems(1,2) N by (intro free_minus_one [where fl = fl]) (simp_all add: buddy_inv_def)
    then show ?thesis using r f r0(1) by (simp add: MEM_PAGE_AVAIL_def MEM_PAGE_USED_def Let_def)
  qed
qed simp

section \<open>Properties\<close>

lemma pages_fit: "unat (drop_bit PGSHIFT a :: size_t) < 2 ^ 52" "unat (len div PGSIZE :: size_t) < 2 ^ 52"
proof -
  have "unat a < 2 ^ 64" "unat len < 2 ^ 64" using unsigned_less [of a] unsigned_less [of len] by simp_all
  then show "unat (drop_bit PGSHIFT a :: size_t) < 2 ^ 52" "unat (len div PGSIZE :: size_t) < 2 ^ 52"
    by (simp_all add: PGSHIFT_def PGSIZE_def unat_drop_bit_eq drop_bit_eq_div [where 'a = nat] unat_div div_less_iff_less_mult)
qed

lemma usable_small: "usable_part rend e = Some (start, n) \<Longrightarrow> unat start + unat n < 2 ^ 64"
  using pages_fit(1) [of rend] pages_fit(1) [of "mm_addr e"] pages_fit(2) [of "mm_addr e + mm_len e - rend"] pages_fit(2) [of "mm_len e"]
  by (auto simp: usable_part_def Let_def split: if_splits)

definition usable_pages :: "addr_t \<Rightarrow> mmap_entry \<Rightarrow> size_t set" where
  "usable_pages rend e = (case usable_part rend e of None \<Rightarrow> {} | Some (start, n) \<Rightarrow> pfn_range start n)"

lemma mark_regions_spec:
  assumes "bitmap_ok bm"
  shows "\<exists>bm'. mark_regions rend bm es = Some bm' \<and> bitmap_ok bm' \<and> map_size bm' = map_size bm \<and>
    avail_pages bm' = avail_pages bm \<union> {p \<in> (\<Union>e \<in> set es. usable_pages rend e). unat p < unat (map_size bm)}"
  using assms
proof (induction es arbitrary: bm)
  case (Cons e es)
  show ?case
  proof (cases "usable_part rend e")
    case None
    then show ?thesis using Cons.IH [OF Cons.prems] by (simp add: usable_pages_def)
  next
    case (Some sn)
    obtain start n where sn: "usable_part rend e = Some (start, n)" using Some by (cases sn) auto
    obtain bm1 where bm1: "bitmap_set bm MEM_PAGE_AVAIL start n = Some bm1" "bitmap_ok bm1" "map_size bm1 = map_size bm"
      "avail_pages bm1 = avail_pages bm \<union> {p \<in> pfn_range start n. unat p < unat (map_size bm)}"
    proof (cases "unat start \<le> unat (map_size bm)")
      case True
      show ?thesis
        by (rule mark_pages [OF Cons.prems True usable_small [OF sn], of MEM_PAGE_AVAIL])
          (rule that, simp_all add: MEM_PAGE_AVAIL_def)
    next
      case False
      then have e: "{p \<in> pfn_range start n. unat p < unat (map_size bm)} = {}" by (auto simp: pfn_range_def)
      have le: "unat (map_size bm) \<le> unat start" using False by simp
      obtain bm' where "bitmap_set bm MEM_PAGE_AVAIL start n = Some bm'" "bitmap_ok bm'" "map_size bm' = map_size bm"
        "avail_pages bm' = avail_pages bm"
        by (rule mark_pages_past [OF Cons.prems le, of MEM_PAGE_AVAIL n]) (rule that; assumption)
      then show ?thesis by (intro that [of bm']) (simp_all only: e Un_empty_right)
    qed
    then show ?thesis using Cons.IH [OF bm1(2)] sn by (auto simp: usable_pages_def)
  qed
qed simp

lemma mem_map_marks:
  assumes "mboot_get_mboot_info (pm_mem s) (mboot_info s) MULTIBOOT_TAG_TYPE_MMAP = Some tag" "for_mmap (pm_mem s) tag = Some es"
    and "n = div_round_up (align (fold region_limit es (phy_addr_limit s)) PGSIZE) PGSIZE" "unat n + 8 \<le> 2 ^ 31"
    and "\<not> reserved_mem_ready s"
    and "R0 = align (if paddr (mboot_info_end s) > kern_end s then paddr (mboot_info_end s) else kern_end s) PGSIZE"
  shows "\<exists>s'. mem_map_init s = Some s' \<and> bitmap_ok (pm_map s') \<and> map_size (pm_map s') = n \<and> pfn_max s' = n \<and>
    phy_addr_limit s' = align (fold region_limit es (phy_addr_limit s)) PGSIZE \<and>
    reserved_end s' = align (R0 + div_round_up n 8) PGSIZE \<and>
    avail_pages (pm_map s') = {p \<in> (\<Union>e \<in> set es. usable_pages (reserved_end s') e). unat p < unat n}"
proof -
  define s2 where "s2 = reserved_mem_allocator_init
    (s\<lparr>phy_addr_limit := align (fold region_limit es (phy_addr_limit s)) PGSIZE\<rparr>)"
  have s2: "div_round_up (phy_addr_limit s2) PGSIZE = n" "pm_mem s2 = pm_mem s" "reserved_end s2 = R0"
      "phy_addr_limit s2 = align (fold region_limit es (phy_addr_limit s)) PGSIZE"
    using assms(5) by (simp_all add: s2_def reserved_mem_allocator_init_def Let_def assms(3,6))
  define k where "k = div_round_up n 8"
  define s3 where "s3 = s2\<lparr>pfn_max := n, reserved_end := align (reserved_end s2 + k) PGSIZE\<rparr>"
  have u: "unat (n + 8 - 1) = unat n + 7"
  proof -
    have "n + 8 - 1 = n + 7" by simp
    then show ?thesis using assms(4) by (simp only: unat_add_lem [THEN iffD1]) (simp add: unat_add_lem [THEN iffD1])
  qed
  then have k: "unat n \<le> 8 * unat k" unfolding k_def div_round_up_def unat_div u by simp
  define bm0 where "bm0 = bitmap_init (mem_bytes (pm_mem s3) (kaddr (reserved_end s2)) (unat k)) n"
  have ok0: "bitmap_ok bm0" "map_size bm0 = n"
    using k assms(4) by (simp_all add: bm0_def bitmap_init_def bitmap_ok_def bitmap_wf_def mem_bytes_def)
  obtain bm1 where bm1: "bitmap_set bm0 MEM_PAGE_USED 0 n = Some bm1" "bitmap_ok bm1" "map_size bm1 = n" "avail_pages bm1 = {}"
  proof (rule mark_pages [OF ok0(1), of 0 n MEM_PAGE_USED])
    show "unat 0 + unat n < 2 ^ 64" using assms(4) by simp
  qed (use ok0(2) in \<open>auto simp: MEM_PAGE_USED_def avail_pages_def pfn_range_def intro: that\<close>)
  obtain bm2 where bm2: "mark_regions (reserved_end s3) bm1 es = Some bm2" "bitmap_ok bm2" "map_size bm2 = n"
    "avail_pages bm2 = {p \<in> (\<Union>e \<in> set es. usable_pages (reserved_end s3) e). unat p < unat n}"
    using mark_regions_spec [OF bm1(2), of "reserved_end s3" es] unfolding bm1(3,4) by auto
  have "mem_map_init s = Some (s3\<lparr>pm_map := bm2\<rparr>)"
    using assms(1,2) bm1(1) bm2(1)
    by (simp add: mem_map_init_def s2_def [symmetric] s2(1-3) reserved_mem_alloc_def k_def [symmetric] s3_def bm0_def Let_def)
  then show ?thesis
    using bm2 by (intro exI [of _ "s3\<lparr>pm_map := bm2\<rparr>"]) (simp add: s3_def s2 k_def)
qed

text \<open>The highest end of an available region, and the rounding of a number of bytes up to pages.\<close>

definition memory_end :: "mmap_entry list \<Rightarrow> nat" where
  "memory_end es = Max (set (0 # map (\<lambda>e. unat (mm_addr e) + unat (mm_len e)) (filter (\<lambda>e. mm_type e = 1) es)))"

definition page_up :: "nat \<Rightarrow> nat" where "page_up x = (x + 4095) div 4096 * 4096"

lemma memory_end_le: "e \<in> set es \<Longrightarrow> mm_type e = 1 \<Longrightarrow> unat (mm_addr e) + unat (mm_len e) \<le> memory_end es"
  unfolding memory_end_def by (rule Max_ge) auto

lemma region_limit_fold:
  assumes "\<forall>e \<in> set es. mm_type e = 1 \<longrightarrow> unat (mm_addr e) + unat (mm_len e) < 2 ^ 64"
  shows "unat (fold region_limit es a) = max (unat a) (memory_end es)"
  using assms
proof (induction es arbitrary: a)
  case Nil
  then show ?case by (simp add: memory_end_def)
next
  case (Cons e es)
  have m: "memory_end (e # es) = (if mm_type e = 1 then max (unat (mm_addr e) + unat (mm_len e)) (memory_end es) else memory_end es)"
    by (simp add: memory_end_def insert_commute [of 0])
  have "unat (region_limit e a) = (if mm_type e = 1 then max (unat a) (unat (mm_addr e) + unat (mm_len e)) else unat a)"
    using Cons.prems by (auto simp: region_limit_def MULTIBOOT_MEMORY_AVAILABLE_def max_def word_le_nat_alt unat_add_lem [THEN iffD1])
  then show ?case using Cons by (auto simp: m max.assoc)
qed

lemma unat_align_page: "unat x + 4095 < 2 ^ 64 \<Longrightarrow> unat (align x PGSIZE :: addr_t) = page_up (unat x)"
  using unat_align [of 12 x] by (simp add: page_up_def PGSIZE_def)

lemma usable_pages_nat:
  assumes "mm_type e = 1 \<Longrightarrow> unat (mm_addr e) + unat (mm_len e) < 2 ^ 64"
  shows "p \<in> usable_pages R e \<longleftrightarrow> mm_type e = 1 \<and>
    (let lower = max (unat (mm_addr e)) (unat R) in lower div 4096 \<le> unat p \<and>
      unat p < lower div 4096 + (unat (mm_addr e) + unat (mm_len e) - lower) div 4096)"
proof (cases "mm_type e = 1")
  case True
  have e: "unat (mm_addr e + mm_len e) = unat (mm_addr e) + unat (mm_len e)"
    using assms [OF True] by (simp add: unat_add_lem [THEN iffD1])
  have d: "unat (drop_bit PGSHIFT x :: size_t) = unat x div 4096" "unat (x div PGSIZE :: size_t) = unat x div 4096" for x
    by (simp_all add: unat_drop_bit_eq drop_bit_eq_div [where 'a = nat] PGSHIFT_def unat_div PGSIZE_def)
  consider "unat (mm_addr e) + unat (mm_len e) \<le> unat R" | "unat R < unat (mm_addr e) + unat (mm_len e)" "unat (mm_addr e) < unat R"
    | "unat R < unat (mm_addr e) + unat (mm_len e)" "unat R \<le> unat (mm_addr e)" by linarith
  then show ?thesis
  proof cases
    case 1
    then have "mm_addr e + mm_len e \<le> R" by (simp add: word_le_nat_alt e)
    then show ?thesis using 1 True by (simp add: usable_pages_def usable_part_def Let_def max_def)
  next
    case 2
    then have "unat (mm_addr e + mm_len e - R) = unat (mm_addr e) + unat (mm_len e) - unat R"
      by (subst unat_sub) (simp_all add: word_le_nat_alt e)
    moreover have "\<not> mm_addr e + mm_len e \<le> R" "mm_addr e < R" using 2 by (simp_all add: word_le_nat_alt word_less_nat_alt e)
    ultimately show ?thesis
      using 2 True by (simp add: usable_pages_def usable_part_def pfn_range_def MULTIBOOT_MEMORY_AVAILABLE_def Let_def d max_def)
  next
    case 3
    then have "\<not> mm_addr e + mm_len e \<le> R" "\<not> mm_addr e < R" by (simp_all add: word_le_nat_alt word_less_nat_alt e)
    then show ?thesis
      using 3 True by (simp add: usable_pages_def usable_part_def pfn_range_def MULTIBOOT_MEMORY_AVAILABLE_def Let_def d max_def)
  qed
qed (simp add: usable_pages_def usable_part_def MULTIBOOT_MEMORY_AVAILABLE_def)

lemma whole_pages:
  fixes l p E :: nat
  assumes "l mod 4096 = 0" "l \<le> 4096 * p"
  shows "p < l div 4096 + (E - l) div 4096 \<longleftrightarrow> 4096 * p + 4096 \<le> E"
proof -
  obtain q where q: "l = 4096 * q" using assms(1) by (metis mod_0_imp_dvd dvdE)
  have qp: "q \<le> p" using assms(2) by (simp add: q)
  show ?thesis
  proof (cases "l \<le> E")
    case True
    then obtain d where d: "E = l + d" by (auto dest: le_Suc_ex)
    obtain k where k: "p = q + k" using qp by (auto dest: le_Suc_ex)
    have "4096 * p + 4096 \<le> E \<longleftrightarrow> Suc k * 4096 \<le> d" by (simp add: d q k algebra_simps)
    also have "\<dots> \<longleftrightarrow> Suc k \<le> d div 4096" by (simp only: less_eq_div_iff_mult_less_eq zero_less_numeral)
    finally show ?thesis by (simp add: d q k Suc_le_eq)
  next
    case False
    then show ?thesis using assms(2) qp by (simp add: q)
  qed
qed

lemma first_page: "l mod 4096 = 0 \<Longrightarrow> l div 4096 \<le> p \<longleftrightarrow> l \<le> 4096 * p" for l p :: nat
  by (metis div_mult_mod_eq add.right_neutral mult.commute mult_le_cancel1 zero_less_numeral)

lemma part_pages:
  fixes l p E :: nat
  assumes "l div 4096 \<le> p" "p < l div 4096 + (E - l) div 4096"
  shows "4096 * p + 4096 \<le> E"
proof -
  have "l < E" using assms by (cases "l < E") auto
  then obtain d where d: "E = l + d" by (auto dest: less_imp_add_positive)
  have "(l div 4096 + d div 4096) * 4096 \<le> l + d"
    using div_times_less_eq_dividend [of l 4096] div_times_less_eq_dividend [of d 4096] by (simp add: algebra_simps)
  moreover have "Suc p \<le> l div 4096 + d div 4096" using assms(2) d by simp
  then have "Suc p * 4096 \<le> (l div 4096 + d div 4096) * 4096" by (rule mult_le_mono1)
  ultimately show ?thesis by (simp add: d)
qed
text \<open>C14: Started on a memory map that ends below 8 TB, \<open>mem_map_init\<close> succeeds.  The reserved memory ends behind the
  kernel, the boot information and the bitmap itself; the map has a bit for every page up to the highest end of
  available memory; and a page is available exactly when it is one of the whole pages, counted from the first page,
  of the part of an available region (type 1) that lies at or above the end of the reserved memory.  So no page below
  it is ever available; and when the available regions start on page boundaries, the available pages are exactly the
  pages that lie in one of them and above the reserved memory as a whole.\<close>

theorem mem_map_init_marks:
  assumes "mboot_get_mboot_info (pm_mem s) (mboot_info s) MULTIBOOT_TAG_TYPE_MMAP = Some tag" "for_mmap (pm_mem s) tag = Some es"
    and "\<not> reserved_mem_ready s" "phy_addr_limit s = 0" "memory_end es \<le> 2 ^ 43 - 2 ^ 15"
    and "n = page_up (memory_end es) div 4096"
    and "used = max (unat (kern_end s)) (unat (mboot_info_end s - 0xFFFF800000000000))" "used < 2 ^ 62"
    and "R = page_up (page_up used + (n + 7) div 8)"
  shows "\<exists>s'. mem_map_init s = Some s' \<and> bitmap_ok (pm_map s') \<and> unat (map_size (pm_map s')) = n \<and> unat (pfn_max s') = n \<and>
    unat (phy_addr_limit s') = 4096 * n \<and> unat (reserved_end s') = R \<and>
    (\<forall>p. p \<in> avail_pages (pm_map s') \<longleftrightarrow> (\<exists>e \<in> set es. mm_type e = 1 \<and>
      (let lower = max (unat (mm_addr e)) R in lower div 4096 \<le> unat p \<and>
        unat p < lower div 4096 + (unat (mm_addr e) + unat (mm_len e) - lower) div 4096))) \<and>
    (\<forall>p \<in> avail_pages (pm_map s'). R \<le> 4096 * unat p) \<and>
    ((\<forall>e \<in> set es. mm_type e = 1 \<longrightarrow> 4096 dvd unat (mm_addr e)) \<longrightarrow>
      (\<forall>p. p \<in> avail_pages (pm_map s') \<longleftrightarrow> (\<exists>e \<in> set es. mm_type e = 1 \<and> R \<le> 4096 * unat p \<and>
        unat (mm_addr e) \<le> 4096 * unat p \<and> 4096 * unat p + 4096 \<le> unat (mm_addr e) + unat (mm_len e))))"
proof -
  let ?L = "memory_end es"
  define nw where "nw = div_round_up (align (fold region_limit es (phy_addr_limit s)) PGSIZE) PGSIZE"
  define R0 where "R0 = align (if paddr (mboot_info_end s) > kern_end s then paddr (mboot_info_end s) else kern_end s) PGSIZE"
  have ends: "unat (mm_addr e) + unat (mm_len e) \<le> ?L" if "e \<in> set es" "mm_type e = 1" for e using that by (rule memory_end_le)
  have fits: "unat (mm_addr e) + unat (mm_len e) < 2 ^ 64" if "e \<in> set es" "mm_type e = 1" for e
    using ends [OF that] assms(5) by simp
  have n: "?L \<le> 4096 * n" "4096 * n < ?L + 4096" "n + 8 \<le> 2 ^ 31" "page_up ?L = 4096 * n"
    using assms(5) by (simp_all add: assms(6) page_up_def)
  have limit: "unat (align (fold region_limit es (phy_addr_limit s)) PGSIZE) = 4096 * n"
    using region_limit_fold [of es 0] fits assms(4,5) n(4) by (subst unat_align_page) simp_all
  have nw: "unat nw = n"
  proof -
    have "unat (align (fold region_limit es (phy_addr_limit s)) PGSIZE + PGSIZE - 1) = 4096 * n + 4095"
    proof -
      have "align (fold region_limit es (phy_addr_limit s)) PGSIZE + PGSIZE - 1 = align (fold region_limit es (phy_addr_limit s)) PGSIZE + 4095"
        by (simp add: PGSIZE_def)
      then show ?thesis using n(3) limit by (simp only: unat_add_lem [THEN iffD1]) (simp add: unat_add_lem [THEN iffD1])
    qed
    then show ?thesis by (simp add: nw_def div_round_up_def unat_div) (simp add: PGSIZE_def)
  qed
  have used: "unat (if paddr (mboot_info_end s) > kern_end s then paddr (mboot_info_end s) else kern_end s) = used"
    using assms(7) by (auto simp: paddr_def KERN_BASE_def word_less_nat_alt)
  have R0: "unat R0 = page_up used"
    unfolding R0_def using assms(8) by (subst unat_align_page) (simp_all add: used)
  have "unat (nw + 8 - 1) = n + 7"
  proof -
    have "nw + 8 - 1 = nw + 7" by simp
    then show ?thesis using nw n(3) by (simp only: unat_add_lem [THEN iffD1]) (simp add: unat_add_lem [THEN iffD1])
  qed
  then have k: "unat (div_round_up nw 8) = (n + 7) div 8" by (simp add: div_round_up_def unat_div)
  have pu: "page_up used < 2 ^ 63" using assms(8) by (simp add: page_up_def)
  have R: "unat (align (R0 + div_round_up nw 8) PGSIZE) = R"
  proof -
    have "unat (R0 + div_round_up nw 8) = page_up used + (n + 7) div 8"
      using R0 k pu n(3) by (simp add: unat_add_lem [THEN iffD1])
    then show ?thesis using pu n(3) by (subst unat_align_page) (simp_all add: assms(9))
  qed
  obtain s' where s': "mem_map_init s = Some s'" "bitmap_ok (pm_map s')" "map_size (pm_map s') = nw" "pfn_max s' = nw"
      "phy_addr_limit s' = align (fold region_limit es (phy_addr_limit s)) PGSIZE" "unat (reserved_end s') = R"
      "avail_pages (pm_map s') = {p \<in> (\<Union>e \<in> set es. usable_pages (reserved_end s') e). unat p < unat nw}"
    using mem_map_marks [OF assms(1,2) nw_def _ assms(3) R0_def] nw n(3) R by auto
  have Rp: "R mod 4096 = 0" by (simp add: assms(9) page_up_def)
  have inside: "unat p < n" if "e \<in> set es" "mm_type e = 1" "l div 4096 \<le> unat p"
      "unat p < l div 4096 + (unat (mm_addr e) + unat (mm_len e) - l) div 4096" for e p and l :: nat
    using part_pages [OF that(3,4)] ends [OF that(1,2)] n(1) by linarith
  have iff: "p \<in> avail_pages (pm_map s') \<longleftrightarrow> (\<exists>e \<in> set es. mm_type e = 1 \<and>
      (let lower = max (unat (mm_addr e)) R in lower div 4096 \<le> unat p \<and>
        unat p < lower div 4096 + (unat (mm_addr e) + unat (mm_len e) - lower) div 4096))" for p
    using s'(7) usable_pages_nat [OF fits, of _ p "reserved_end s'"] inside by (auto simp: s'(6) nw Let_def)
  have low: "R \<le> 4096 * unat p" if "p \<in> avail_pages (pm_map s')" for p
  proof -
    from that obtain l where "R \<le> l" "l div 4096 \<le> unat p" unfolding iff Let_def by (meson max.cobounded2)
    then have "R div 4096 \<le> unat p" using div_le_mono [of R l 4096] by linarith
    then show ?thesis by (simp only: first_page [OF Rp])
  qed
  have whole: "(\<exists>e \<in> set es. mm_type e = 1 \<and> (let lower = max (unat (mm_addr e)) R in lower div 4096 \<le> unat p \<and>
        unat p < lower div 4096 + (unat (mm_addr e) + unat (mm_len e) - lower) div 4096)) \<longleftrightarrow>
      (\<exists>e \<in> set es. mm_type e = 1 \<and> R \<le> 4096 * unat p \<and>
        unat (mm_addr e) \<le> 4096 * unat p \<and> 4096 * unat p + 4096 \<le> unat (mm_addr e) + unat (mm_len e))"
    if al: "\<forall>e \<in> set es. mm_type e = 1 \<longrightarrow> 4096 dvd unat (mm_addr e)" for p
  proof (intro bex_cong refl conj_cong)
    fix e assume e: "e \<in> set es" "mm_type e = 1"
    define l where "l = max (unat (mm_addr e)) R"
    have l: "l mod 4096 = 0" "\<And>x. l \<le> x \<longleftrightarrow> unat (mm_addr e) \<le> x \<and> R \<le> x" using al e Rp by (auto simp: l_def max_def)
    have "l div 4096 \<le> unat p \<longleftrightarrow> l \<le> 4096 * unat p" by (rule first_page [OF l(1)])
    moreover note whole_pages [OF l(1), of "unat p" "unat (mm_addr e) + unat (mm_len e)"]
    ultimately show "(let lower = max (unat (mm_addr e)) R in lower div 4096 \<le> unat p \<and>
        unat p < lower div 4096 + (unat (mm_addr e) + unat (mm_len e) - lower) div 4096) \<longleftrightarrow>
      R \<le> 4096 * unat p \<and> unat (mm_addr e) \<le> 4096 * unat p \<and> 4096 * unat p + 4096 \<le> unat (mm_addr e) + unat (mm_len e)"
      using l(2) [of "4096 * unat p"] unfolding Let_def l_def [symmetric] by blast
  qed
  show ?thesis
  proof (intro exI [of _ s'] conjI impI allI ballI)
    show "unat (map_size (pm_map s')) = n" "unat (pfn_max s') = n" "unat (phy_addr_limit s') = 4096 * n"
      using s'(3-5) nw limit by simp_all
  qed (use s'(1,2,6) iff low whole in blast)+
qed

definition start_state :: pmm where
  "start_state = \<lparr>pm_zone = blank_zone 1024, pm_map = \<lparr>map_arr = [], map_size = 0\<rparr>, reserved_end = 0, pfn_max = 0,
     phy_addr_limit = 0, reserved_mem_ready = False, buddy_mem_ready = False, mm_ready = False, pm_mem = boot_mem,
     kern_end = 0x150000, mboot_info = 0x1000, mboot_info_end = kaddr 0x1060\<rparr>"

theorem mem_map_init_marks_witness:
  "\<exists>s'. mem_map_init start_state = Some s' \<and> unat (pfn_max s') = 1024 \<and> unat (reserved_end s') = 0x151000 \<and>
    0x151 \<in> avail_pages (pm_map s') \<and> 0x150 \<notin> avail_pages (pm_map s') \<and> 0x10 \<notin> avail_pages (pm_map s')"
proof -
  have t: "mboot_get_mboot_info (pm_mem start_state) (mboot_info start_state) MULTIBOOT_TAG_TYPE_MMAP = Some 0x1018"
    using tag_search_tags [OF boot_tags]
    by (simp add: start_state_def mboot_get_mboot_info_def tag_type_def boot_mem_loads multiboot_consts)
  let ?es = "[\<lparr>mm_addr = 0, mm_len = 0x9F000, mm_type = 1, mm_zero = 0\<rparr>, \<lparr>mm_addr = 0x100000, mm_len = 0x300000, mm_type = 1, mm_zero = 0\<rparr>]"
  have f: "for_mmap (pm_mem start_state) 0x1018 = Some ?es" by (simp add: start_state_def boot_mmap)
  have l: "memory_end ?es = 0x400000" by (simp add: memory_end_def)
  have h: "\<not> reserved_mem_ready start_state" "phy_addr_limit start_state = 0" "memory_end ?es \<le> 2 ^ 43 - 2 ^ 15"
      "1024 = page_up (memory_end ?es) div 4096"
      "0x150000 = max (unat (kern_end start_state)) (unat (mboot_info_end start_state - 0xFFFF800000000000))"
      "(0x150000 :: nat) < 2 ^ 62" "0x151000 = page_up (page_up 0x150000 + (1024 + 7) div 8)"
    unfolding l by (simp_all add: start_state_def page_up_def kaddr_def KERN_BASE_def)
  from mem_map_init_marks [OF t f h] obtain s' where s': "mem_map_init start_state = Some s'" "unat (pfn_max s') = 1024"
      "unat (reserved_end s') = 0x151000"
      "\<forall>p. p \<in> avail_pages (pm_map s') \<longleftrightarrow> (\<exists>e \<in> set ?es. mm_type e = 1 \<and>
        (let lower = max (unat (mm_addr e)) 0x151000 in lower div 4096 \<le> unat p \<and>
          unat p < lower div 4096 + (unat (mm_addr e) + unat (mm_len e) - lower) div 4096))" by blast
  have "0x151 \<in> avail_pages (pm_map s')" "0x150 \<notin> avail_pages (pm_map s')" "0x10 \<notin> avail_pages (pm_map s')"
    unfolding s'(4) [rule_format] by (simp_all add: Let_def)
  then show ?thesis using s'(1-3) by blast
qed

lemma block_page_alloc_ex:
  assumes "bitmap_ok (pm_map s)" "map_size (pm_map s) = pfn_max s" "nr \<noteq> 0" "unat (pfn_max s) + unat nr < 2 ^ 64"
  shows "\<exists>p. block_page_alloc s nr = Some p \<and>
    (if \<exists>k. fits (bit_at (pm_map s)) (unat (pfn_max s)) (unat nr) k
     then fits (bit_at (pm_map s)) (unat (pfn_max s)) (unat nr) (unat p) \<and> (\<forall>k < unat p. \<not> fits (bit_at (pm_map s)) (unat (pfn_max s)) (unat nr) k)
     else p = PFN_NOTFOUND)"
proof -
  have N: "unat (pfn_max s) + 8 \<le> 2 ^ 31" using page_bits.nbits_small [OF assms(1)] assms(2) by simp
  have "search_result (bit_at (pm_map s)) (unat (map_size (pm_map s))) (unat nr)
      (run_search (Suc (unat (pfn_max s))) (bitmap_find (pm_map s)) (pfn_max s) nr 0)"
    by (rule page_bits.run_search_spec [OF assms(1) _ assms(3)]) (use assms(2,4) in simp_all)
  then consider l where "run_search (Suc (unat (pfn_max s))) (bitmap_find (pm_map s)) (pfn_max s) nr 0 = Some (Some (of_nat l))"
      "fits (bit_at (pm_map s)) (unat (pfn_max s)) (unat nr) l" "\<forall>k < l. \<not> fits (bit_at (pm_map s)) (unat (pfn_max s)) (unat nr) k"
    | "run_search (Suc (unat (pfn_max s))) (bitmap_find (pm_map s)) (pfn_max s) nr 0 \<in> {Some (Some (-1)), Some None}"
      "\<forall>k. \<not> fits (bit_at (pm_map s)) (unat (pfn_max s)) (unat nr) k"
    unfolding search_result_def assms(2) by blast
  then show ?thesis
  proof cases
    case (1 l)
    then have "unat (of_nat l :: ssize_t) = l" using N by (simp add: fits_def unat_of_nat)
    then show ?thesis using 1 by (auto simp: block_page_alloc_def)
  qed (auto simp: block_page_alloc_def PFN_NOTFOUND_def)
qed

text \<open>C15: \<open>block_page_alloc\<close> always ends and returns the first page \<open>l\<close> of the map from which the pages up to
  \<open>l + nr\<close> are available, where the run may be cut short by the end of the map; when there is no such
  page it returns \<open>PFN_NOTFOUND\<close>.\<close>

theorem block_page_alloc_first_fit:
  assumes "bitmap_ok (pm_map s)" "map_size (pm_map s) = pfn_max s" "nr \<noteq> 0" "unat (pfn_max s) + unat nr < 2 ^ 64"
  shows "\<exists>p. block_page_alloc s nr = Some p \<and>
    (if \<exists>k. fits (bit_at (pm_map s)) (unat (pfn_max s)) (unat nr) k
     then fits (bit_at (pm_map s)) (unat (pfn_max s)) (unat nr) (unat p) \<and> (\<forall>k < unat p. \<not> fits (bit_at (pm_map s)) (unat (pfn_max s)) (unat nr) k)
     else p = PFN_NOTFOUND)"
  by (rule block_page_alloc_ex [OF assms])

definition sample_pmm :: pmm where
  "sample_pmm = start_state\<lparr>pm_map := sample_map, pfn_max := 20\<rparr>"

theorem block_page_alloc_first_fit_witness:
  "\<exists>p. block_page_alloc sample_pmm 3 = Some p \<and> fits (bit_at sample_map) 20 3 (unat p)"
proof -
  have a: "bitmap_ok (pm_map sample_pmm)" "map_size (pm_map sample_pmm) = pfn_max sample_pmm" "(3::size_t) \<noteq> 0"
    "unat (pfn_max sample_pmm) + unat (3::size_t) < 2 ^ 64"
    by (simp_all add: sample_pmm_def sample_map_def bitmap_ok_def bitmap_wf_def)
  have i: "\<not> bit_at sample_map 11" "\<not> bit_at sample_map 12" "\<not> bit_at sample_map 13"
    by (simp_all add: bit_at_def sample_map_def)
  have "fits (bit_at sample_map) 20 3 11" unfolding fits_def
  proof (intro conjI allI impI)
    fix k :: nat assume "11 \<le> k \<and> k < min 20 (11 + 3)"
    then have "k = 11 \<or> k = 12 \<or> k = 13" by linarith
    then show "\<not> bit_at sample_map k" using i by blast
  qed simp
  then have e: "\<exists>k. fits (bit_at sample_map) 20 3 k" by blast
  have f: "pm_map sample_pmm = sample_map" "unat (pfn_max sample_pmm) = 20" "unat (3 :: size_t) = 3"
    by (simp_all add: sample_pmm_def)
  show ?thesis using block_page_alloc_first_fit [OF a, unfolded f] e by auto
qed

text \<open>
  The abstract view of the running manager is a set of free page numbers: the free lists of the zone and
  the clear bits of the map describe the same set.
\<close>

definition pmm_rel :: "pmm \<Rightarrow> size_t set \<Rightarrow> bool" where
  "pmm_rel s A \<longleftrightarrow> mm_ready s \<and> buddy_mem_ready s \<and> bitmap_ok (pm_map s) \<and> map_size (pm_map s) = pfn_max s \<and>
     arr_len (pm_zone s) = unat (pfn_max s) \<and> avail_pages (pm_map s) = A \<and>
     (\<exists>fl. buddy_struct (pm_zone s) fl \<and> free_set fl = A)"

lemma pmm_rel_mem: "pmm_rel (s\<lparr>pm_mem := m\<rparr>) A = pmm_rel s A"
  by (simp add: pmm_rel_def)

definition array_pages :: "pmm \<Rightarrow> size_t" where
  "array_pages s = div_round_up (pfn_max s * PAGE_STRUCT_SIZE) PGSIZE"

definition handover_ready :: "pmm \<Rightarrow> bool" where
  "handover_ready s \<longleftrightarrow> mm_ready s \<and> \<not> buddy_mem_ready s \<and> bitmap_ok (pm_map s) \<and>
     map_size (pm_map s) = pfn_max s \<and> 1024 dvd unat (pfn_max s) \<and> pfn_max s \<noteq> 0"

text \<open>What \<open>buddy_init\<close> does after the pages of the array have been taken out of the map.\<close>

lemma buddy_init_step:
  assumes "handover_ready s" "block_page_alloc s (array_pages s) = Some p" "unat p + unat (array_pages s) < unat (pfn_max s)"
    and "\<forall>i. unat i < unat (pfn_max s) \<longrightarrow>
      load_u32 (pm_mem s) (kaddr (push_bit PGSHIFT p) + i * PAGE_STRUCT_SIZE) AND PAGE_FLAG_BUDDY = 0"
  obtains bm z0 where "bitmap_ok bm" "map_size bm = pfn_max s"
    "avail_pages bm = avail_pages (pm_map s) - pfn_range p (array_pages s)"
    "buddy_inv z0 (\<lambda>_. [])" "arr_len z0 = unat (pfn_max s)"
    "buddy_init s = map_option (\<lambda>z. s\<lparr>pm_map := bm, pm_zone := z\<rparr>)
       (free_runs (Suc (unat (pfn_max s))) bm (pfn_max s) z0 0)"
proof -
  note h = assms(1)[unfolded handover_ready_def]
  have N: "unat (pfn_max s) + 8 \<le> 2 ^ 31" using page_bits.nbits_small [of "pm_map s"] h by simp
  obtain bm where bm: "bitmap_set (pm_map s) MEM_PAGE_USED p (array_pages s) = Some bm" "bitmap_ok bm"
    "map_size bm = map_size (pm_map s)" "avail_pages bm = avail_pages (pm_map s) - pfn_range p (array_pages s)"
  proof (rule mark_pages [of "pm_map s" p "array_pages s" MEM_PAGE_USED])
    show "unat p \<le> unat (map_size (pm_map s))" "unat p + unat (array_pages s) < 2 ^ 64"
      using assms(3) h N by simp_all
  qed (use h in \<open>auto simp: MEM_PAGE_USED_def intro: that\<close>)
  let ?n = "unat (pfn_max s)"
  define zz where "zz = (pm_zone s)\<lparr>pages := page_array (pm_mem s) (kaddr (push_bit PGSHIFT p)) ?n, arr_len := ?n\<rparr>"
  have "buddy_inv (buddy_init_zone zz 0 (pfn_max s)) (\<lambda>_. [])"
    by (rule buddy_init_zone_inv)
      (use h N assms(4) in \<open>auto simp: zz_def page_array_def read_page_def\<close>)
  moreover have "arr_len (buddy_init_zone zz 0 (pfn_max s)) = ?n"
    by (simp add: buddy_init_zone_def init_areas_eq zz_def)
  moreover have "buddy_init s = map_option (\<lambda>z. s\<lparr>pm_map := bm, pm_zone := z\<rparr>)
       (free_runs (Suc (unat (pfn_max s))) bm (pfn_max s) (buddy_init_zone zz 0 (pfn_max s)) 0)"
    using h assms(2) bm(1)
    by (simp add: buddy_init_def mm_phy_page_alloc_def array_pages_def [symmetric] zz_def Let_def map_option_case del: free_runs.simps split: option.split)
  ultimately show ?thesis using bm h by (intro that) simp_all
qed

lemma last_page_stays:
  assumes "bitmap_ok bm" "map_size bm = pfn_max s" "avail_pages bm = avail_pages (pm_map s) - pfn_range p (array_pages s)"
    and "mm_ready s \<and> \<not> buddy_mem_ready s \<and> bitmap_ok (pm_map s) \<and>
      map_size (pm_map s) = pfn_max s \<and> 1024 dvd unat (pfn_max s) \<and> pfn_max s \<noteq> 0"
    and "unat p + unat (array_pages s) < unat (pfn_max s)"
  shows "bit_at bm (unat (pfn_max s) - 1) \<longleftrightarrow> bit_at (pm_map s) (unat (pfn_max s) - 1)"
proof -
  let ?q = "pfn_max s - 1"
  have "1 \<le> unat (pfn_max s)" using assms(4) unat_gt_0 [of "pfn_max s"] by simp
  then have q: "unat ?q = unat (pfn_max s) - 1" by (subst unat_sub) (simp_all add: word_le_nat_alt)
  have "?q \<notin> pfn_range p (array_pages s)" using assms(5) unfolding pfn_range_def q mem_Collect_eq by linarith
  then have "?q \<in> avail_pages bm \<longleftrightarrow> ?q \<in> avail_pages (pm_map s)" using assms(3) by blast
  then show ?thesis using assms(2,4) \<open>1 \<le> unat (pfn_max s)\<close> by (simp add: avail_pages_def q)
qed

text \<open>Allocation from the buddy allocator with its effect on both sides.\<close>

lemma alloc_ex:
  assumes "pmm_rel s A" "unat (pfn_max s) + unat nr < 2 ^ 64"
  obtains s' p fl where "mm_phy_page_alloc s nr = Some (s', push_bit PGSHIFT p)"
    "mm_ready s'" "buddy_mem_ready s'" "bitmap_ok (pm_map s')" "map_size (pm_map s') = pfn_max s'"
    "arr_len (pm_zone s') = unat (pfn_max s')" "buddy_struct (pm_zone s') fl"
    "if A = {} then p = PFN_NOTFOUND \<and> free_set fl = A \<and> avail_pages (pm_map s') = A
     else p \<in> A \<and> free_set fl = A - {p} \<and> avail_pages (pm_map s') = A - pfn_range p nr"
proof -
  obtain fl0 where r: "mm_ready s" "buddy_mem_ready s" "bitmap_ok (pm_map s)" "map_size (pm_map s) = pfn_max s"
    "arr_len (pm_zone s) = unat (pfn_max s)" "avail_pages (pm_map s) = A" "buddy_struct (pm_zone s) fl0" "free_set fl0 = A"
    using assms(1) unfolding pmm_rel_def by blast
  obtain z' p where z: "buddy_page_alloc (pm_zone s) nr = Some (z', p)"
    "if A = {} then z' = pm_zone s \<and> p = PFN_NOTFOUND
     else p \<in> A \<and> arr_len z' = arr_len (pm_zone s) \<and> (\<exists>fl'. buddy_struct z' fl' \<and> free_set fl' = A - {p})"
    using buddy_page_alloc_ex [OF r(7), of nr] unfolding r(8) by blast
  obtain bm where bm: "bitmap_set (pm_map s) MEM_PAGE_USED p nr = Some bm" "bitmap_ok bm" "map_size bm = pfn_max s"
    "avail_pages bm = (if A = {} then A else A - pfn_range p nr)"
  proof (cases "A = {}")
    case True
    then have "unat (map_size (pm_map s)) \<le> unat p"
      using z(2) page_bits.nbits_small [OF r(3)] by (simp add: PFN_NOTFOUND_def unsigned_minus_1_eq_mask mask_eq_exp_minus_1)
    then obtain bm where "bitmap_set (pm_map s) MEM_PAGE_USED p nr = Some bm" "bitmap_ok bm" "map_size bm = map_size (pm_map s)"
      "avail_pages bm = avail_pages (pm_map s)"
      by (rule mark_pages_past [OF r(3)]) (rule that; assumption)
    then show ?thesis using True r by (intro that [of bm]) simp_all
  next
    case False
    then have "p \<in> avail_pages (pm_map s)" using z(2) r(6) by simp
    then have p: "unat p < unat (map_size (pm_map s))" by (simp add: avail_pages_def)
    obtain bm where "bitmap_set (pm_map s) MEM_PAGE_USED p nr = Some bm" "bitmap_ok bm" "map_size bm = map_size (pm_map s)"
      "avail_pages bm = avail_pages (pm_map s) - pfn_range p nr"
    proof (rule mark_pages [OF r(3), of p nr MEM_PAGE_USED])
      show "unat p \<le> unat (map_size (pm_map s))" "unat p + unat nr < 2 ^ 64" using p assms(2) r(4) by simp_all
    qed (auto simp: MEM_PAGE_USED_def intro: that)
    then show ?thesis using False r by (intro that [of bm]) simp_all
  qed
  have e: "mm_phy_page_alloc s nr = Some (s\<lparr>pm_zone := z', pm_map := bm\<rparr>, push_bit PGSHIFT p)"
    using r(1,2) z(1) bm(1) by (simp add: mm_phy_page_alloc_def)
  obtain fl where "buddy_struct z' fl" "free_set fl = (if A = {} then A else A - {p})"
    using z(2) r(7,8) by (auto split: if_splits)
  moreover have "arr_len z' = unat (pfn_max s)" using z(2) r(5) by (auto split: if_splits)
  ultimately show thesis using e r bm z(2) by (intro that [of "s\<lparr>pm_zone := z', pm_map := bm\<rparr>" p fl]) (auto split: if_splits)
qed

lemma hands_over_ex:
  assumes "handover_ready s" "block_page_alloc s (array_pages s) = Some p" "unat p + unat (array_pages s) < unat (pfn_max s)"
    and "\<forall>i. unat i < unat (pfn_max s) \<longrightarrow>
      load_u32 (pm_mem s) (kaddr (push_bit PGSHIFT p) + i * PAGE_STRUCT_SIZE) AND PAGE_FLAG_BUDDY = 0"
    and "\<not> bit_at (pm_map s) (unat (pfn_max s) - 1)"
  shows "\<exists>s'. pmm_init s = Some s' \<and> pmm_rel s' (avail_pages (pm_map s) - pfn_range p (array_pages s))"
proof -
  note h = assms(1)[unfolded handover_ready_def]
  obtain bm z0 where b: "bitmap_ok bm" "map_size bm = pfn_max s"
    "avail_pages bm = avail_pages (pm_map s) - pfn_range p (array_pages s)"
    "buddy_inv z0 (\<lambda>_. [])" "arr_len z0 = unat (pfn_max s)"
    "buddy_init s = map_option (\<lambda>z. s\<lparr>pm_map := bm, pm_zone := z\<rparr>)
       (free_runs (Suc (unat (pfn_max s))) bm (pfn_max s) z0 0)"
    by (rule buddy_init_step [OF assms(1-4)]) (rule that; assumption)
  have last: "\<not> bit_at bm (unat (pfn_max s) - 1)"
    using last_page_stays [OF b(1-3) h assms(3)] assms(5) by blast
  obtain z' fl' where z': "free_runs (Suc (unat (pfn_max s))) bm (pfn_max s) z0 0 = Some z'" "buddy_inv z' fl'"
    "free_set fl' = avail_pages bm" "arr_len z' = unat (pfn_max s)"
    using free_runs_spec [OF b(1,2) last b(5,4), of 0 "Suc (unat (pfn_max s))"] by (auto simp: free_set_def)
  then have "pmm_init s = Some (s\<lparr>pm_map := bm, pm_zone := z', buddy_mem_ready := True\<rparr>)"
    by (simp add: pmm_init_def b(6) del: free_runs.simps)
  then show ?thesis
    using b z' h by (intro exI [of _ "s\<lparr>pm_map := bm, pm_zone := z', buddy_mem_ready := True\<rparr>"])
      (auto simp: pmm_rel_def buddy_inv_def)
qed

text \<open>C12: On a map of a multiple of 1024 pages, with room for the array of page structures below the last page, the
  last page available and no stale buddy marks in the memory of the array, \<open>pmm_init\<close> ends with a zone
  whose free lists hold exactly the available pages, less the run it took for the array: from then on
  the zone and the map describe one set of free pages.\<close>

theorem pmm_init_hands_over:
  assumes "handover_ready s" "block_page_alloc s (array_pages s) = Some p" "unat p + unat (array_pages s) < unat (pfn_max s)"
    and "\<forall>i. unat i < unat (pfn_max s) \<longrightarrow>
      load_u32 (pm_mem s) (kaddr (push_bit PGSHIFT p) + i * PAGE_STRUCT_SIZE) AND PAGE_FLAG_BUDDY = 0"
    and "\<not> bit_at (pm_map s) (unat (pfn_max s) - 1)"
  shows "\<exists>s'. pmm_init s = Some s' \<and> pmm_rel s' (avail_pages (pm_map s) - pfn_range p (array_pages s))"
  by (rule hands_over_ex [OF assms])

definition ready_state :: "u8 \<Rightarrow> pmm" where
  "ready_state b = start_state\<lparr>pm_map := \<lparr>map_arr = replicate 127 0 @ [b], map_size = 1024\<rparr>, pfn_max := 1024,
     reserved_mem_ready := True, mm_ready := True, pm_mem := (\<lambda>_. 0)\<rparr>"

lemma ready_state_facts:
  "handover_ready (ready_state b)" "block_page_alloc (ready_state b) (array_pages (ready_state b)) = Some 0"
  "unat (0 :: size_t) + unat (array_pages (ready_state b)) < unat (pfn_max (ready_state b))"
  "\<forall>i. unat i < unat (pfn_max (ready_state b)) \<longrightarrow>
      load_u32 (pm_mem (ready_state b)) (kaddr (push_bit PGSHIFT 0) + i * PAGE_STRUCT_SIZE) AND PAGE_FLAG_BUDDY = 0"
proof -
  let ?s = "ready_state b"
  have s: "pfn_max ?s = 1024" "pm_mem ?s = (\<lambda>_. 0)" "pm_map ?s = \<lparr>map_arr = replicate 127 0 @ [b], map_size = 1024\<rparr>"
    by (simp_all add: ready_state_def)
  show h: "handover_ready ?s"
    by (simp add: ready_state_def start_state_def handover_ready_def bitmap_ok_def bitmap_wf_def)
  have n: "array_pages ?s = 8" by (simp add: array_pages_def s div_round_up_def PAGE_STRUCT_SIZE_def PGSIZE_def)
  then show "unat (0 :: size_t) + unat (array_pages ?s) < unat (pfn_max ?s)" by (simp add: s)
  have "load_le (\<lambda>_. 0) p k = 0" for p k by (induction k arbitrary: p) auto
  then show "\<forall>i. unat i < unat (pfn_max ?s) \<longrightarrow>
      load_u32 (pm_mem ?s) (kaddr (push_bit PGSHIFT 0) + i * PAGE_STRUCT_SIZE) AND PAGE_FLAG_BUDDY = 0"
    by (simp add: s load_u32_def)
  have f: "fits (bit_at (pm_map ?s)) (unat (pfn_max ?s)) (unat (8 :: size_t)) 0"
    by (auto simp: fits_def s bit_at_def nth_append)
  have p: "\<exists>p. block_page_alloc ?s 8 = Some p \<and>
    (if \<exists>k. fits (bit_at (pm_map ?s)) (unat (pfn_max ?s)) (unat (8 :: size_t)) k
     then fits (bit_at (pm_map ?s)) (unat (pfn_max ?s)) (unat (8 :: size_t)) (unat p) \<and>
       (\<forall>k < unat p. \<not> fits (bit_at (pm_map ?s)) (unat (pfn_max ?s)) (unat (8 :: size_t)) k)
     else p = PFN_NOTFOUND)"
    by (rule block_page_alloc_ex) (use h in \<open>simp_all add: handover_ready_def s\<close>)
  then obtain p where p: "block_page_alloc ?s 8 = Some p" "\<not> 0 < unat p" using f by (auto split: if_splits)
  then have "p = 0" by (simp add: unat_gt_0)
  then show "block_page_alloc ?s (array_pages ?s) = Some 0" using p n by simp
qed

lemma ready_last: "\<not> bit_at (pm_map (ready_state 0)) (unat (pfn_max (ready_state 0)) - 1)"
  by (simp add: ready_state_def bit_at_def nth_append)

definition ready_pages :: "size_t set" where
  "ready_pages = avail_pages (pm_map (ready_state 0)) - pfn_range 0 (array_pages (ready_state 0))"

lemma ready_running: "\<exists>s. pmm_rel s ready_pages"
  using hands_over_ex [OF ready_state_facts ready_last] unfolding ready_pages_def by blast

lemma ready_pages_ne: "ready_pages \<noteq> {}"
proof -
  have "1023 \<in> ready_pages"
    by (simp add: ready_pages_def avail_pages_def ready_state_def bit_at_def nth_append pfn_range_def array_pages_def
        div_round_up_def PAGE_STRUCT_SIZE_def PGSIZE_def)
  then show ?thesis by blast
qed

theorem pmm_init_hands_over_witness: "\<exists>s'. pmm_init (ready_state 0) = Some s' \<and> pmm_rel s' ready_pages"
  unfolding ready_pages_def by (rule pmm_init_hands_over [OF ready_state_facts ready_last])

text \<open>When the last page of memory is not available, as when the highest available region does not end on a page
  boundary, \<open>pmm_init\<close> never gets through: after the last run \<open>buddy_init\<close> hands page \<open>-1\<close> to \<open>buddy_page_free\<close>,
  which reads outside the page array.\<close>

theorem pmm_init_last_page_faults:
  assumes "handover_ready s" "block_page_alloc s (array_pages s) = Some p" "unat p + unat (array_pages s) < unat (pfn_max s)"
    and "\<forall>i. unat i < unat (pfn_max s) \<longrightarrow>
      load_u32 (pm_mem s) (kaddr (push_bit PGSHIFT p) + i * PAGE_STRUCT_SIZE) AND PAGE_FLAG_BUDDY = 0"
    and "bit_at (pm_map s) (unat (pfn_max s) - 1)"
  shows "pmm_init s = None \<and> buddy_page_free (buddy_init_zone (blank_zone 1024) 0 1024) (-1) 1 = None"
proof
  note h = assms(1)[unfolded handover_ready_def]
  obtain bm z0 where b: "bitmap_ok bm" "map_size bm = pfn_max s"
    "avail_pages bm = avail_pages (pm_map s) - pfn_range p (array_pages s)"
    "buddy_inv z0 (\<lambda>_. [])" "arr_len z0 = unat (pfn_max s)"
    "buddy_init s = map_option (\<lambda>z. s\<lparr>pm_map := bm, pm_zone := z\<rparr>)
       (free_runs (Suc (unat (pfn_max s))) bm (pfn_max s) z0 0)"
    by (rule buddy_init_step [OF assms(1-4)]) (rule that; assumption)
  have last: "bit_at bm (unat (pfn_max s) - 1)"
    using last_page_stays [OF b(1-3) h assms(3)] assms(5) by blast
  have "free_runs (Suc (unat (pfn_max s))) bm (pfn_max s) z0 0 = None"
    by (rule free_runs_fault [OF b(1,2) last b(5,4)]) (use h in \<open>auto simp: free_set_def unat_gt_0\<close>)
  then show "pmm_init s = None" by (simp add: pmm_init_def b(6) del: free_runs.simps)
  show "buddy_page_free (buddy_init_zone (blank_zone 1024) 0 1024) (-1) 1 = None"
    using empty_zone_struct by (intro free_minus_one) (simp_all add: empty_zone_def buddy_init_zone_def init_areas_eq blank_zone_def)
qed

theorem pmm_init_last_page_faults_witness: "pmm_init (ready_state 0x80) = None"
proof -
  have "bit_at (pm_map (ready_state 0x80)) (unat (pfn_max (ready_state 0x80)) - 1)"
    by (simp add: ready_state_def bit_at_def nth_append)
  then show ?thesis using pmm_init_last_page_faults [OF ready_state_facts, of "0x80"] by blast
qed

lemma alloc_one_ex:
  assumes "pmm_rel s A"
  shows "\<exists>s' r. mm_phy_page_alloc s 1 = Some (s', r) \<and>
    (if A = {} then r = 0xFFFFFFFFFFFFF000 \<and> pmm_rel s' A
     else \<exists>p \<in> A. r = push_bit PGSHIFT p \<and> pmm_rel s' (A - {p}))"
proof -
  have n1: "unat (pfn_max s) + unat (1 :: size_t) < 2 ^ 64"
    using assms page_bits.nbits_small [of "pm_map s"] by (auto simp: pmm_rel_def)
  obtain s' p fl where s': "mm_phy_page_alloc s 1 = Some (s', push_bit PGSHIFT p)"
    "mm_ready s'" "buddy_mem_ready s'" "bitmap_ok (pm_map s')" "map_size (pm_map s') = pfn_max s'"
    "arr_len (pm_zone s') = unat (pfn_max s')" "buddy_struct (pm_zone s') fl"
    "if A = {} then p = PFN_NOTFOUND \<and> free_set fl = A \<and> avail_pages (pm_map s') = A
     else p \<in> A \<and> free_set fl = A - {p} \<and> avail_pages (pm_map s') = A - pfn_range p 1"
    by (rule alloc_ex [OF assms n1]) (rule that; assumption)
  moreover have "pfn_range p 1 = {p}"
  proof -
    have "unat p \<le> unat x \<and> unat x < unat p + 1 \<longleftrightarrow> x = p" for x :: size_t
      using word_unat_eq_iff [of x p] by linarith
    then show ?thesis by (auto simp: pfn_range_def)
  qed
  moreover have "push_bit PGSHIFT PFN_NOTFOUND = (0xFFFFFFFFFFFFF000 :: addr_t)" by (simp add: PGSHIFT_def PFN_NOTFOUND_def push_bit_eq_mult del: push_bit_minus_one_eq_not_mask)
  ultimately show ?thesis unfolding pmm_rel_def by (intro exI [of _ s'] exI [of _ "push_bit PGSHIFT p"]) (auto split: if_splits)
qed

lemma alloc_mem: "mm_phy_page_alloc s nr = Some (s', r) \<Longrightarrow> pm_mem s' = pm_mem s"
  by (auto simp: mm_phy_page_alloc_def reserved_mem_alloc_def reserved_mem_allocator_init_def Let_def split: if_splits bind_splits)

lemma alloc_pfn_max: "mm_phy_page_alloc s nr = Some (s', r) \<Longrightarrow> pfn_max s' = pfn_max s"
  by (auto simp: mm_phy_page_alloc_def reserved_mem_alloc_def reserved_mem_allocator_init_def Let_def split: if_splits bind_splits)

text \<open>C11: While the zone and the map agree on the set of free pages, allocating one page implements "take any
  element": the page leaves both, and when nothing is free the address of page \<open>PFN_NOTFOUND\<close> comes back
  and both stay as they are.\<close>

theorem mm_phy_page_alloc_refines:
  assumes "pmm_rel s A"
  shows "\<exists>s' r. mm_phy_page_alloc s 1 = Some (s', r) \<and>
    (if A = {} then r = 0xFFFFFFFFFFFFF000 \<and> pmm_rel s' A
     else \<exists>p \<in> A. r = push_bit PGSHIFT p \<and> pmm_rel s' (A - {p}))"
  by (rule alloc_one_ex [OF assms])

theorem mm_phy_page_alloc_refines_witness:
  "\<exists>s s' p. pmm_rel s ready_pages \<and> mm_phy_page_alloc s 1 = Some (s', push_bit PGSHIFT p)"
proof -
  obtain s where s: "pmm_rel s ready_pages" using ready_running by blast
  then show ?thesis using mm_phy_page_alloc_refines [OF s] ready_pages_ne by auto
qed

text \<open>C13: Asked for more than one page, the manager hands out a page \<open>p\<close> and marks the whole run from \<open>p\<close> used in the
  map, but only \<open>p\<close> leaves the free lists: every other page of the run that was free stays there, to be
  handed out again.\<close>

theorem multi_page_alloc_shares_pages:
  assumes "pmm_rel s A" "A \<noteq> {}" "unat (pfn_max s) + unat nr < 2 ^ 64"
  shows "\<exists>s' p fl. mm_phy_page_alloc s nr = Some (s', push_bit PGSHIFT p) \<and> p \<in> A \<and>
    avail_pages (pm_map s') = A - pfn_range p nr \<and> buddy_struct (pm_zone s') fl \<and> free_set fl = A - {p}"
proof -
  obtain s' p fl where "mm_phy_page_alloc s nr = Some (s', push_bit PGSHIFT p)"
    "mm_ready s'" "buddy_mem_ready s'" "bitmap_ok (pm_map s')" "map_size (pm_map s') = pfn_max s'"
    "arr_len (pm_zone s') = unat (pfn_max s')" "buddy_struct (pm_zone s') fl"
    "if A = {} then p = PFN_NOTFOUND \<and> free_set fl = A \<and> avail_pages (pm_map s') = A
     else p \<in> A \<and> free_set fl = A - {p} \<and> avail_pages (pm_map s') = A - pfn_range p nr"
    by (rule alloc_ex [OF assms(1) assms(3)]) (rule that; assumption)
  then show ?thesis using assms(2) by auto
qed

theorem multi_page_alloc_shares_pages_witness:
  "\<exists>s s' p fl. pmm_rel s ready_pages \<and> mm_phy_page_alloc s 4 = Some (s', push_bit PGSHIFT p) \<and>
    avail_pages (pm_map s') = ready_pages - pfn_range p 4 \<and> free_set fl = ready_pages - {p}"
proof -
  obtain s where s: "pmm_rel s ready_pages" using ready_running by blast
  then have "unat (pfn_max s) + unat (4 :: size_t) < 2 ^ 64"
    using page_bits.nbits_small [of "pm_map s"] by (auto simp: pmm_rel_def)
  then show ?thesis using multi_page_alloc_shares_pages [OF s ready_pages_ne, of 4] s by blast
qed

end
