(* ===== verification/Slab.thy ===== *)
theory Slab
  imports PhysMem
begin

text \<open>
  The slab allocator and \<open>kmalloc\<close>, \<open>src/kernel/mm/slab.c\<close> with the structures of \<open>include/kernel/mm.h\<close>.
  Cache descriptors and slab headers are records found by their address, the list nodes they hold are the
  nodes of one \<open>DList\<close> store, and the links of the free objects are words of the byte memory \<open>pm_mem\<close>,
  where the users of the objects write too.  Page structures are those of the zone of \<open>PhysMem\<close>.
  \<open>None\<close> is a fault (a page outside the page array, a null cache) or an \<open>acquire\<close> of a lock that is held.
  The address of the static cache \<open>mm_slab_cache\<close> is an argument.
\<close>

section \<open>Structures\<close>

definition SLAB_CACHE_MAX_NAME :: nat where "SLAB_CACHE_MAX_NAME = 32"
definition SLAB_MIN_SIZE :: size_t where "SLAB_MIN_SIZE = 8"
definition SLAB_MAX_OBJS_PER_PAGE :: size_t where "SLAB_MAX_OBJS_PER_PAGE = 512"
definition SIZEOF_SLAB :: size_t where "SIZEOF_SLAB = 48"
definition SIZEOF_KMEM_CACHE :: size_t where "SIZEOF_KMEM_CACHE = 120"

record slab =
  freelist :: addr_t
  inuse :: u32
  free :: u32
  slab_page :: size_t

record kmem_cache =
  cache_name :: string
  obj_size :: u32
  cache_size :: u32
  cache_align :: u32
  objs_per_page :: u32
  cache_lock :: bool

text \<open>The list nodes: the three heads in a cache at an address, the node at the start of a slab.\<close>

datatype snode = SlabsFull addr_t | SlabsPartial addr_t | SlabsFree addr_t | SlabNode addr_t

record kmem =
  km_pmm :: pmm
  km_caches :: "addr_t \<Rightarrow> kmem_cache"
  km_slabs :: "addr_t \<Rightarrow> slab"
  km_nodes :: "snode store"
  kmalloc_caches :: "addr_t list"

definition kmalloc_infos :: "(string \<times> size_t) list" where
  "kmalloc_infos = [(''kmalloc-8'', 8), (''kmalloc-16'', 16), (''kmalloc-32'', 32), (''kmalloc-64'', 64),
     (''kmalloc-96'', 96), (''kmalloc-128'', 128), (''kmalloc-192'', 192), (''kmalloc-256'', 256),
     (''kmalloc-512'', 512), (''kmalloc-1k'', 1024), (''kmalloc-2k'', 2048)]"

definition MAX_KMALLOC_CACHE_SIZE :: size_t where "MAX_KMALLOC_CACHE_SIZE = 2048"

section \<open>Caches and slabs\<close>

definition acquire_cache :: "addr_t \<Rightarrow> kmem \<Rightarrow> kmem option" where
  "acquire_cache c k =
     (if cache_lock (km_caches k c) then None
      else Some (k\<lparr>km_caches := (km_caches k)(c := (km_caches k c)\<lparr>cache_lock := True\<rparr>)\<rparr>))"

definition release_cache :: "addr_t \<Rightarrow> kmem \<Rightarrow> kmem" where
  "release_cache c k = k\<lparr>km_caches := (km_caches k)(c := (km_caches k c)\<lparr>cache_lock := False\<rparr>)\<rparr>"

definition cache_geometry :: "size_t \<Rightarrow> size_t \<Rightarrow> size_t \<times> size_t \<times> size_t" where
  "cache_geometry sz align_size =
     (let al = (if align_size < SLAB_MIN_SIZE then SLAB_MIN_SIZE else align_size);
          s = align sz al
      in (s, al, min ((PGSIZE - SIZEOF_SLAB) div s) SLAB_MAX_OBJS_PER_PAGE))"

definition kmem_init_cache :: "kmem \<Rightarrow> addr_t \<Rightarrow> string \<Rightarrow> size_t \<Rightarrow> size_t \<Rightarrow> kmem" where
  "kmem_init_cache k c name sz align_size =
     (case cache_geometry sz align_size of (s, al, n) \<Rightarrow>
      k\<lparr>km_caches := (km_caches k)(c := (km_caches k c)\<lparr>cache_name := take (SLAB_CACHE_MAX_NAME - 1) name,
          obj_size := ucast s, cache_size := ucast s, cache_align := ucast al, objs_per_page := ucast n\<rparr>),
        km_nodes := list_init (SlabsFree c) (list_init (SlabsPartial c) (list_init (SlabsFull c) (km_nodes k)))\<rparr>)"

text \<open>The loop of \<open>cache_grow\<close> that threads the free list through the objects of a page.\<close>

fun thread_objects :: "nat \<Rightarrow> mem \<Rightarrow> addr_t \<Rightarrow> addr_t \<Rightarrow> addr_t \<Rightarrow> mem \<times> addr_t" where
  "thread_objects 0 m sz obj fr = (m, fr)"
| "thread_objects (Suc n) m sz obj fr = thread_objects n (store_u64 m (obj - sz) fr) sz (obj - sz) (obj - sz)"

definition set_page :: "size_t \<Rightarrow> (page \<Rightarrow> page) \<Rightarrow> pmm \<Rightarrow> pmm option" where
  "set_page pfn f p =
     (let z = pm_zone p; i = pfn_to_page z pfn
      in if page_ok z i then Some (p\<lparr>pm_zone := z\<lparr>pages := (pages z)(i := f (pages z i))\<rparr>\<rparr>) else None)"

definition get_page :: "size_t \<Rightarrow> pmm \<Rightarrow> page option" where
  "get_page pfn p = (let z = pm_zone p; i = pfn_to_page z pfn in if page_ok z i then Some (pages z i) else None)"

text \<open>\<open>None\<close> is a fault; the null pointer the function returns without memory is \<open>0\<close>.\<close>

definition cache_grow :: "addr_t \<Rightarrow> kmem \<Rightarrow> (kmem \<times> addr_t) option" where
  "cache_grow c k =
     do { (p1, phy) \<leftarrow> mm_phy_page_zalloc (km_pmm k) 1;
          if phy = 0 then Some (k\<lparr>km_pmm := p1\<rparr>, 0)
          else do {
            p2 \<leftarrow> set_page (drop_bit PGSHIFT phy) (\<lambda>pg. pg\<lparr>page_flag := page_flag pg OR PAGE_FLAG_SLAB, page_u := c\<rparr>) p1;
            let cachep = km_caches k c;
            let sl = kaddr phy;
            let (m, fr) = thread_objects (unat (objs_per_page cachep)) (pm_mem p2) (ucast (cache_size cachep)) (sl + PGSIZE) 0;
            Some (k\<lparr>km_pmm := p2\<lparr>pm_mem := m\<rparr>,
                    km_slabs := (km_slabs k)(sl := \<lparr>freelist = fr, inuse = 0, free = objs_per_page cachep,
                       slab_page = pfn_to_page (pm_zone p1) (drop_bit PGSHIFT phy)\<rparr>)\<rparr>, sl) } }"

definition pick_slab :: "addr_t \<Rightarrow> kmem \<Rightarrow> (kmem \<times> addr_t) option" where
  "pick_slab c k =
     (case list_front (km_nodes k) (SlabsPartial c) of
        Some (SlabNode sl) \<Rightarrow> Some (k, sl)
      | Some _ \<Rightarrow> None
      | None \<Rightarrow> (case list_front (km_nodes k) (SlabsFree c) of
          Some (SlabNode sl) \<Rightarrow> Some (k\<lparr>km_nodes := list_move (SlabNode sl) (SlabsPartial c) (km_nodes k)\<rparr>, sl)
        | Some _ \<Rightarrow> None
        | None \<Rightarrow> do {
            (k1, sl) \<leftarrow> cache_grow c k;
            Some (if sl = 0 then k1 else k1\<lparr>km_nodes := list_add_first (SlabNode sl) (SlabsPartial c) (km_nodes k1)\<rparr>, sl) }))"

definition take_object :: "addr_t \<Rightarrow> addr_t \<Rightarrow> kmem \<Rightarrow> kmem \<times> addr_t" where
  "take_object c sl k =
     (let s = km_slabs k sl;
          obj = freelist s;
          s1 = s\<lparr>freelist := load_u64 (pm_mem (km_pmm k)) obj, inuse := inuse s + 1, free := free s - 1\<rparr>;
          k1 = k\<lparr>km_slabs := (km_slabs k)(sl := s1)\<rparr>
      in (if free s1 = 0 then k1\<lparr>km_nodes := list_move (SlabNode sl) (SlabsFull c) (km_nodes k1)\<rparr> else k1, obj))"

definition kmem_cache_alloc :: "addr_t \<Rightarrow> kmem \<Rightarrow> (kmem \<times> addr_t) option" where
  "kmem_cache_alloc c k =
     do { k0 \<leftarrow> acquire_cache c k;
          (k1, sl) \<leftarrow> pick_slab c k0;
          if sl = 0 then Some (release_cache c k1, 0)
          else let (k2, obj) = take_object c sl k1 in Some (release_cache c k2, obj) }"

definition kmem_cache_free :: "addr_t \<Rightarrow> addr_t \<Rightarrow> kmem \<Rightarrow> kmem option" where
  "kmem_cache_free c obj k =
     do { k0 \<leftarrow> acquire_cache c k;
          let sl = align_down obj PGSIZE;
          let s = km_slabs k0 sl;
          let s1 = s\<lparr>freelist := obj, inuse := inuse s - 1, free := free s + 1\<rparr>;
          let k1 = k0\<lparr>km_pmm := (km_pmm k0)\<lparr>pm_mem := store_u64 (pm_mem (km_pmm k0)) obj (freelist s)\<rparr>,
                      km_slabs := (km_slabs k0)(sl := s1)\<rparr>;
          let k2 = (if inuse s1 = 0 then k1\<lparr>km_nodes := list_move (SlabNode sl) (SlabsFree c) (km_nodes k1)\<rparr> else k1);
          Some (release_cache c k2) }"

definition kmem_cache_create :: "addr_t \<Rightarrow> string \<Rightarrow> size_t \<Rightarrow> kmem \<Rightarrow> (kmem \<times> addr_t) option" where
  "kmem_cache_create slab_cache name sz k =
     do { (k1, c) \<leftarrow> kmem_cache_alloc slab_cache k;
          Some (kmem_init_cache k1 c name sz word_size, c) }"

section \<open>kmalloc\<close>

definition kmalloc_size_index :: "size_t \<Rightarrow> cint" where
  "kmalloc_size_index sz =
     (let (fls, s) = (1, align sz word_size - 1);
          (fls, s) = (if s AND 0xFF00 \<noteq> 0 then (fls + 8, drop_bit 8 s) else (fls, s));
          (fls, s) = (if s AND 0xF0 \<noteq> 0 then (fls + 4, drop_bit 4 s) else (fls, s));
          (fls, s) = (if s AND 0xC \<noteq> 0 then (fls + 2, drop_bit 2 s) else (fls, s));
          last2bit = (ucast s :: cint);
          fls = (if s AND 2 \<noteq> 0 then fls + 1 else fls);
          index = fls - 3;
          index = (if (fls = 6 \<or> fls = 7) \<and> last2bit AND 1 \<noteq> 0 then index + 1 else index)
      in if fls = 7 then index + 1 else if 7 <s fls then index + 2 else index)"

definition kmalloc :: "size_t \<Rightarrow> kmem \<Rightarrow> (kmem \<times> addr_t) option" where
  "kmalloc sz k =
     (if sz = 0 then Some (k, 0)
      else if sz > MAX_KMALLOC_CACHE_SIZE then
        let num_page = drop_bit PGSHIFT (align sz PGSIZE) in do {
          (p1, phy) \<leftarrow> mm_phy_page_alloc (km_pmm k) num_page;
          p2 \<leftarrow> set_page (drop_bit PGSHIFT phy) (\<lambda>pg. pg\<lparr>page_u := num_page\<rparr>) p1;
          Some (k\<lparr>km_pmm := p2\<rparr>, kaddr phy) }
      else let i = kmalloc_size_index sz in
        if sint i < 0 \<or> int (length (kmalloc_caches k)) \<le> sint i then None
        else kmem_cache_alloc (kmalloc_caches k ! nat (sint i)) k)"

definition kfree :: "addr_t \<Rightarrow> kmem \<Rightarrow> kmem option" where
  "kfree obj k =
     do { pg \<leftarrow> get_page (drop_bit PGSHIFT (paddr obj)) (km_pmm k);
          if page_flag pg AND PAGE_FLAG_SLAB \<noteq> 0 then kmem_cache_free (page_u pg) obj k
          else map_option (\<lambda>p. k\<lparr>km_pmm := p\<rparr>) (mm_phy_page_free (km_pmm k) (paddr obj) (page_u pg)) }"

fun create_caches :: "addr_t \<Rightarrow> (string \<times> size_t) list \<Rightarrow> kmem \<Rightarrow> kmem option" where
  "create_caches slab_cache [] k = Some k"
| "create_caches slab_cache ((name, sz) # infos) k =
     do { (k1, c) \<leftarrow> kmem_cache_create slab_cache name sz k;
          create_caches slab_cache infos (k1\<lparr>kmalloc_caches := kmalloc_caches k1 @ [c]\<rparr>) }"

definition kmem_init :: "addr_t \<Rightarrow> kmem \<Rightarrow> kmem option" where
  "kmem_init slab_cache k =
     create_caches slab_cache kmalloc_infos
       ((kmem_init_cache k slab_cache ''kmem_cache'' SIZEOF_KMEM_CACHE word_size)\<lparr>kmalloc_caches := []\<rparr>)"

section \<open>Size classes\<close>

text \<open>The class \<open>kmalloc_size_index\<close> picks, as a table.\<close>

definition size_class :: "nat \<Rightarrow> nat" where
  "size_class n = (if n \<le> 8 then 0 else if n \<le> 16 then 1 else if n \<le> 32 then 2 else if n \<le> 48 then 3 else if n \<le> 64 then 4
     else if n \<le> 128 then 6 else if n \<le> 256 then 7 else if n \<le> 512 then 8 else if n \<le> 1024 then 9 else 10)"

definition index_agrees :: "nat \<Rightarrow> bool" where
  "index_agrees q \<longleftrightarrow> kmalloc_size_index (of_nat (8 * q)) = of_nat (size_class (8 * q))"

lemmas index_unfold = index_agrees_def kmalloc_size_index_def size_class_def align_def size_mask_def word_size_def

lemma index_table: "list_all index_agrees [1..<257]"
proof -
  have "index_agrees 1" by (simp add: index_unfold)
  moreover have "list_all index_agrees [2..<65]" by (simp add: upt_rec_numeral index_unfold)
  moreover have "list_all index_agrees [65..<129]" by (simp add: upt_rec_numeral index_unfold)
  moreover have "list_all index_agrees [129..<193]" by (simp add: upt_rec_numeral index_unfold)
  moreover have "list_all index_agrees [193..<257]" by (simp add: upt_rec_numeral index_unfold)
  ultimately have "index_agrees q" if "1 \<le> q" "q < 257" for q
    using that unfolding list_all_iff set_upt
    by (cases "q = 1"; cases "q < 65"; cases "q < 129"; cases "q < 193") auto
  then show ?thesis by (simp add: list_all_iff)
qed

lemma align8:
  fixes a :: size_t
  assumes "unat a + 7 < 2 ^ 64"
  shows "align a word_size = of_nat (8 * ((unat a + 7) div 8))"
proof -
  have "unat (align a (2 ^ 3)) = (unat a + (2 ^ 3 - 1)) div 2 ^ 3 * 2 ^ 3" by (rule unat_align) (use assms in simp_all)
  then have u: "unat (align a word_size) = 8 * ((unat a + 7) div 8)" by (simp add: word_size_def)
  show ?thesis by (simp only: u [symmetric]) simp
qed

lemma size_index_eq:
  assumes "0 < unat sz" "unat sz \<le> 2048"
  shows "kmalloc_size_index sz = of_nat (size_class (unat sz))"
proof -
  define q where "q = (unat sz + 7) div 8"
  have q: "1 \<le> q" "q < 257" "unat sz \<le> 8 * q" "8 * q < unat sz + 8" using assms by (auto simp: q_def)
  have a: "align sz word_size = of_nat (8 * q)" using align8 [of sz] assms by (simp add: q_def)
  have u: "unat (of_nat (8 * q) :: size_t) = 8 * q" using q(2) by (simp only: unat_of_nat) simp
  then have "align (of_nat (8 * q)) word_size = (of_nat (8 * q) :: size_t)" using align8 [of "of_nat (8 * q)"] q(2) by simp
  then have "kmalloc_size_index sz = kmalloc_size_index (of_nat (8 * q))" by (simp only: kmalloc_size_index_def a)
  also have "\<dots> = of_nat (size_class (8 * q))"
    using index_table q(1,2) by (simp add: list_all_iff index_agrees_def)
  also have "size_class (8 * q) = size_class (unat sz)"
  proof -
    have "8 * q \<le> 8 * c \<longleftrightarrow> unat sz \<le> 8 * c" for c using q(3,4) by presburger
    from this [of 1] this [of 2] this [of 4] this [of 6] this [of 8] this [of 16] this [of 32] this [of 64] this [of 128]
    show ?thesis by (simp add: size_class_def)
  qed
  finally show ?thesis .
qed

text \<open>C19: For every request of 1 to 2048 bytes \<open>kmalloc_size_index\<close> is the table \<open>size_class\<close>, whose cache holds
  objects at least as large as the request; the cache of 128-byte objects is never chosen, requests of
  65 to 128 bytes go to the 192-byte cache.\<close>

theorem kmalloc_index_correct:
  assumes "0 < unat sz" "unat sz \<le> 2048"
  shows "unat (kmalloc_size_index sz) = size_class (unat sz) \<and> size_class (unat sz) < length kmalloc_infos \<and>
    unat sz \<le> unat (snd (kmalloc_infos ! size_class (unat sz))) \<and> size_class (unat sz) \<noteq> 5"
proof -
  have c: "size_class (unat sz) \<le> 10" by (simp add: size_class_def)
  then have "unat (kmalloc_size_index sz) = size_class (unat sz)"
    unfolding size_index_eq [OF assms] unat_of_nat by simp
  moreover have "unat sz \<le> unat (snd (kmalloc_infos ! size_class (unat sz)))"
    using assms by (simp add: size_class_def kmalloc_infos_def)
  ultimately show ?thesis using c by (simp add: kmalloc_infos_def size_class_def)
qed

theorem kmalloc_index_correct_witness: "unat (kmalloc_size_index 100) = 6"
  using kmalloc_index_correct [of 100] by (simp add: size_class_def)

section \<open>Geometry of a cache\<close>

lemma geometry_bounds:
  assumes "0 < unat sz" "unat sz \<le> 4048"
  obtains s n where "cache_geometry sz word_size = (of_nat s, word_size, of_nat n)"
    "s = 8 * ((unat sz + 7) div 8)" "1 \<le> n" "n \<le> 512" "48 + n * s \<le> 4096" "unat sz \<le> s" "8 \<le> s" "s \<le> 4048"
proof -
  define s where "s = 8 * ((unat sz + 7) div 8)"
  have s: "unat sz \<le> s" "8 \<le> s" "s \<le> 4048" using assms by (auto simp: s_def)
  define n where "n = min (4048 div s) 512"
  have al: "align sz word_size = of_nat s" using align8 [of sz] assms by (simp add: s_def)
  have us: "unat (of_nat s :: size_t) = s" using s by (simp add: unat_of_nat)
  have d: "(4048 :: size_t) div of_nat s = of_nat (4048 div s)"
    by (rule word_unat_eq_iff [THEN iffD2]) (use s us in \<open>simp add: unat_div unat_of_nat div_le_dividend [THEN le_less_trans]\<close>)
  have m: "min (of_nat (4048 div s)) (512 :: size_t) = of_nat n"
  proof -
    have "unat (of_nat (4048 div s) :: size_t) = 4048 div s"
      unfolding unat_of_nat by (intro mod_less le_less_trans [OF div_le_dividend]) simp
    then show ?thesis by (simp add: n_def min_def word_le_nat_alt)
  qed
  have g: "cache_geometry sz word_size = (of_nat s, word_size, of_nat n)"
    using al d m by (simp add: cache_geometry_def Let_def SLAB_MIN_SIZE_def word_size_def [symmetric] PGSIZE_def SIZEOF_SLAB_def SLAB_MAX_OBJS_PER_PAGE_def)
  have n: "1 \<le> n" "n \<le> 512" using s by (simp_all add: n_def div_greater_zero_iff Suc_le_eq)
  have "n * s \<le> 4048 div s * s" by (intro mult_right_mono) (simp_all add: n_def)
  then have "48 + n * s \<le> 4096" using div_times_less_eq_dividend [of 4048 s] by linarith
  from that [OF g s_def n this s] show thesis .
qed

section \<open>Objects of a page\<close>

primrec obj_chain :: "mem \<Rightarrow> addr_t \<Rightarrow> addr_t list \<Rightarrow> bool" where
  "obj_chain m p [] \<longleftrightarrow> p = 0"
| "obj_chain m p (x # xs) \<longleftrightarrow> p = x \<and> x \<noteq> 0 \<and> obj_chain m (load_u64 m x) xs"

lemma obj_chain_cong: "(\<And>x. x \<in> set xs \<Longrightarrow> load_u64 m' x = load_u64 m x) \<Longrightarrow> obj_chain m' p xs = obj_chain m p xs"
  by (induction xs arbitrary: p) auto

lemma obj_chain_push:
  assumes "obj_chain m p xs" "q \<noteq> 0" "\<And>x. x \<in> set xs \<Longrightarrow> apart8 x q"
  shows "obj_chain (store_u64 m q p) q (q # xs)"
proof -
  have "obj_chain (store_u64 m q p) p xs = obj_chain m p xs"
    by (rule obj_chain_cong) (use assms(3) load_u64_apart in blast)
  then show ?thesis using assms(1,2) by (simp add: load_store_u64)
qed

text \<open>The object slots of a slab: \<open>n\<close> of size \<open>s\<close>, from the end of the page down.\<close>

definition slots :: "addr_t \<Rightarrow> nat \<Rightarrow> nat \<Rightarrow> addr_t set" where
  "slots sl s n = {sl + of_nat (4096 - j * s) |j. 1 \<le> j \<and> j \<le> n}"

definition good_geometry :: "nat \<Rightarrow> nat \<Rightarrow> bool" where
  "good_geometry s n \<longleftrightarrow> 8 \<le> s \<and> 1 \<le> n \<and> 48 + n * s \<le> 4096"

lemma slot_offset:
  assumes "good_geometry s n" "x \<in> slots sl s n"
  obtains j where "1 \<le> j" "j \<le> n" "x = sl + of_nat (4096 - j * s)" "48 + j * s \<le> 4096" "8 \<le> j * s"
proof -
  obtain j where j: "1 \<le> j" "j \<le> n" "x = sl + of_nat (4096 - j * s)" using assms(2) by (auto simp: slots_def)
  have "j * s \<le> n * s" using j assms(1) by (auto simp: good_geometry_def intro: mult_le_mono1)
  moreover have "1 * 8 \<le> j * s" using j assms(1) by (intro mult_le_mono) (simp_all add: good_geometry_def)
  moreover have "48 + n * s \<le> 4096" using assms(1) by (simp add: good_geometry_def)
  ultimately have "48 + j * s \<le> 4096" "8 \<le> j * s" by linarith+
  then show thesis by (rule that [OF j])
qed

lemma slots_apart:
  assumes "good_geometry s n" "x \<in> slots sl s n" "y \<in> slots sl s n" "x \<noteq> y"
  shows "apart8 x y"
proof -
  obtain i where i: "1 \<le> i" "i \<le> n" "x = sl + of_nat (4096 - i * s)" "48 + i * s \<le> 4096" "8 \<le> i * s"
    by (rule slot_offset [OF assms(1,2)])
  obtain j where j: "1 \<le> j" "j \<le> n" "y = sl + of_nat (4096 - j * s)" "48 + j * s \<le> 4096" "8 \<le> j * s"
    by (rule slot_offset [OF assms(1,3)])
  have "i \<noteq> j" using i(3) j(3) assms(4) by auto
  then consider "i + 1 \<le> j" | "j + 1 \<le> i" by linarith
  then show ?thesis
  proof cases
    case 1
    then have "(i + 1) * s \<le> j * s" by (rule mult_le_mono1)
    then have "i * s + 8 \<le> j * s" using assms(1) by (auto simp: good_geometry_def)
    then show ?thesis unfolding i(3) j(3) using i(4) j(4) by (intro apart8_offsets(2)) linarith+
  next
    case 2
    then have "(j + 1) * s \<le> i * s" by (rule mult_le_mono1)
    then have "j * s + 8 \<le> i * s" using assms(1) by (auto simp: good_geometry_def)
    then show ?thesis unfolding i(3) j(3) using i(4) j(4) by (intro apart8_offsets(1)) linarith+
  qed
qed

lemma slots_in_page:
  assumes "good_geometry s n" "x \<in> slots sl s n"
  shows "48 \<le> unat (x - sl)" "unat (x - sl) + 8 \<le> 4096"
proof -
  obtain j where j: "x = sl + of_nat (4096 - j * s)" "48 + j * s \<le> 4096" "8 \<le> j * s"
    by (rule slot_offset [OF assms])
  have "unat (of_nat (4096 - j * s) :: addr_t) = 4096 - j * s" using j by (simp only: unat_of_nat) simp
  then have "unat (x - sl) = 4096 - j * s" using j(1) by simp
  then show "48 \<le> unat (x - sl)" "unat (x - sl) + 8 \<le> 4096" using j by linarith+
qed

lemma in_page_nonzero:
  assumes "take_bit 12 sl = 0" "sl \<noteq> 0" "unat (a - sl) < 4096"
  shows "a \<noteq> (0 :: addr_t)"
proof
  assume "a = 0"
  then have "align_down 0 PGSIZE = sl" using page_base [OF assms(1,3)] by simp
  then show False using assms(2) by (simp add: align_down_def)
qed

lemma slot_nonzero:
  assumes "take_bit 12 sl = 0" "sl \<noteq> 0" "good_geometry s n" "x \<in> slots sl s n"
  shows "x \<noteq> 0" "align_down x PGSIZE = sl"
  using in_page_nonzero [OF assms(1,2), of x] page_base [OF assms(1), of x] slots_in_page [OF assms(3,4)] by simp_all

lemma store_u64_outside:
  assumes "unat (q - sl) + 8 \<le> 4096" "\<not> unat (a - sl) < 4096"
  shows "store_u64 m q v a = m a"
  unfolding store_u64_def
proof (rule store_bytes_other, rule notI)
  fix i assume i: "i < length (le_bytes 8 (unat v))" and a: "a = q + of_nat i"
  then have "a - sl = (q - sl) + of_nat i" by simp
  moreover have ui: "unat (of_nat i :: addr_t) = i" using i by (simp add: unat_of_nat)
  ultimately have "unat (a - sl) = unat (q - sl) + i"
    using assms(1) i by (simp only: unat_add_lem [THEN iffD1] ui) (simp add: unat_add_lem [THEN iffD1] ui)
  then show False using assms i by simp
qed

lemma slots_Suc: "slots sl s (Suc n) = insert (sl + of_nat (4096 - Suc n * s)) (slots sl s n)"
  by (auto simp: slots_def le_Suc_eq intro: exI [of _ "Suc n"])

lemma good_geometry_mono: "good_geometry s n \<Longrightarrow> 1 \<le> i \<Longrightarrow> i \<le> n \<Longrightarrow> good_geometry s i"
  unfolding good_geometry_def using mult_le_mono1 [of i n s] by linarith

lemma thread_objects_spec:
  assumes "take_bit 12 sl = 0" "sl \<noteq> 0" "good_geometry s (i + k)"
    and "obj_chain m fr xs" "set xs = slots sl s i" "distinct xs" "length xs = i"
  shows "\<exists>m' fr' xs'. thread_objects k m (of_nat s) (sl + of_nat (4096 - i * s)) fr = (m', fr') \<and>
    obj_chain m' fr' xs' \<and> set xs' = slots sl s (i + k) \<and> distinct xs' \<and> length xs' = i + k \<and>
    (\<forall>a. \<not> unat (a - sl) < 4096 \<longrightarrow> m' a = m a)"
  using assms(3-)
proof (induction k arbitrary: i m fr xs)
  case 0
  then show ?case by (intro exI [of _ m] exI [of _ fr] exI [of _ xs]) simp
next
  case (Suc k)
  let ?x = "sl + of_nat (4096 - Suc i * s) :: addr_t"
  have g: "good_geometry s (Suc i)" by (rule good_geometry_mono [OF Suc.prems(1)]) simp_all
  have b: "Suc i * s \<le> 4096" using g by (simp add: good_geometry_def)
  have x: "sl + of_nat (4096 - i * s) - of_nat s = ?x" using b by (simp add: of_nat_diff algebra_simps)
  have xs: "?x \<in> slots sl s (Suc i)" by (simp add: slots_Suc)
  have new: "?x \<notin> slots sl s i"
  proof
    assume "?x \<in> slots sl s i"
    then obtain j where j: "1 \<le> j" "j \<le> i" "?x = sl + of_nat (4096 - j * s)" by (auto simp: slots_def)
    have ij: "j * s + s \<le> Suc i * s" using mult_le_mono1 [of j i s] j(2) by simp
    have "(of_nat (4096 - Suc i * s) :: addr_t) = of_nat (4096 - j * s)" using j(3) by simp
    then have "unat (of_nat (4096 - Suc i * s) :: addr_t) = unat (of_nat (4096 - j * s) :: addr_t)" by simp
    moreover have "4096 - Suc i * s < 2 ^ 64" "4096 - j * s < 2 ^ 64" by simp_all
    ultimately have "4096 - Suc i * s = 4096 - j * s" by (simp add: unat_of_nat)
    then show False using ij b g unfolding good_geometry_def by linarith
  qed
  have c: "obj_chain (store_u64 m ?x fr) ?x (?x # xs)"
  proof (rule obj_chain_push [OF Suc.prems(2)])
    show "?x \<noteq> 0" by (rule slot_nonzero [OF assms(1,2) g xs])
    fix y assume "y \<in> set xs"
    then have "y \<in> slots sl s (Suc i)" "y \<noteq> ?x" using Suc.prems(3) new by (auto simp: slots_Suc)
    then show "apart8 y ?x" by (intro slots_apart [OF g _ xs])
  qed
  have "\<exists>m' fr' xs'. thread_objects k (store_u64 m ?x fr) (of_nat s) (sl + of_nat (4096 - Suc i * s)) ?x = (m', fr') \<and>
    obj_chain m' fr' xs' \<and> set xs' = slots sl s (Suc i + k) \<and> distinct xs' \<and> length xs' = Suc i + k \<and>
    (\<forall>a. \<not> unat (a - sl) < 4096 \<longrightarrow> m' a = store_u64 m ?x fr a)"
    by (rule Suc.IH [OF _ c]) (use Suc.prems new in \<open>simp_all add: slots_Suc\<close>)
  moreover have "store_u64 m ?x fr a = m a" if "\<not> unat (a - sl) < 4096" for a
    by (rule store_u64_outside [OF slots_in_page(2) [OF g xs] that])
  ultimately show ?case unfolding thread_objects.simps x by (simp del: mult_Suc)
qed

section \<open>The state of a cache\<close>

datatype slist = Full | Partial | Free

definition slab_heads :: "addr_t \<Rightarrow> slist \<Rightarrow> snode" where
  "slab_heads c i = (case i of Full \<Rightarrow> SlabsFull c | Partial \<Rightarrow> SlabsPartial c | Free \<Rightarrow> SlabsFree c)"

abbreviation slab_nodes :: "(slist \<Rightarrow> addr_t list) \<Rightarrow> slist \<Rightarrow> snode list" where
  "slab_nodes ls i \<equiv> map SlabNode (ls i)"

definition obj_bytes :: "kmem \<Rightarrow> addr_t \<Rightarrow> nat" where "obj_bytes k c = unat (cache_size (km_caches k c))"
definition obj_count :: "kmem \<Rightarrow> addr_t \<Rightarrow> nat" where "obj_count k c = unat (objs_per_page (km_caches k c))"

text \<open>\<open>xs\<close> are the free objects of the slab at \<open>sl\<close>, in the order of its free list.\<close>

definition slab_ok :: "kmem \<Rightarrow> addr_t \<Rightarrow> addr_t \<Rightarrow> addr_t list \<Rightarrow> bool" where
  "slab_ok k c sl xs \<longleftrightarrow> take_bit 12 sl = 0 \<and> sl \<noteq> 0 \<and>
     obj_chain (pm_mem (km_pmm k)) (freelist (km_slabs k sl)) xs \<and> distinct xs \<and>
     set xs \<subseteq> slots sl (obj_bytes k c) (obj_count k c) \<and>
     free (km_slabs k sl) = of_nat (length xs) \<and> inuse (km_slabs k sl) = of_nat (obj_count k c - length xs)"

definition slabs_of :: "(slist \<Rightarrow> addr_t list) \<Rightarrow> addr_t set" where
  "slabs_of ls = (\<Union>i. set (ls i))"

definition cache_ok :: "kmem \<Rightarrow> addr_t \<Rightarrow> (slist \<Rightarrow> addr_t list) \<Rightarrow> (addr_t \<Rightarrow> addr_t list) \<Rightarrow> bool" where
  "cache_ok k c ls fo \<longleftrightarrow> good_geometry (obj_bytes k c) (obj_count k c) \<and>
     kernel_list.family (km_nodes k) (slab_heads c) UNIV (slab_nodes ls) \<and>
     (\<forall>sl \<in> slabs_of ls. slab_ok k c sl (fo sl)) \<and> (\<forall>sl \<in> set (ls Partial) \<union> set (ls Free). fo sl \<noteq> [])"

definition live_objects :: "kmem \<Rightarrow> addr_t \<Rightarrow> (slist \<Rightarrow> addr_t list) \<Rightarrow> (addr_t \<Rightarrow> addr_t list) \<Rightarrow> addr_t set" where
  "live_objects k c ls fo = (\<Union>sl \<in> slabs_of ls. slots sl (obj_bytes k c) (obj_count k c) - set (fo sl))"

lemma map_SlabNode_remove1: "map SlabNode (remove1 sl xs) = remove1 (SlabNode sl) (map SlabNode xs)"
  by (induction xs) auto

definition move_slab :: "addr_t \<Rightarrow> slist \<Rightarrow> slist \<Rightarrow> (slist \<Rightarrow> addr_t list) \<Rightarrow> slist \<Rightarrow> addr_t list" where
  "move_slab sl i j ls = (let l1 = ls(i := remove1 sl (ls i)) in l1(j := sl # l1 j))"

lemma family_distinct:
  assumes "kernel_list.family h (slab_heads c) UNIV (slab_nodes ls)"
  shows "distinct (ls i)" "i \<noteq> j \<Longrightarrow> set (ls i) \<inter> set (ls j) = {}"
proof -
  have "distinct (map SlabNode (ls i))" using kernel_list.familyD(1) [OF assms, of i] by (simp add: ring_def)
  then show "distinct (ls i)" by (simp add: distinct_map)
  assume ij: "i \<noteq> j"
  then have "set (map SlabNode (ls i)) \<inter> set (map SlabNode (ls j)) = {}"
    using kernel_list.familyD(2) [OF assms UNIV_I UNIV_I, of i j] by auto
  then show "set (ls i) \<inter> set (ls j) = {}" by auto
qed

lemma family_move_slab:
  assumes "kernel_list.family h (slab_heads c) UNIV (slab_nodes ls)" "sl \<in> set (ls i)"
  shows "kernel_list.family (list_move (SlabNode sl) (slab_heads c j) h) (slab_heads c) UNIV (slab_nodes (move_slab sl i j ls))"
proof -
  have "SlabNode sl \<in> set (slab_nodes ls i)" using assms(2) by simp
  note kernel_list.family_move [OF assms(1) UNIV_I this UNIV_I, of j]
  moreover have "((slab_nodes ls)(i := remove1 (SlabNode sl) (slab_nodes ls i)))
      (j := SlabNode sl # ((slab_nodes ls)(i := remove1 (SlabNode sl) (slab_nodes ls i))) j) = slab_nodes (move_slab sl i j ls)"
    by (rule ext) (simp add: move_slab_def Let_def map_SlabNode_remove1)
  ultimately show ?thesis by (simp add: list_move_def)
qed

lemma move_slab_sets:
  assumes "kernel_list.family h (slab_heads c) UNIV (slab_nodes ls)" "sl \<in> set (ls i)"
  shows "set (move_slab sl i j ls m) = (set (ls m) - {sl}) \<union> (if m = j then {sl} else {})"
    "slabs_of (move_slab sl i j ls) = slabs_of ls"
proof -
  have a: "sl \<notin> set (ls m)" if "m \<noteq> i" for m using family_distinct(2) [OF assms(1) that] assms(2) by blast
  show s: "set (move_slab sl i j ls m) = (set (ls m) - {sl}) \<union> (if m = j then {sl} else {})" for m
    using family_distinct(1) [OF assms(1), of i] a [of m]
    by (cases "m = i"; cases "m = j") (simp_all add: move_slab_def Let_def set_remove1_eq insert_Diff_if)
  show "slabs_of (move_slab sl i j ls) = slabs_of ls"
  proof (rule set_eqI)
    fix x
    show "x \<in> slabs_of (move_slab sl i j ls) \<longleftrightarrow> x \<in> slabs_of ls"
    proof (cases "x = sl")
      case True
      then have "x \<in> set (move_slab sl i j ls j)" unfolding s by simp
      then show ?thesis using True assms(2) by (auto simp: slabs_of_def)
    next
      case False
      then have "x \<in> set (move_slab sl i j ls m) \<longleftrightarrow> x \<in> set (ls m)" for m unfolding s by auto
      then show ?thesis by (simp add: slabs_of_def)
    qed
  qed
qed

lemma cache_okD:
  assumes "cache_ok k c ls fo"
  shows "good_geometry (obj_bytes k c) (obj_count k c)"
    "kernel_list.family (km_nodes k) (slab_heads c) UNIV (slab_nodes ls)"
    "sl \<in> slabs_of ls \<Longrightarrow> slab_ok k c sl (fo sl)"
    "sl \<in> set (ls Partial) \<union> set (ls Free) \<Longrightarrow> fo sl \<noteq> []"
  using assms by (auto simp: cache_ok_def)

lemma card_slots: "card (slots sl s n) \<le> n"
proof -
  have "slots sl s n = (\<lambda>j. sl + of_nat (4096 - j * s)) ` {1..n}" by (auto simp: slots_def)
  then show ?thesis using card_image_le [of "{1..n}" "\<lambda>j. sl + of_nat (4096 - j * s) :: addr_t"] by simp
qed

lemma slots_length:
  assumes "set ys \<subseteq> slots sl s n" "distinct ys"
  shows "length ys \<le> n"
proof -
  have "finite (slots sl s n)"
    by (rule finite_subset [of _ "(\<lambda>j. sl + of_nat (4096 - j * s)) ` {1..n}"]) (auto simp: slots_def)
  then have "card (set ys) \<le> n" using card_mono [OF _ assms(1)] card_slots le_trans by blast
  then show ?thesis using assms(2) by (simp add: distinct_card)
qed

lemma slab_ok_length: "slab_ok k c sl xs \<Longrightarrow> length xs \<le> obj_count k c"
  by (rule slots_length [of xs sl "obj_bytes k c"]) (simp_all add: slab_ok_def)

lemma slots_disjoint:
  assumes "slab_ok k c sl xs" "slab_ok k c sl' ys" "good_geometry (obj_bytes k c) (obj_count k c)"
    and "x \<in> slots sl (obj_bytes k c) (obj_count k c)" "x \<in> slots sl' (obj_bytes k c) (obj_count k c)"
  shows "sl = sl'"
  using assms slot_nonzero(2) [of sl "obj_bytes k c" "obj_count k c" x] slot_nonzero(2) [of sl' "obj_bytes k c" "obj_count k c" x]
  by (simp add: slab_ok_def)

lemma mem_live:
  assumes "cache_ok k c ls fo" "sl \<in> slabs_of ls" "x \<in> slots sl (obj_bytes k c) (obj_count k c)"
  shows "x \<in> live_objects k c ls fo \<longleftrightarrow> x \<notin> set (fo sl)"
  using slots_disjoint [OF cache_okD(3) [OF assms(1)] cache_okD(3) [OF assms(1)] cache_okD(1) [OF assms(1)]] assms(2,3)
  unfolding live_objects_def by blast

lemma count_bound: "good_geometry s n \<Longrightarrow> n \<le> 506"
  using mult_le_mono2 [of 8 s n] unfolding good_geometry_def by linarith

lemma counter_zero: "n \<le> 506 \<Longrightarrow> (of_nat n :: u32) = 0 \<longleftrightarrow> n = 0"
  by (simp add: word_unat_eq_iff unat_of_nat)

text \<open>Taking the first free object of a slab on the partial list.\<close>

lemma take_object_ok:
  assumes ok: "cache_ok k c ls fo" and sl: "sl \<in> set (ls Partial)"
  obtains k' obj ls' where "take_object c sl k = (k', obj)" "cache_ok k' c ls' (fo(sl := tl (fo sl)))"
    "obj = hd (fo sl)" "slabs_of ls' = slabs_of ls"
    "km_pmm k' = km_pmm k" "km_caches k' = km_caches k" "kmalloc_caches k' = kmalloc_caches k"
proof -
  have mem: "sl \<in> slabs_of ls" using sl by (auto simp: slabs_of_def)
  obtain x ys where xs: "fo sl = x # ys" using cache_okD(4) [OF ok, of sl] sl by (cases "fo sl") auto
  note so = cache_okD(3) [OF ok mem, unfolded xs]
  have len: "Suc (length ys) \<le> obj_count k c" using slab_ok_length [OF so] by simp
  have n: "obj_count k c \<le> 506" by (rule count_bound [OF cache_okD(1) [OF ok]])
  let ?s = "km_slabs k sl"
  let ?s1 = "?s\<lparr>freelist := load_u64 (pm_mem (km_pmm k)) x, inuse := inuse ?s + 1, free := free ?s - 1\<rparr>"
  let ?k1 = "k\<lparr>km_slabs := (km_slabs k)(sl := ?s1)\<rparr>"
  have fx: "freelist ?s = x" using so by (simp add: slab_ok_def)
  have f: "free ?s - 1 = of_nat (length ys)" using so by (simp add: slab_ok_def)
  have u: "inuse ?s + 1 = of_nat (obj_count k c - length ys)"
    using so len by (simp add: slab_ok_def of_nat_diff Suc_le_eq)
  have z: "free ?s1 = 0 \<longleftrightarrow> ys = []" using f counter_zero [of "length ys"] len n by simp
  have g: "obj_bytes k' c = obj_bytes k c" "obj_count k' c = obj_count k c" if "km_caches k' = km_caches k" for k'
    using that by (simp_all add: obj_bytes_def obj_count_def)
  let ?fo = "fo(sl := ys)"
  have slabs: "slab_ok k' c sl' (?fo sl')"
    if "sl' \<in> slabs_of ls" "km_slabs k' = (km_slabs k)(sl := ?s1)" "km_pmm k' = km_pmm k" "km_caches k' = km_caches k" for k' sl'
    using cache_okD(3) [OF ok that(1)] so that g [OF that(4)] f u
    by (cases "sl' = sl") (auto simp: slab_ok_def)
  show thesis
  proof (cases "ys = []")
    case False
    have "take_object c sl k = (?k1, x)" using fx z False by (simp add: take_object_def Let_def)
    moreover have "cache_ok ?k1 c ls (fo(sl := ys))"
      unfolding cache_ok_def using cache_okD(1,2) [OF ok] cache_okD(4) [OF ok] slabs [of _ ?k1] g [of ?k1] False by simp
    ultimately show ?thesis by (intro that [of ?k1 x ls]) (simp_all add: xs)
  next
    case True
    let ?k2 = "?k1\<lparr>km_nodes := list_move (SlabNode sl) (SlabsFull c) (km_nodes k)\<rparr>"
    let ?ls = "move_slab sl Partial Full ls"
    note ms = move_slab_sets [OF cache_okD(2) [OF ok] sl, of Full]
    have "take_object c sl k = (?k2, x)" using fx z True by (simp add: take_object_def Let_def)
    moreover have "cache_ok ?k2 c ?ls (fo(sl := ys))"
      unfolding cache_ok_def
    proof (intro conjI ballI)
      show "good_geometry (obj_bytes ?k2 c) (obj_count ?k2 c)" using cache_okD(1) [OF ok] g [of ?k2] by simp
      show "kernel_list.family (km_nodes ?k2) (slab_heads c) UNIV (slab_nodes ?ls)"
        using family_move_slab [OF cache_okD(2) [OF ok] sl, of Full] by (simp add: slab_heads_def)
      show "slab_ok ?k2 c sl' (?fo sl')" if "sl' \<in> slabs_of ?ls" for sl' using that slabs [of sl' ?k2] by (simp add: ms(2))
      show "?fo sl' \<noteq> []" if "sl' \<in> set (?ls Partial) \<union> set (?ls Free)" for sl'
        using that cache_okD(4) [OF ok, of sl'] by (auto simp: ms(1))
    qed
    ultimately show ?thesis by (intro that [of ?k2 x ?ls]) (simp_all add: xs ms(2))
  qed
qed

definition kmem_rel :: "kmem \<Rightarrow> addr_t \<Rightarrow> size_t set \<Rightarrow> (slist \<Rightarrow> addr_t list) \<Rightarrow> (addr_t \<Rightarrow> addr_t list) \<Rightarrow> bool" where
  "kmem_rel k c A ls fo \<longleftrightarrow> cache_ok k c ls fo \<and> pmm_rel (km_pmm k) A \<and> 0 \<notin> A \<and>
     (\<forall>sl \<in> slabs_of ls. drop_bit PGSHIFT (paddr sl) \<notin> A)"

text \<open>The facts about a cache depend only on these parts of the state.\<close>

lemma slab_ok_cong:
  assumes "km_slabs k' sl = km_slabs k sl" "cache_size (km_caches k' c) = cache_size (km_caches k c)"
    "objs_per_page (km_caches k' c) = objs_per_page (km_caches k c)"
    and "\<And>x. x \<in> set xs \<Longrightarrow> load_u64 (pm_mem (km_pmm k')) x = load_u64 (pm_mem (km_pmm k)) x"
  shows "slab_ok k' c sl xs = slab_ok k c sl xs"
  unfolding slab_ok_def obj_bytes_def obj_count_def assms(1-3) using obj_chain_cong [OF assms(4)] by blast

lemma cache_ok_cong:
  assumes "km_slabs k' = km_slabs k" "km_nodes k' = km_nodes k" "pm_mem (km_pmm k') = pm_mem (km_pmm k)"
    and "cache_size (km_caches k' c) = cache_size (km_caches k c)"
    "objs_per_page (km_caches k' c) = objs_per_page (km_caches k c)"
  shows "cache_ok k' c ls fo = cache_ok k c ls fo" "live_objects k' c ls fo = live_objects k c ls fo"
  using assms slab_ok_cong [of k' _ k c] by (simp_all add: cache_ok_def live_objects_def obj_bytes_def obj_count_def)

lemma buddy_struct_set_page:
  assumes "buddy_struct z fl" "p \<notin> free_set fl"
  shows "buddy_struct (z\<lparr>pages := (pages z)(p := pg)\<rparr>) fl"
proof -
  have "q \<noteq> p" if "k < 11" "q \<in> set (fl k)" for k q
    using that assms(2) block_self [of q k] unfolding mem_free_set by blast
  then show ?thesis using assms(1) by (simp add: buddy_struct_def page_is_buddy_def)
qed

lemma pmm_rel_page:
  assumes "pmm_rel s A" "p \<notin> A" "unat p < unat (pfn_max s)"
  obtains s' where "set_page p f s = Some s'" "pmm_rel s' A" "pm_mem s' = pm_mem s" "pfn_max s' = pfn_max s"
proof -
  obtain fl where fl: "buddy_struct (pm_zone s) fl" "free_set fl = A" using assms(1) by (auto simp: pmm_rel_def)
  have i: "pfn_to_page (pm_zone s) p = p" by (rule pfn_to_page_id [OF fl(1)])
  have ok: "page_ok (pm_zone s) p" using assms(1,3) by (simp add: page_ok_def pmm_rel_def)
  let ?z = "(pm_zone s)\<lparr>pages := (pages (pm_zone s))(p := f (pages (pm_zone s) p))\<rparr>"
  have "buddy_struct ?z fl" using buddy_struct_set_page [OF fl(1)] fl(2) assms(2) by simp
  then have "pmm_rel (s\<lparr>pm_zone := ?z\<rparr>) A" using assms(1) fl(2) by (auto simp: pmm_rel_def)
  then show thesis using i ok by (intro that [of "s\<lparr>pm_zone := ?z\<rparr>"]) (simp_all add: set_page_def Let_def)
qed

lemma other_page_load:
  assumes "good_geometry s n" "x \<in> slots sl' s n" "take_bit 12 sl' = 0" "take_bit 12 sl = 0" "sl' \<noteq> sl"
    and "\<And>a. \<not> unat (a - sl) < 4096 \<Longrightarrow> m' a = m a"
  shows "load_u64 m' x = load_u64 m x"
  by (rule page_load_frame [OF slots_in_page(2) [OF assms(1,2)] assms(3-)])

text \<open>A fresh slab: one page out of the free pages, all of its objects free, everything else as before.\<close>

lemma cache_grow_ok:
  assumes rel: "kmem_rel k c A ls fo" and "A \<noteq> {}"
  obtains k' sl xs p where "cache_grow c k = Some (k', sl)" "p \<in> A" "p = drop_bit PGSHIFT (paddr sl)" "sl \<noteq> 0" "sl \<notin> slabs_of ls"
    "pmm_rel (km_pmm k') (A - {p})" "slab_ok k' c sl xs" "set xs = slots sl (obj_bytes k c) (obj_count k c)"
    "\<And>sl'. sl' \<in> slabs_of ls \<Longrightarrow> slab_ok k' c sl' (fo sl')"
    "km_nodes k' = km_nodes k" "km_caches k' = km_caches k"
proof -
  note r = rel [unfolded kmem_rel_def]
  have ok: "cache_ok k c ls fo" using r by blast
  note geo = cache_okD(1) [OF ok]
  obtain p1 r1 p where a: "mm_phy_page_alloc (km_pmm k) 1 = Some (p1, push_bit PGSHIFT p)" "p \<in> A" "pmm_rel p1 (A - {p})"
    using alloc_one_ex [of "km_pmm k" A] r assms(2) by (auto split: if_splits)
  have p0: "p \<noteq> 0" using a(2) r by blast
  have pm: "pm_mem p1 = pm_mem (km_pmm k)" by (rule alloc_mem [OF a(1)])
  have pl: "unat p < unat (pfn_max p1)" "unat p < 2 ^ 31"
  proof -
    have "p \<in> avail_pages (pm_map (km_pmm k))" using a(2) r by (simp add: pmm_rel_def)
    then have "unat p < unat (pfn_max (km_pmm k))" using r by (simp add: avail_pages_def pmm_rel_def)
    moreover have "pfn_max p1 = pfn_max (km_pmm k)" by (rule alloc_pfn_max [OF a(1)])
    moreover have "unat (pfn_max (km_pmm k)) + 8 \<le> 2 ^ 31"
      using r page_bits.nbits_small [of "pm_map (km_pmm k)"] by (simp add: pmm_rel_def)
    ultimately show "unat p < unat (pfn_max p1)" "unat p < 2 ^ 31" by simp_all
  qed
  define phy sl where "phy = push_bit PGSHIFT p" and "sl = kaddr phy"
  note ad = page_addr [OF pl(2), folded phy_def, folded sl_def]
  have phy0: "phy \<noteq> 0" using ad(4) p0 by simp
  have dp: "drop_bit PGSHIFT phy = p" using ad(3) by (simp add: sl_def kaddr_def paddr_def)
  define pz where "pz = p1\<lparr>pm_mem := memset (pm_mem p1) sl 0 (1 * PGSIZE)\<rparr>"
  have z: "mm_phy_page_zalloc (km_pmm k) 1 = Some (pz, phy)"
    using a(1) by (simp add: mm_phy_page_zalloc_def pz_def phy_def sl_def)
  obtain p2 where p2: "set_page p (\<lambda>pg. pg\<lparr>page_flag := page_flag pg OR PAGE_FLAG_SLAB, page_u := c\<rparr>) pz = Some p2"
    "pmm_rel p2 (A - {p})" "pm_mem p2 = pm_mem pz"
    by (rule pmm_rel_page [of pz "A - {p}" p]) (use a(3) pl(1) in \<open>simp_all add: pz_def pmm_rel_mem\<close>)
  obtain m fr xs where t: "thread_objects (obj_count k c) (pm_mem p2) (of_nat (obj_bytes k c)) (sl + PGSIZE) 0 = (m, fr)"
    "obj_chain m fr xs" "set xs = slots sl (obj_bytes k c) (obj_count k c)" "distinct xs" "length xs = obj_count k c"
    "\<forall>a. \<not> unat (a - sl) < 4096 \<longrightarrow> m a = pm_mem p2 a"
    using thread_objects_spec [OF ad(1,2), of "obj_bytes k c" 0 "obj_count k c" "pm_mem p2" 0 "[]"] geo
    by (auto simp: slots_def PGSIZE_def)
  define k' where "k' = k\<lparr>km_pmm := p2\<lparr>pm_mem := m\<rparr>,
    km_slabs := (km_slabs k)(sl := \<lparr>freelist = fr, inuse = 0, free = objs_per_page (km_caches k c),
      slab_page = pfn_to_page (pm_zone pz) p\<rparr>)\<rparr>"
  have g: "cache_grow c k = Some (k', sl)"
    using z phy0 p2(1) t(1)
    by (simp add: cache_grow_def dp k'_def sl_def [symmetric] obj_bytes_def obj_count_def Let_def)
  have new: "sl \<notin> slabs_of ls" using r a(2) ad(3) by auto
  have other: "slab_ok k' c sl' (fo sl')" if s: "sl' \<in> slabs_of ls" for sl'
  proof -
    have so: "slab_ok k c sl' (fo sl')" by (rule cache_okD(3) [OF ok s])
    have ne: "sl' \<noteq> sl" using s new by auto
    have "load_u64 m x = load_u64 (pm_mem (km_pmm k)) x" if x: "x \<in> set (fo sl')" for x
    proof (rule other_page_load [OF geo _ _ ad(1) ne])
      show "x \<in> slots sl' (obj_bytes k c) (obj_count k c)" "take_bit 12 sl' = 0" using so x by (auto simp: slab_ok_def)
      show "m a = pm_mem (km_pmm k) a" if "\<not> unat (a - sl) < 4096" for a
        using that t(6) p2(3) by (simp add: pz_def memset_eq PGSIZE_def pm)
    qed
    then show ?thesis using so ne by (subst slab_ok_cong [where k = k]) (simp_all add: k'_def)
  qed
  have "slab_ok k' c sl xs"
    using t ad(1,2) by (simp add: slab_ok_def k'_def obj_bytes_def obj_count_def)
  then show thesis
    using g a(2) ad(2,3) new p2(2) t(3) other by (intro that [of k' sl p xs]) (simp_all add: k'_def pmm_rel_mem)
qed

lemma live_insert:
  assumes "cache_ok k c ls fo" "sl \<in> slabs_of ls" "fo sl = x # ys"
    and "slabs_of ls' = slabs_of ls" "obj_bytes k' c = obj_bytes k c" "obj_count k' c = obj_count k c"
  shows "live_objects k' c ls' (fo(sl := ys)) = insert x (live_objects k c ls fo)" "x \<notin> live_objects k c ls fo"
    "x \<in> slots sl (obj_bytes k c) (obj_count k c)"
proof -
  note so = cache_okD(3) [OF assms(1,2), unfolded assms(3)]
  show xin: "x \<in> slots sl (obj_bytes k c) (obj_count k c)" using so by (simp add: slab_ok_def)
  show "x \<notin> live_objects k c ls fo" using mem_live [OF assms(1,2) xin] assms(3) by simp
  have d: "x \<notin> set ys" using so by (simp add: slab_ok_def)
  let ?S = "\<lambda>sl. slots sl (obj_bytes k c) (obj_count k c)"
  have "(\<Union>sl' \<in> slabs_of ls. ?S sl' - set ((fo(sl := ys)) sl')) =
      (\<Union>sl' \<in> slabs_of ls. (?S sl' - set (fo sl')) \<union> (if sl' = sl then {x} else {}))"
    by (rule SUP_cong [OF refl]) (use assms(3) xin d in auto)
  also have "\<dots> = insert x (\<Union>sl' \<in> slabs_of ls. ?S sl' - set (fo sl'))" using assms(2) by (auto split: if_splits)
  finally show "live_objects k' c ls' (fo(sl := ys)) = insert x (live_objects k c ls fo)"
    by (simp add: live_objects_def assms(4-6))
qed

lemma lock_cong:
  "cache_ok (k\<lparr>km_caches := (km_caches k)(c := (km_caches k c)\<lparr>cache_lock := b\<rparr>)\<rparr>) c ls fo = cache_ok k c ls fo"
  "live_objects (k\<lparr>km_caches := (km_caches k)(c := (km_caches k c)\<lparr>cache_lock := b\<rparr>)\<rparr>) c ls fo = live_objects k c ls fo"
  "kmem_rel (k\<lparr>km_caches := (km_caches k)(c := (km_caches k c)\<lparr>cache_lock := b\<rparr>)\<rparr>) c A ls fo = kmem_rel k c A ls fo"
proof -
  let ?k = "k\<lparr>km_caches := (km_caches k)(c := (km_caches k c)\<lparr>cache_lock := b\<rparr>)\<rparr>"
  show c: "cache_ok ?k c ls fo = cache_ok k c ls fo" by (rule cache_ok_cong) simp_all
  show "live_objects ?k c ls fo = live_objects k c ls fo" by (rule cache_ok_cong) simp_all
  show "kmem_rel ?k c A ls fo = kmem_rel k c A ls fo" unfolding kmem_rel_def c by simp
qed

lemma family_add_slab:
  assumes "kernel_list.family h (slab_heads c) UNIV (slab_nodes ls)" "sl \<notin> slabs_of ls"
  shows "kernel_list.family (list_add_first (SlabNode sl) (slab_heads c i) h) (slab_heads c) UNIV (slab_nodes (ls(i := sl # ls i)))"
proof -
  have "\<forall>j \<in> UNIV. SlabNode sl \<notin> set (slab_heads c j # slab_nodes ls j)"
    using assms(2) by (auto simp: slabs_of_def slab_heads_def split: slist.splits)
  note kernel_list.family_add_first [OF assms(1) UNIV_I this, of i]
  moreover have "(slab_nodes ls)(i := SlabNode sl # slab_nodes ls i) = slab_nodes (ls(i := sl # ls i))" by (rule ext) simp
  ultimately show ?thesis by simp
qed

text \<open>The choice of the slab: afterwards it is on the partial list and has a free object.\<close>

lemma pick_slab_ok:
  assumes rel: "kmem_rel k c A ls fo" and ex: "ls Partial \<noteq> [] \<or> ls Free \<noteq> [] \<or> A \<noteq> {}"
  obtains k' sl A' ls' fo' where "pick_slab c k = Some (k', sl)" "sl \<noteq> 0" "kmem_rel k' c A' ls' fo'" "A' \<subseteq> A" "sl \<in> set (ls' Partial)"
    "live_objects k' c ls' fo' = live_objects k c ls fo" "km_caches k' = km_caches k"
proof -
  note r = rel [unfolded kmem_rel_def]
  have ok: "cache_ok k c ls fo" using r by blast
  note fam = cache_okD(2) [OF ok]
  have fp: "list_front (km_nodes k) (SlabsPartial c) = (if ls Partial = [] then None else Some (SlabNode (hd (ls Partial))))"
    using kernel_list.family_front [OF fam, of Partial] by (simp add: slab_heads_def hd_map)
  have ff: "list_front (km_nodes k) (SlabsFree c) = (if ls Free = [] then None else Some (SlabNode (hd (ls Free))))"
    using kernel_list.family_front [OF fam, of Free] by (simp add: slab_heads_def hd_map)
  have nz: "sl \<noteq> 0" if "sl \<in> slabs_of ls" for sl using cache_okD(3) [OF ok that] by (simp add: slab_ok_def)
  consider "ls Partial \<noteq> []" | "ls Partial = []" "ls Free \<noteq> []" | "ls Partial = []" "ls Free = []" "A \<noteq> {}" using ex by blast
  then show thesis
  proof cases
    case 1
    then have "hd (ls Partial) \<in> set (ls Partial)" by simp
    moreover from this have "hd (ls Partial) \<in> slabs_of ls" unfolding slabs_of_def by blast
    ultimately show ?thesis using fp 1 rel nz by (intro that [of k "hd (ls Partial)" A ls fo]) (auto simp: pick_slab_def)
  next
    case 2
    let ?sl = "hd (ls Free)"
    have m: "?sl \<in> set (ls Free)" using 2 by simp
    then have ms': "?sl \<in> slabs_of ls" unfolding slabs_of_def by blast
    let ?ls = "move_slab ?sl Free Partial ls"
    let ?k = "k\<lparr>km_nodes := list_move (SlabNode ?sl) (SlabsPartial c) (km_nodes k)\<rparr>"
    note ms = move_slab_sets [OF fam m, of Partial]
    have "cache_ok ?k c ?ls fo"
      unfolding cache_ok_def
    proof (intro conjI ballI)
      show "good_geometry (obj_bytes ?k c) (obj_count ?k c)" using cache_okD(1) [OF ok] by (simp add: obj_bytes_def obj_count_def)
      show "kernel_list.family (km_nodes ?k) (slab_heads c) UNIV (slab_nodes ?ls)"
        using family_move_slab [OF fam m, of Partial] by (simp add: slab_heads_def)
      show "slab_ok ?k c sl' (fo sl')" if "sl' \<in> slabs_of ?ls" for sl'
        using cache_okD(3) [OF ok] that by (simp add: ms(2) slab_ok_cong [of ?k sl' k])
      show "fo sl' \<noteq> []" if "sl' \<in> set (?ls Partial) \<union> set (?ls Free)" for sl'
        using that cache_okD(4) [OF ok, of sl'] cache_okD(4) [OF ok, of ?sl] m by (auto simp: ms(1) split: if_splits)
    qed
    then have "kmem_rel ?k c A ?ls fo" using r by (simp add: kmem_rel_def ms(2))
    moreover have "live_objects ?k c ?ls fo = live_objects k c ls fo"
      by (simp add: live_objects_def ms(2) obj_bytes_def obj_count_def)
    ultimately show ?thesis using fp ff 2 nz ms' ms(1)
      by (intro that [of ?k ?sl A ?ls fo]) (simp_all add: pick_slab_def)
  next
    case 3
    obtain k1 sl xs p where g: "cache_grow c k = Some (k1, sl)" "p \<in> A" "p = drop_bit PGSHIFT (paddr sl)" "sl \<noteq> 0" "sl \<notin> slabs_of ls"
      "pmm_rel (km_pmm k1) (A - {p})" "slab_ok k1 c sl xs" "set xs = slots sl (obj_bytes k c) (obj_count k c)"
      "\<And>sl'. sl' \<in> slabs_of ls \<Longrightarrow> slab_ok k1 c sl' (fo sl')" "km_nodes k1 = km_nodes k" "km_caches k1 = km_caches k"
      by (rule cache_grow_ok [OF rel 3(3)]) (rule that; assumption)
    let ?k = "k1\<lparr>km_nodes := list_add_first (SlabNode sl) (SlabsPartial c) (km_nodes k1)\<rparr>"
    let ?ls = "ls(Partial := sl # ls Partial)" and ?fo = "fo(sl := xs)"
    have sls: "slabs_of ?ls = insert sl (slabs_of ls)" unfolding slabs_of_def by (auto split: if_splits)
    have ne: "sl' \<noteq> sl" if "sl' \<in> slabs_of ls" for sl' using that g(5) by auto
    have xne: "xs \<noteq> []"
    proof -
      have "sl + of_nat (4096 - 1 * obj_bytes k c) \<in> slots sl (obj_bytes k c) (obj_count k c)"
        using cache_okD(1) [OF ok] unfolding slots_def good_geometry_def by blast
      then show ?thesis using g(8) by auto
    qed
    have "cache_ok ?k c ?ls ?fo"
      unfolding cache_ok_def
    proof (intro conjI ballI)
      show "good_geometry (obj_bytes ?k c) (obj_count ?k c)" using cache_okD(1) [OF ok] g(11) by (simp add: obj_bytes_def obj_count_def)
      show "kernel_list.family (km_nodes ?k) (slab_heads c) UNIV (slab_nodes ?ls)"
        using family_add_slab [OF fam g(5), of Partial] g(10) by (simp add: slab_heads_def)
      show "slab_ok ?k c sl' (?fo sl')" if "sl' \<in> slabs_of ?ls" for sl'
        using that g(7,9) ne by (auto simp: sls slab_ok_cong [of ?k _ k1])
      show "?fo sl' \<noteq> []" if "sl' \<in> set (?ls Partial) \<union> set (?ls Free)" for sl'
        using that 3 xne by simp
    qed
    then have "kmem_rel ?k c (A - {p}) ?ls ?fo" using r g(3,6,11) by (auto simp: kmem_rel_def sls)
    moreover have "live_objects ?k c ?ls ?fo = live_objects k c ls fo"
    proof -
      have "(\<Union>sl' \<in> slabs_of ls. slots sl' (obj_bytes k c) (obj_count k c) - set (?fo sl')) =
        (\<Union>sl' \<in> slabs_of ls. slots sl' (obj_bytes k c) (obj_count k c) - set (fo sl'))"
        by (rule SUP_cong [OF refl]) (use ne in simp)
      then show ?thesis using g(8,11) by (simp add: live_objects_def sls obj_bytes_def obj_count_def)
    qed
    ultimately show ?thesis using fp ff 3 g(1,4,11)
      by (intro that [of ?k sl "A - {p}" ?ls ?fo]) (auto simp: pick_slab_def)
  qed
qed

lemma kmem_cache_alloc_ok:
  assumes rel: "kmem_rel k c A ls fo" and lock: "\<not> cache_lock (km_caches k c)"
    and ex: "ls Partial \<noteq> [] \<or> ls Free \<noteq> [] \<or> A \<noteq> {}"
  shows "\<exists>k' obj A' ls' fo'. kmem_cache_alloc c k = Some (k', obj) \<and> kmem_rel k' c A' ls' fo' \<and> \<not> cache_lock (km_caches k' c) \<and> A' \<subseteq> A \<and>
    obj \<noteq> 0 \<and> obj \<notin> live_objects k c ls fo \<and> live_objects k' c ls' fo' = insert obj (live_objects k c ls fo)"
proof -
  define k0 where "k0 = k\<lparr>km_caches := (km_caches k)(c := (km_caches k c)\<lparr>cache_lock := True\<rparr>)\<rparr>"
  have k0: "kmem_rel k0 c A ls fo" "live_objects k0 c ls fo = live_objects k c ls fo" "acquire_cache c k = Some k0"
    using rel lock unfolding k0_def lock_cong by (simp_all add: acquire_cache_def)
  obtain k1 sl A1 ls1 fo1 where p: "pick_slab c k0 = Some (k1, sl)" "sl \<noteq> 0" "kmem_rel k1 c A1 ls1 fo1" "A1 \<subseteq> A" "sl \<in> set (ls1 Partial)"
    "live_objects k1 c ls1 fo1 = live_objects k0 c ls fo" "km_caches k1 = km_caches k0"
    by (rule pick_slab_ok [OF k0(1) ex]) (rule that; assumption)
  have ok1: "cache_ok k1 c ls1 fo1" using p(3) by (simp add: kmem_rel_def)
  have sl: "sl \<in> slabs_of ls1" using p(5) unfolding slabs_of_def by blast
  obtain x ys where xs: "fo1 sl = x # ys" using cache_okD(4) [OF ok1, of sl] p(5) by (cases "fo1 sl") auto
  obtain k2 x' ls2 where t': "take_object c sl k1 = (k2, x')" "cache_ok k2 c ls2 (fo1(sl := tl (fo1 sl)))" "x' = hd (fo1 sl)"
    "slabs_of ls2 = slabs_of ls1" "km_pmm k2 = km_pmm k1" "km_caches k2 = km_caches k1" "kmalloc_caches k2 = kmalloc_caches k1"
    by (rule take_object_ok [OF ok1 p(5)]) (rule that; assumption)
  have t: "take_object c sl k1 = (k2, x)" "cache_ok k2 c ls2 (fo1(sl := ys))" "slabs_of ls2 = slabs_of ls1"
    "km_pmm k2 = km_pmm k1" "km_caches k2 = km_caches k1"
    using t' by (simp_all add: xs)
  have li: "live_objects k2 c ls2 (fo1(sl := ys)) = insert x (live_objects k1 c ls1 fo1)" "x \<notin> live_objects k1 c ls1 fo1"
    "x \<in> slots sl (obj_bytes k1 c) (obj_count k1 c)"
    by (rule live_insert [OF ok1 sl xs t(3)]; simp add: obj_bytes_def obj_count_def t(5))+
  have x0: "x \<noteq> 0"
    using cache_okD(3) [OF ok1 sl] slot_nonzero(1) [OF _ _ cache_okD(1) [OF ok1] li(3)] by (simp add: slab_ok_def)
  have rel2: "kmem_rel k2 c A1 ls2 (fo1(sl := ys))" using p(3) t by (simp add: kmem_rel_def)
  have "kmem_cache_alloc c k = Some (release_cache c k2, x)"
    using k0(3) p(1,2) t(1) by (simp add: kmem_cache_alloc_def)
  moreover have "kmem_rel (release_cache c k2) c A1 ls2 (fo1(sl := ys))"
    "live_objects (release_cache c k2) c ls2 (fo1(sl := ys)) = insert x (live_objects k c ls fo)"
    "\<not> cache_lock (km_caches (release_cache c k2) c)"
    using rel2 li(1) p(6) k0(2) unfolding release_cache_def lock_cong by simp_all
  ultimately show ?thesis using p(4,6) k0(2) li(2) x0 by (intro exI conjI) (assumption | simp)+
qed

lemma live_remove:
  assumes "cache_ok k c ls fo" "sl \<in> slabs_of ls" "x \<in> slots sl (obj_bytes k c) (obj_count k c)"
    and "slabs_of ls' = slabs_of ls" "obj_bytes k' c = obj_bytes k c" "obj_count k' c = obj_count k c"
  shows "live_objects k' c ls' (fo(sl := x # fo sl)) = live_objects k c ls fo - {x}"
proof -
  let ?S = "\<lambda>sl. slots sl (obj_bytes k c) (obj_count k c)"
  have "x \<notin> ?S sl'" if "sl' \<in> slabs_of ls" "sl' \<noteq> sl" for sl'
    using slots_disjoint [OF cache_okD(3) [OF assms(1) assms(2)] cache_okD(3) [OF assms(1) that(1)] cache_okD(1) [OF assms(1)] assms(3)] that(2) by blast
  then have "(\<Union>sl' \<in> slabs_of ls. ?S sl' - set ((fo(sl := x # fo sl)) sl')) = (\<Union>sl' \<in> slabs_of ls. (?S sl' - set (fo sl')) - {x})"
    by (intro SUP_cong [OF refl]) auto
  then show ?thesis by (simp add: live_objects_def assms(4-6))
qed

lemma kmem_cache_free_ok:
  assumes rel: "kmem_rel k c A ls fo" and lock: "\<not> cache_lock (km_caches k c)" and live: "x \<in> live_objects k c ls fo"
  obtains k' ls' sl where "kmem_cache_free c x k = Some k'" "kmem_rel k' c A ls' (fo(sl := x # fo sl))" "\<not> cache_lock (km_caches k' c)"
    "live_objects k' c ls' (fo(sl := x # fo sl)) = live_objects k c ls fo - {x}"
    "sl = align_down x PGSIZE" "sl \<in> slabs_of ls"
    "Suc (length (fo sl)) < obj_count k c \<Longrightarrow> km_nodes k' = km_nodes k \<and> ls' = ls"
proof -
  note r = rel [unfolded kmem_rel_def]
  have ok: "cache_ok k c ls fo" using r by blast
  note geo = cache_okD(1) [OF ok] and fam = cache_okD(2) [OF ok]
  obtain sl where sl: "sl \<in> slabs_of ls" "x \<in> slots sl (obj_bytes k c) (obj_count k c)" "x \<notin> set (fo sl)"
    using live by (auto simp: live_objects_def)
  note so = cache_okD(3) [OF ok sl(1)]
  have sp: "take_bit 12 sl = 0" "sl \<noteq> 0" using so by (simp_all add: slab_ok_def)
  have ad: "align_down x PGSIZE = sl" and x0: "x \<noteq> 0" using slot_nonzero [OF sp geo sl(2)] by simp_all
  have n: "obj_count k c \<le> 506" by (rule count_bound [OF geo])
  have "length (x # fo sl) \<le> obj_count k c"
    by (rule slots_length [of _ sl "obj_bytes k c"]) (use sl so in \<open>auto simp: slab_ok_def\<close>)
  then have len: "Suc (length (fo sl)) \<le> obj_count k c" by simp
  define k0 where "k0 = k\<lparr>km_caches := (km_caches k)(c := (km_caches k c)\<lparr>cache_lock := True\<rparr>)\<rparr>"
  have ac: "acquire_cache c k = Some k0" using lock by (simp add: acquire_cache_def k0_def)
  have k0: "km_slabs k0 = km_slabs k" "km_pmm k0 = km_pmm k" "km_nodes k0 = km_nodes k" by (simp_all add: k0_def)
  let ?s = "km_slabs k sl" and ?m = "pm_mem (km_pmm k)"
  let ?s1 = "?s\<lparr>freelist := x, inuse := inuse ?s - 1, free := free ?s + 1\<rparr>"
  let ?m1 = "store_u64 ?m x (freelist ?s)"
  define k1 where "k1 = k0\<lparr>km_pmm := (km_pmm k)\<lparr>pm_mem := ?m1\<rparr>, km_slabs := (km_slabs k)(sl := ?s1)\<rparr>"
  have g: "obj_bytes k' c = obj_bytes k c" "obj_count k' c = obj_count k c" if "km_caches k' = km_caches k0" for k'
    using that by (simp_all add: obj_bytes_def obj_count_def k0_def)
  let ?fo = "fo(sl := x # fo sl)"
  have u: "inuse ?s - 1 = of_nat (obj_count k c - Suc (length (fo sl)))"
    using so len by (simp add: slab_ok_def of_nat_diff)
  have f: "free ?s + 1 = of_nat (Suc (length (fo sl)))" using so by (simp add: slab_ok_def)
  have z: "inuse ?s1 = 0 \<longleftrightarrow> \<not> Suc (length (fo sl)) < obj_count k c"
    using u counter_zero [of "obj_count k c - Suc (length (fo sl))"] n by auto
  have own: "obj_chain ?m1 x (x # fo sl)"
  proof (rule obj_chain_push [OF _ x0])
    show "obj_chain ?m (freelist ?s) (fo sl)" using so by (simp add: slab_ok_def)
    show "apart8 y x" if "y \<in> set (fo sl)" for y
      by (rule slots_apart [OF geo _ sl(2)]) (use that so sl(3) in \<open>auto simp: slab_ok_def\<close>)
  qed
  have slabs: "slab_ok k' c sl' (?fo sl')"
    if "sl' \<in> slabs_of ls" "km_slabs k' = km_slabs k1" "km_pmm k' = km_pmm k1" "km_caches k' = km_caches k0" for k' sl'
  proof (cases "sl' = sl")
    case True
    then show ?thesis using so that g [OF that(4)] own u f sl(2,3) by (simp add: slab_ok_def k1_def)
  next
    case False
    note so' = cache_okD(3) [OF ok that(1)]
    have "load_u64 ?m1 y = load_u64 ?m y" if y: "y \<in> set (fo sl')" for y
      by (rule other_page_load [OF geo _ _ sp(1) False])
        (use so' y store_u64_outside [OF slots_in_page(2) [OF geo sl(2)]] in \<open>auto simp: slab_ok_def\<close>)
    then show ?thesis using so' False that
      by (subst slab_ok_cong [where k = k]) (simp_all add: k1_def k0_def)
  qed
  define k2 where "k2 = (if inuse ?s1 = 0 then k1\<lparr>km_nodes := list_move (SlabNode sl) (SlabsFree c) (km_nodes k)\<rparr> else k1)"
  obtain i where i: "sl \<in> set (ls i)" using sl(1) by (auto simp: slabs_of_def)
  define ls' where "ls' = (if inuse ?s1 = 0 then move_slab sl i Free ls else ls)"
  note ms = move_slab_sets [OF fam i, of Free]
  have so2: "slabs_of ls' = slabs_of ls" by (simp add: ls'_def ms(2))
  have c2: "km_caches k2 = km_caches k0" "km_slabs k2 = km_slabs k1" "km_pmm k2 = km_pmm k1" by (simp_all add: k2_def k1_def)
  have ok2: "cache_ok k2 c ls' ?fo"
    unfolding cache_ok_def
  proof (intro conjI ballI)
    show "good_geometry (obj_bytes k2 c) (obj_count k2 c)" using geo g [OF c2(1)] by simp
    show "kernel_list.family (km_nodes k2) (slab_heads c) UNIV (slab_nodes ls')"
      using fam family_move_slab [OF fam i, of Free] by (simp add: k2_def ls'_def slab_heads_def k1_def k0)
    show "slab_ok k2 c sl' (?fo sl')" if "sl' \<in> slabs_of ls'" for sl' using that slabs c2 by (simp add: so2)
    show "?fo sl' \<noteq> []" if "sl' \<in> set (ls' Partial) \<union> set (ls' Free)" for sl'
      using that cache_okD(4) [OF ok, of sl'] by (auto simp: ls'_def ms(1) split: if_splits)
  qed
  have rel2: "kmem_rel k2 c A ls' ?fo" using r ok2 by (simp add: kmem_rel_def so2 c2(3)) (simp add: k1_def pmm_rel_mem)
  have live2: "live_objects k2 c ls' ?fo = live_objects k c ls fo - {x}"
    by (rule live_remove [OF ok sl(1,2) so2 g [OF c2(1)]])
  have "kmem_cache_free c x k = Some (release_cache c k2)"
    by (simp add: kmem_cache_free_def ac ad k0 k1_def [unfolded k0(2)] k2_def Let_def)
  then show thesis
  proof (rule that)
    show "kmem_rel (release_cache c k2) c A ls' ?fo" "live_objects (release_cache c k2) c ls' ?fo = live_objects k c ls fo - {x}"
      "\<not> cache_lock (km_caches (release_cache c k2) c)"
      using rel2 live2 unfolding release_cache_def lock_cong by simp_all
    show "sl = align_down x PGSIZE" "sl \<in> slabs_of ls" by (simp_all add: ad sl(1))
    assume "Suc (length (fo sl)) < obj_count k c"
    then show "km_nodes (release_cache c k2) = km_nodes k \<and> ls' = ls"
      using z by (simp add: release_cache_def k2_def ls'_def k1_def k0)
  qed
qed

section \<open>Properties\<close>

lemma slab_heads_inj: "slab_heads c i = slab_heads c j \<longleftrightarrow> i = j"
  by (cases i; cases j) (simp_all add: slab_heads_def)

lemma kmem_init_cache_ok:
  assumes "0 < unat sz" "unat sz \<le> 4048" "pmm_rel (km_pmm k) A" "0 \<notin> A"
  shows "kmem_rel (kmem_init_cache k c name sz word_size) c A (\<lambda>_. []) fo"
    "unat sz \<le> obj_bytes (kmem_init_cache k c name sz word_size) c"
    "cache_lock (km_caches (kmem_init_cache k c name sz word_size) c') = cache_lock (km_caches k c')"
proof -
  obtain s n where g: "cache_geometry sz word_size = (of_nat s, word_size, of_nat n)"
    "s = 8 * ((unat sz + 7) div 8)" "1 \<le> n" "n \<le> 512" "48 + n * s \<le> 4096" "unat sz \<le> s" "8 \<le> s" "s \<le> 4048"
    by (rule geometry_bounds [OF assms(1,2)])
  let ?k = "kmem_init_cache k c name sz word_size"
  have "unat (ucast (of_nat s :: size_t) :: u32) = s" "unat (ucast (of_nat n :: size_t) :: u32) = n"
    using g(4,8) by (simp_all add: ucast_of_nat_down unat_of_nat)
  then have o: "obj_bytes ?k c = s" "obj_count ?k c = n"
    by (simp_all add: obj_bytes_def obj_count_def kmem_init_cache_def g(1))
  let ?h0 = "km_nodes k" and ?h = "km_nodes ?k"
  have "ring ?h (slab_heads c i) []" for i
    by (cases i) (simp_all add: slab_heads_def kmem_init_cache_def g(1) ring_def list_init_def list_upd)
  then have "kernel_list.family ?h (slab_heads c) UNIV (slab_nodes (\<lambda>_. []))"
    by (simp add: kernel_list.family_def slab_heads_inj)
  then have "cache_ok ?k c (\<lambda>_. []) fo"
    using g by (simp add: cache_ok_def o good_geometry_def slabs_of_def)
  then show "kmem_rel ?k c A (\<lambda>_. []) fo"
    using assms(3,4) by (simp add: kmem_rel_def slabs_of_def) (simp add: kmem_init_cache_def g(1))
  show "unat sz \<le> obj_bytes ?k c" by (simp add: o g(6))
  show "cache_lock (km_caches ?k c') = cache_lock (km_caches k c')" by (simp add: kmem_init_cache_def g(1))
qed

text \<open>C17: \<open>kmem_cache_alloc\<close> implements "hand out a new object": whenever a slab has a free object or a page is free, it
  returns an object that is not in use, and the objects in use are then the old ones and this one; the
  lists of slabs, the free lists in memory, the counters and the page allocator stay consistent, and the
  lock is free again.\<close>

theorem kmem_cache_alloc_correct:
  assumes "kmem_rel k c A ls fo" "\<not> cache_lock (km_caches k c)" "ls Partial \<noteq> [] \<or> ls Free \<noteq> [] \<or> A \<noteq> {}"
  shows "\<exists>k' obj A' ls' fo'. kmem_cache_alloc c k = Some (k', obj) \<and> kmem_rel k' c A' ls' fo' \<and> \<not> cache_lock (km_caches k' c) \<and> A' \<subseteq> A \<and>
    obj \<noteq> 0 \<and> obj \<notin> live_objects k c ls fo \<and> live_objects k' c ls' fo' = insert obj (live_objects k c ls fo)"
  by (rule kmem_cache_alloc_ok [OF assms])

definition blank_kmem :: "pmm \<Rightarrow> kmem" where
  "blank_kmem s = \<lparr>km_pmm = s, km_caches = (\<lambda>_. \<lparr>cache_name = [], obj_size = 0, cache_size = 0, cache_align = 0, objs_per_page = 0, cache_lock = False\<rparr>),
     km_slabs = (\<lambda>_. \<lparr>freelist = 0, inuse = 0, free = 0, slab_page = 0\<rparr>), km_nodes = (\<lambda>n. \<lparr>node_prev = n, node_next = n\<rparr>), kmalloc_caches = []\<rparr>"

lemma sample_cache:
  obtains s where "kmem_rel (kmem_init_cache (blank_kmem s) 0x1000 ''demo'' 100 word_size) 0x1000 ready_pages (\<lambda>_. []) (\<lambda>_. [])"
    "\<not> cache_lock (km_caches (kmem_init_cache (blank_kmem s) 0x1000 ''demo'' 100 word_size) 0x1000)"
proof -
  obtain s where s: "pmm_rel s ready_pages" using ready_running by blast
  have z: "0 \<notin> ready_pages"
    by (simp add: ready_pages_def pfn_range_def array_pages_def ready_state_def div_round_up_def PAGE_STRUCT_SIZE_def PGSIZE_def)
  have "kmem_rel (kmem_init_cache (blank_kmem s) 0x1000 ''demo'' 100 word_size) 0x1000 ready_pages (\<lambda>_. []) (\<lambda>_. [])"
    "cache_lock (km_caches (kmem_init_cache (blank_kmem s) 0x1000 ''demo'' 100 word_size) 0x1000) = cache_lock (km_caches (blank_kmem s) 0x1000)"
    by (rule kmem_init_cache_ok; use s z in \<open>simp add: blank_kmem_def\<close>)+
  then show thesis by (intro that [of s]) (simp_all add: blank_kmem_def)
qed

theorem kmem_cache_alloc_correct_witness:
  "\<exists>k k' obj A' ls' fo'. kmem_cache_alloc 0x1000 k = Some (k', obj) \<and> kmem_rel k' 0x1000 A' ls' fo' \<and> live_objects k' 0x1000 ls' fo' = {obj}"
proof -
  obtain s where s: "kmem_rel (kmem_init_cache (blank_kmem s) 0x1000 ''demo'' 100 word_size) 0x1000 ready_pages (\<lambda>_. []) (\<lambda>_. [])"
    "\<not> cache_lock (km_caches (kmem_init_cache (blank_kmem s) 0x1000 ''demo'' 100 word_size) 0x1000)"
    by (rule sample_cache)
  have "live_objects k 0x1000 (\<lambda>_. []) (\<lambda>_. []) = {}" for k by (simp add: live_objects_def slabs_of_def)
  then show ?thesis using kmem_cache_alloc_correct [OF s] ready_pages_ne by metis
qed

text \<open>C18: \<open>kmem_cache_free\<close> of an object in use takes exactly this object out of use and keeps the cache consistent.
  While another object of the same slab is in use the lists of slabs stay as they are: a slab on the list
  of full slabs stays there with its free object, out of reach of \<open>kmem_cache_alloc\<close>.\<close>

theorem kmem_cache_free_correct:
  assumes "kmem_rel k c A ls fo" "\<not> cache_lock (km_caches k c)" "x \<in> live_objects k c ls fo"
  shows "\<exists>k' ls' fo'. kmem_cache_free c x k = Some k' \<and> kmem_rel k' c A ls' fo' \<and> \<not> cache_lock (km_caches k' c) \<and>
    live_objects k' c ls' fo' = live_objects k c ls fo - {x} \<and>
    ((\<exists>y \<in> live_objects k c ls fo. y \<noteq> x \<and> align_down y PGSIZE = align_down x PGSIZE) \<longrightarrow> ls' = ls)"
proof -
  have ok: "cache_ok k c ls fo" using assms(1) by (simp add: kmem_rel_def)
  obtain k' ls' sl where f: "kmem_cache_free c x k = Some k'" "kmem_rel k' c A ls' (fo(sl := x # fo sl))" "\<not> cache_lock (km_caches k' c)"
    "live_objects k' c ls' (fo(sl := x # fo sl)) = live_objects k c ls fo - {x}"
    "sl = align_down x PGSIZE" "sl \<in> slabs_of ls"
    "Suc (length (fo sl)) < obj_count k c \<Longrightarrow> km_nodes k' = km_nodes k \<and> ls' = ls"
    by (rule kmem_cache_free_ok [OF assms]) (rule that; assumption)
  have inslab: "z \<in> slots sl (obj_bytes k c) (obj_count k c) \<and> z \<notin> set (fo sl)"
    if z: "z \<in> live_objects k c ls fo" "align_down z PGSIZE = sl" for z
  proof -
    obtain sl' where s: "sl' \<in> slabs_of ls" "z \<in> slots sl' (obj_bytes k c) (obj_count k c)" "z \<notin> set (fo sl')"
      using z(1) by (auto simp: live_objects_def)
    have "align_down z PGSIZE = sl'"
      using slot_nonzero(2) [OF _ _ cache_okD(1) [OF ok] s(2)] cache_okD(3) [OF ok s(1)] by (simp add: slab_ok_def)
    then show ?thesis using s z(2) by simp
  qed
  have "ls' = ls" if y: "y \<in> live_objects k c ls fo" "y \<noteq> x" "align_down y PGSIZE = sl" for y
  proof -
    have "length (x # y # fo sl) \<le> obj_count k c"
      by (rule slots_length [of _ sl "obj_bytes k c"])
        (use inslab [OF y(1,3)] inslab [OF assms(3) f(5) [symmetric]] cache_okD(3) [OF ok f(6)] y(2) in \<open>auto simp: slab_ok_def\<close>)
    then show ?thesis using f(7) by simp
  qed
  then show ?thesis using f by blast
qed

theorem kmem_cache_free_correct_witness:
  "\<exists>k k' x A' ls' fo'. kmem_cache_free 0x1000 x k = Some k' \<and> kmem_rel k' 0x1000 A' ls' fo' \<and> live_objects k' 0x1000 ls' fo' = {}"
proof -
  obtain s where s: "kmem_rel (kmem_init_cache (blank_kmem s) 0x1000 ''demo'' 100 word_size) 0x1000 ready_pages (\<lambda>_. []) (\<lambda>_. [])"
    "\<not> cache_lock (km_caches (kmem_init_cache (blank_kmem s) 0x1000 ''demo'' 100 word_size) 0x1000)"
    by (rule sample_cache)
  have "live_objects k 0x1000 (\<lambda>_. []) (\<lambda>_. []) = {}" for k by (simp add: live_objects_def slabs_of_def)
  then obtain k x A' ls' fo' where k: "kmem_rel k 0x1000 A' ls' fo'" "\<not> cache_lock (km_caches k 0x1000)" "live_objects k 0x1000 ls' fo' = {x}"
    using kmem_cache_alloc_ok [OF s] ready_pages_ne by metis
  have "x \<in> live_objects k 0x1000 ls' fo'" using k(3) by simp
  from kmem_cache_free_correct [OF k(1,2) this] show ?thesis unfolding k(3) Diff_cancel by blast
qed

end
