(* ===== verification/Arith64.thy ===== *)
theory Arith64
  imports Prelude "HOL-Library.Signed_Division"
begin

text \<open>
  The 64-bit integer support routines of \<open>src/lib/div.c\<close>.  Values are 64-bit words; the union
  \<open>arith64_word\<close> is \<open>arith64_hi\<close>, \<open>arith64_lo\<close> and \<open>arith64_word\<close>.  A division by zero, which the code
  turns into a processor exception, is \<open>None\<close>.
\<close>

section \<open>The routines of lib/div.c\<close>

type_synonym s64 = "64 word"

definition arith64_hi :: "u64 \<Rightarrow> u32" where "arith64_hi n = ucast (drop_bit 32 n)"
definition arith64_lo :: "u64 \<Rightarrow> u32" where "arith64_lo n = ucast n"

definition arith64_word :: "u32 \<Rightarrow> u32 \<Rightarrow> u64" where
  "arith64_word hi lo = push_bit 32 (ucast hi) OR ucast lo"

definition arith64_neg :: "u64 \<Rightarrow> s64 \<Rightarrow> u64" where
  "arith64_neg a b = (a XOR (of_bool (0 \<le>s b) - 1)) + of_bool (b <s 0)"

definition absvdi2 :: "s64 \<Rightarrow> s64" where
  "absvdi2 a = arith64_neg a a"

definition ashldi3 :: "s64 \<Rightarrow> cint \<Rightarrow> s64" where
  "ashldi3 a b =
     (let b = unat (b AND 63); hi = arith64_hi a; lo = arith64_lo a
      in if 32 \<le> b then arith64_word (push_bit (b - 32) lo) 0
         else if b \<noteq> 0 then arith64_word (drop_bit (32 - b) lo OR push_bit b hi) (push_bit b lo)
         else arith64_word hi lo)"

definition ashrdi3 :: "s64 \<Rightarrow> cint \<Rightarrow> s64" where
  "ashrdi3 a b =
     (let b = unat (b AND 63); hi = arith64_hi a; lo = arith64_lo a
      in if 32 \<le> b then arith64_word (signed_drop_bit 31 hi) (signed_drop_bit (b - 32) hi)
         else if b \<noteq> 0 then arith64_word (signed_drop_bit b hi) (push_bit (32 - b) hi OR drop_bit b lo)
         else arith64_word hi lo)"

definition lshrdi3 :: "u64 \<Rightarrow> cint \<Rightarrow> u64" where
  "lshrdi3 a b =
     (let b = unat (b AND 63); hi = arith64_hi a; lo = arith64_lo a
      in if 32 \<le> b then arith64_word 0 (drop_bit (b - 32) hi)
         else if b \<noteq> 0 then arith64_word (drop_bit b hi) (push_bit (32 - b) hi OR drop_bit b lo)
         else arith64_word hi lo)"

text \<open>One line \<open>b = !(a & m) << k; n += b; a <<= b;\<close> of the counting functions, and its mirror image.\<close>

definition clz_step :: "'a::len word \<Rightarrow> nat \<Rightarrow> cint \<times> 'a word \<Rightarrow> cint \<times> 'a word" where
  "clz_step m k = (\<lambda>(n, a). let b = push_bit k (of_bool (a AND m = 0)) in (n + b, push_bit (unat b) a))"

definition ctz_step :: "'a::len word \<Rightarrow> nat \<Rightarrow> cint \<times> 'a word \<Rightarrow> cint \<times> 'a word" where
  "ctz_step m k = (\<lambda>(n, a). let b = push_bit k (of_bool (a AND m = 0)) in (n + b, drop_bit (unat b) a))"

definition clzsi2 :: "u32 \<Rightarrow> cint" where
  "clzsi2 a =
     (case clz_step 0xc0000000 1 (clz_step 0xf0000000 2 (clz_step 0xff000000 3 (clz_step 0xffff0000 4 (0, a))))
      of (n, a) \<Rightarrow> n + of_bool (a AND 0x80000000 = 0))"

definition clzdi2 :: "u64 \<Rightarrow> cint" where
  "clzdi2 a =
     (case clz_step 0xc000000000000000 1 (clz_step 0xf000000000000000 2 (clz_step 0xff00000000000000 3
            (clz_step 0xffff000000000000 4 (clz_step 0xffffffff00000000 5 (0, a)))))
      of (n, a) \<Rightarrow> n + of_bool (a AND 0x8000000000000000 = 0))"

definition ctzsi2 :: "u32 \<Rightarrow> cint" where
  "ctzsi2 a =
     (case ctz_step 0x00000003 1 (ctz_step 0x0000000f 2 (ctz_step 0x000000ff 3 (ctz_step 0x0000ffff 4 (0, a))))
      of (n, a) \<Rightarrow> n + of_bool (a AND 0x00000001 = 0))"

definition ctzdi2 :: "u64 \<Rightarrow> cint" where
  "ctzdi2 a =
     (case ctz_step 0x0000000000000003 1 (ctz_step 0x000000000000000f 2 (ctz_step 0x00000000000000ff 3
            (ctz_step 0x000000000000ffff 4 (ctz_step 0x00000000ffffffff 5 (0, a)))))
      of (n, a) \<Rightarrow> n + of_bool (a AND 0x0000000000000001 = 0))"

definition ffsdi2 :: "u64 \<Rightarrow> cint" where
  "ffsdi2 a = (if a \<noteq> 0 then ctzdi2 a + 1 else 0)"

function divmod_loop :: "u8 \<Rightarrow> u64 \<Rightarrow> u64 \<Rightarrow> u64 \<Rightarrow> u64 \<Rightarrow> u64 \<times> u64 \<times> u64" where
  "divmod_loop bits b rem a wrap =
     (if 0 <s bits
      then let rem1 = push_bit 1 rem OR drop_bit 63 a;
               a1 = push_bit 1 a OR (wrap AND 1);
               wrap1 = signed_drop_bit 63 (b - rem1 - 1)
           in divmod_loop (bits - 1) b (rem1 - (b AND wrap1)) a1 wrap1
      else (rem, a, wrap))"
  by pat_completeness auto
termination
proof (relation "measure (\<lambda>(bits, _). nat (sint bits))", goal_cases)
  case (2 bits b rem a wrap rem1 a1 wrap1)
  have "sint bits < 2 ^ 7" using sint_lt [of bits] by simp
  then have "sint (bits - 1) = sint bits - 1"
    using 2 by (simp add: word_sless_alt sint_word_ariths signed_take_bit_int_eq_self)
  then show ?case using 2 by (simp add: word_sless_alt)
qed simp

declare divmod_loop.simps [simp del]

definition divmoddi4 :: "u64 \<Rightarrow> u64 \<Rightarrow> (u64 \<times> u64) option" where
  "divmoddi4 a b =
     (if b > a then Some (0, a)
      else if arith64_hi b = 0 \<and> b = 0 then None
      else if arith64_hi b = 0 \<and> b = 1 then Some (a, 0)
      else if arith64_hi b = 0 \<and> arith64_hi a = 0
      then Some (ucast (arith64_lo a div arith64_lo b), ucast (arith64_lo a mod arith64_lo b))
      else let bits = ucast (clzdi2 b - clzdi2 a + 1) :: u8
           in case divmod_loop bits b (drop_bit (unat bits) a) (push_bit (unat (64 - bits)) a) 0
              of (rem, a, wrap) \<Rightarrow> Some (push_bit 1 a OR (wrap AND 1), rem))"

definition udivdi3 :: "u64 \<Rightarrow> u64 \<Rightarrow> u64 option" where
  "udivdi3 a b = map_option fst (divmoddi4 a b)"

definition umoddi3 :: "u64 \<Rightarrow> u64 \<Rightarrow> u64 option" where
  "umoddi3 a b = map_option snd (divmoddi4 a b)"

definition divdi3 :: "s64 \<Rightarrow> s64 \<Rightarrow> s64 option" where
  "divdi3 a b = do { (q, r) \<leftarrow> divmoddi4 (arith64_neg a a) (arith64_neg b b); Some (arith64_neg q (a XOR b)) }"

definition moddi3 :: "s64 \<Rightarrow> s64 \<Rightarrow> s64 option" where
  "moddi3 a b = do { (q, r) \<leftarrow> divmoddi4 (arith64_neg a a) (arith64_neg b b); Some (arith64_neg r a) }"

definition popcountsi2 :: "u32 \<Rightarrow> cint" where
  "popcountsi2 a =
     (let a = a - (drop_bit 1 a AND 0x55555555);
          a = (drop_bit 2 a AND 0x33333333) + (a AND 0x33333333);
          a = (a + drop_bit 4 a) AND 0x0F0F0F0F;
          a = a + drop_bit 16 a
      in (a + drop_bit 8 a) AND 63)"

definition popcountdi2 :: "u64 \<Rightarrow> cint" where
  "popcountdi2 a =
     (let a = a - (drop_bit 1 a AND 0x5555555555555555);
          a = (drop_bit 2 a AND 0x3333333333333333) + (a AND 0x3333333333333333);
          a = (a + drop_bit 4 a) AND 0x0F0F0F0F0F0F0F0F;
          a = a + drop_bit 32 a;
          a = a + drop_bit 16 a
      in ucast ((a + drop_bit 8 a) AND 127))"

section \<open>Shifts\<close>

lemma bit_arith64_word: "bit (arith64_word hi lo) n \<longleftrightarrow> (if n < 32 then bit lo n else n < 64 \<and> bit hi (n - 32))"
  using bit_imp_le_length [of lo n] by (auto simp: arith64_word_def bit_simps)

lemma bit_sdrop:
  "bit (signed_drop_bit k (v :: u32)) n \<longleftrightarrow> bit v (if 32 - k \<le> n \<and> n < 32 then 31 else k + n)"
  "bit (signed_drop_bit k (w :: u64)) n \<longleftrightarrow> bit w (if 64 - k \<le> n \<and> n < 64 then 63 else k + n)"
  by (simp_all add: bit_signed_drop_bit_iff)

lemma bit_hi: "bit (arith64_hi a) n \<longleftrightarrow> n < 32 \<and> bit a (n + 32)"
  by (auto simp: arith64_hi_def bit_simps add.commute)

lemma bit_lo: "bit (arith64_lo a) n \<longleftrightarrow> n < 32 \<and> bit a n"
  by (auto simp: arith64_lo_def bit_simps)

lemma shift_count: "unat (b AND 63 :: cint) < 64"
proof -
  have "b AND 63 = take_bit 6 b" by (simp add: take_bit_eq_mask mask_eq_exp_minus_1)
  then show ?thesis by (simp add: unsigned_take_bit_eq take_bit_eq_mod [where 'a = nat])
qed

lemma ashldi3_eq: "ashldi3 a b = push_bit (unat (b AND 63)) a"
proof (rule bit_word_eqI)
  fix n assume n: "n < LENGTH(64)"
  define c where "c = unat (b AND 63)"
  have "c < 64" unfolding c_def by (rule shift_count)
  then show "bit (ashldi3 a b) n = bit (push_bit (unat (b AND 63)) a) n"
    using n unfolding ashldi3_def c_def [symmetric] Let_def
    by (auto simp: bit_arith64_word bit_hi bit_lo bit_push_bit_iff bit_drop_bit_eq bit_or_iff)
qed

lemma lshrdi3_eq: "lshrdi3 a b = drop_bit (unat (b AND 63)) a"
proof (rule bit_word_eqI)
  fix n assume n: "n < LENGTH(64)"
  define c where "c = unat (b AND 63)"
  have "c < 64" unfolding c_def by (rule shift_count)
  then show "bit (lshrdi3 a b) n = bit (drop_bit (unat (b AND 63)) a) n"
    using n bit_imp_le_length [of a "n + c"] unfolding lshrdi3_def c_def [symmetric] Let_def
    by (auto simp: bit_arith64_word bit_hi bit_lo bit_push_bit_iff bit_drop_bit_eq bit_or_iff add.commute add.left_commute)
qed

lemma ashrdi3_eq: "ashrdi3 a b = signed_drop_bit (unat (b AND 63)) a"
proof (rule bit_word_eqI)
  fix n assume n: "n < LENGTH(64)"
  define c where "c = unat (b AND 63)"
  have "c < 64" unfolding c_def by (rule shift_count)
  moreover have "n < 64" using n by simp
  ultimately show "bit (ashrdi3 a b) n = bit (signed_drop_bit (unat (b AND 63)) a) n"
    using bit_imp_le_length [of a "n + c"] unfolding ashrdi3_def c_def [symmetric] Let_def
    by (auto simp: bit_arith64_word bit_hi bit_lo bit_push_bit_iff bit_drop_bit_eq bit_or_iff bit_sdrop
          add.commute add.left_commute)
qed

section \<open>Counting zeros\<close>

definition msb_at :: "'a::len word \<Rightarrow> nat \<Rightarrow> bool" where
  "msb_at a h \<longleftrightarrow> bit a h \<and> (\<forall>j>h. \<not> bit a j)"

definition lsb_at :: "'a::len word \<Rightarrow> nat \<Rightarrow> bool" where
  "lsb_at a h \<longleftrightarrow> bit a h \<and> (\<forall>j<h. \<not> bit a j)"

lemma msb_at_ex: "a \<noteq> 0 \<Longrightarrow> \<exists>h. msb_at a h"
proof -
  assume "a \<noteq> 0"
  then obtain n where "bit a n" by (auto simp: bit_eq_iff)
  moreover have "\<forall>j. bit a j \<longrightarrow> j \<le> LENGTH('a)" using bit_imp_le_length [of a] less_imp_le by blast
  ultimately have "bit a (GREATEST n. bit a n)" "\<forall>j. bit a j \<longrightarrow> j \<le> (GREATEST n. bit a n)"
    by (auto intro: GreatestI_nat Greatest_le_nat)
  then show ?thesis unfolding msb_at_def by (meson not_le)
qed

lemma lsb_at_ex: "a \<noteq> 0 \<Longrightarrow> \<exists>h. lsb_at a h"
proof -
  assume "a \<noteq> 0"
  then obtain n where "bit a n" by (auto simp: bit_eq_iff)
  then show ?thesis unfolding lsb_at_def by (intro exI [of _ "LEAST n. bit a n"]) (auto intro: LeastI dest: not_less_Least)
qed

lemma msb_at_unat: "msb_at a h \<Longrightarrow> 2 ^ h \<le> unat a \<and> unat a < 2 ^ Suc h"
proof -
  assume m: "msb_at a h"
  have "take_bit (Suc h) a = a"
  proof (rule bit_eqI)
    fix n
    show "bit (take_bit (Suc h) a) n = bit a n"
      using m by (cases "n < Suc h") (auto simp: msb_at_def bit_take_bit_iff)
  qed
  then have "take_bit (Suc h) (unat a) = unat a"
    using arg_cong [of _ _ unat] by (metis unsigned_take_bit_eq)
  then have "unat a < 2 ^ Suc h" using take_bit_nat_less_exp [of "Suc h" "unat a"] by simp
  moreover have "\<not> unat a < 2 ^ h"
  proof
    assume "unat a < 2 ^ h"
    then have "\<not> bit (unat a) h" by (simp add: bit_iff_odd)
    moreover have "bit (unat a) h"
      using m bit_imp_le_length [of a h] by (simp add: msb_at_def bit_unsigned_iff)
    ultimately show False by simp
  qed
  ultimately show ?thesis by simp
qed

lemma clz_step_msb:
  fixes a :: "'a::len word"
  assumes "msb_at a h" "\<forall>j. bit m j \<longleftrightarrow> j < LENGTH('a) \<and> LENGTH('a) - 2 ^ k \<le> j" "2 ^ k \<le> LENGTH('a)" "k < 6"
    and "LENGTH('a) - 2 * 2 ^ k \<le> h"
    and "h = c + unat n" "LENGTH('a) \<le> 64"
    and s: "clz_step m k (n, a) = (n', a')"
  shows "\<exists>h'. msb_at a' h' \<and> h' = c + unat n' \<and> LENGTH('a) - 2 ^ k \<le> h'"
proof -
  have hL: "h < LENGTH('a)" using assms(1) bit_imp_le_length by (auto simp: msb_at_def)
  have z: "a AND m = 0 \<longleftrightarrow> h < LENGTH('a) - 2 ^ k"
  proof
    assume "a AND m = 0"
    then have "\<not> (bit a h \<and> bit m h)" by (metis bit_0_eq bit_and_iff bot_apply bot_bool_def)
    then show "h < LENGTH('a) - 2 ^ k" using assms(1,2) hL by (auto simp: msb_at_def)
  next
    assume "h < LENGTH('a) - 2 ^ k"
    then have "\<not> (bit a j \<and> bit m j)" for j using assms(1,2) by (auto simp: msb_at_def)
    then show "a AND m = 0" by (simp add: bit_eq_iff bit_and_iff)
  qed
  have pk: "(2::nat) ^ k < 2 ^ 6" using assms(4) by (intro power_strict_increasing) auto
  have b: "unat (push_bit k 1 :: cint) = 2 ^ k"
    using pk unat_of_nat [of "2 ^ k", where 'a = 32] by simp
  show ?thesis
  proof (cases "h < LENGTH('a) - 2 ^ k")
    case True
    then have "n' = n + push_bit k 1" "a' = push_bit (2 ^ k) a" using s z b by (auto simp: clz_step_def Let_def)
    moreover have "msb_at (push_bit (2 ^ k) a) (h + 2 ^ k)"
      using assms(1) True by (auto simp: msb_at_def bit_push_bit_iff)
    moreover have "unat (n + push_bit k 1) = unat n + 2 ^ k"
      using assms hL pk b by (subst unat_add_lem [THEN iffD1]) (simp_all del: push_bit_of_1)
    ultimately show ?thesis using assms(5,6) by (intro exI [of _ "h + 2 ^ k"]) simp
  next
    case False
    then have "n' = n" "a' = a" using s z by (auto simp: clz_step_def Let_def)
    then show ?thesis using assms False by (intro exI [of _ h]) simp
  qed
qed


lemma msb_at_lt: "msb_at (a :: 'a::len word) h \<Longrightarrow> h < LENGTH('a)"
  using bit_imp_le_length by (auto simp: msb_at_def)

definition clz_inv :: "nat \<Rightarrow> nat \<Rightarrow> cint \<times> 'a::len word \<Rightarrow> bool" where
  "clz_inv c k = (\<lambda>(n, a). \<exists>h. msb_at a h \<and> h = c + unat n \<and> LENGTH('a) - 2 ^ k \<le> h)"

lemma clz_inv_step:
  fixes s :: "cint \<times> 'a::len word"
  assumes "clz_inv c kk s" "kk = Suc k" "m = push_bit (LENGTH('a) - 2 ^ k) (mask (2 ^ k))" "2 ^ k \<le> LENGTH('a)" "k < 6" "LENGTH('a) \<le> 64"
  shows "clz_inv c k (clz_step m k s)"
proof -
  obtain n a n' a' where s: "s = (n, a)" and s': "clz_step m k s = (n', a')" by (metis surj_pair)
  obtain h where h: "msb_at a h" "h = c + unat n" "LENGTH('a) - 2 ^ Suc k \<le> h"
    using assms(1,2) by (auto simp: clz_inv_def s)
  have m: "\<forall>j. bit m j \<longleftrightarrow> j < LENGTH('a) \<and> LENGTH('a) - 2 ^ k \<le> j"
    using assms(4) by (auto simp: assms(3) bit_push_bit_iff bit_mask_iff)
  have "\<exists>h'. msb_at a' h' \<and> h' = c + unat n' \<and> LENGTH('a) - 2 ^ k \<le> h'"
    by (rule clz_step_msb [OF h(1) m assms(4,5) _ h(2) assms(6)]) (use h(3) s s' in auto)
  then show ?thesis by (simp add: s' clz_inv_def)
qed

lemma clz_inv_end:
  assumes "clz_inv c 1 (n, a :: 'a::len word)" "t = push_bit (LENGTH('a) - 1) 1" "2 \<le> LENGTH('a)" "LENGTH('a) \<le> 64"
  shows "unat (n + of_bool (a AND t = 0)) + c = LENGTH('a) - 1"
proof -
  obtain h where h: "msb_at a h" "h = c + unat n" "LENGTH('a) - 2 \<le> h" using assms(1) by (auto simp: clz_inv_def)
  have z: "a AND t = 0 \<longleftrightarrow> \<not> bit a (LENGTH('a) - 1)"
    unfolding assms(2) using and_exp_eq_0_iff_not_bit [of a "LENGTH('a) - 1"] by (simp add: push_bit_eq_mult)
  have "h = LENGTH('a) - 1 \<or> h = LENGTH('a) - 2" using msb_at_lt [OF h(1)] h(3) by linarith
  then show ?thesis
  proof
    assume e: "h = LENGTH('a) - 1"
    then have "bit a (LENGTH('a) - 1)" using h(1) by (simp add: msb_at_def)
    then show ?thesis using z e h(2) by simp
  next
    assume e: "h = LENGTH('a) - 2"
    then have "\<not> bit a (LENGTH('a) - 1)" using h(1) assms(3) by (simp add: msb_at_def)
    moreover have "unat (n + 1) = unat n + 1"
      using e h(2) assms(3,4) by (intro unat_inc [of n 64]) (simp add: word_less_nat_alt)
    ultimately show ?thesis using z e h(2) assms(3) by simp
  qed
qed

lemma clz_result:
  fixes s :: "cint \<times> 'a::len word"
  assumes "clz_inv c 1 s" "t = push_bit (LENGTH('a) - 1) 1" "2 \<le> LENGTH('a)" "LENGTH('a) \<le> 64"
  shows "unat (case s of (n, a) \<Rightarrow> n + of_bool (a AND t = 0)) + c = LENGTH('a) - 1"
  using clz_inv_end [of c "fst s" "snd s" t] assms by (cases s) simp

lemma clzdi2_msb: "msb_at a h \<Longrightarrow> unat (clzdi2 a) + h = 63"
proof -
  assume a: "msb_at a h"
  have base: "clz_inv h 6 (0, a)" using a by (simp add: clz_inv_def)
  have "clz_inv h 1 (clz_step 0xc000000000000000 1 (clz_step 0xf000000000000000 2 (clz_step 0xff00000000000000 3
            (clz_step 0xffff000000000000 4 (clz_step 0xffffffff00000000 5 (0, a))))))"
    by (rule clz_inv_step [where kk = 2], rule clz_inv_step [where kk = 3], rule clz_inv_step [where kk = 4],
      rule clz_inv_step [where kk = 5], rule clz_inv_step [where kk = 6]) (simp_all add: base mask_eq_exp_minus_1)
  from clz_result [OF this, of "0x8000000000000000 :: u64"] show ?thesis unfolding clzdi2_def by simp
qed

lemma clzsi2_msb: "msb_at a h \<Longrightarrow> unat (clzsi2 a) + h = 31"
proof -
  assume a: "msb_at a h"
  have base: "clz_inv h 5 (0, a)" using a by (simp add: clz_inv_def)
  have "clz_inv h 1 (clz_step 0xc0000000 1 (clz_step 0xf0000000 2 (clz_step 0xff000000 3 (clz_step 0xffff0000 4 (0, a)))))"
    by (rule clz_inv_step [where kk = 2], rule clz_inv_step [where kk = 3], rule clz_inv_step [where kk = 4],
      rule clz_inv_step [where kk = 5]) (simp_all add: base mask_eq_exp_minus_1)
  from clz_result [OF this, of "0x80000000 :: u32"] show ?thesis unfolding clzsi2_def by simp
qed

definition ctz_inv :: "nat \<Rightarrow> nat \<Rightarrow> cint \<times> 'a::len word \<Rightarrow> bool" where
  "ctz_inv c k = (\<lambda>(n, a). \<exists>h. lsb_at a h \<and> c = h + unat n \<and> h < 2 ^ k)"

lemma ctz_inv_step:
  fixes s :: "cint \<times> 'a::len word"
  assumes "ctz_inv c kk s" "kk = Suc k" "m = mask (2 ^ k)" "2 ^ k \<le> LENGTH('a)" "k < 6" "c < 64"
  shows "ctz_inv c k (ctz_step m k s)"
proof -
  obtain n a where s: "s = (n, a)" by force
  obtain h where h: "lsb_at a h" "c = h + unat n" "h < 2 ^ Suc k" using assms(1,2) by (auto simp: ctz_inv_def s)
  have hL: "h < LENGTH('a)" using h(1) bit_imp_le_length by (auto simp: lsb_at_def)
  have z: "a AND m = 0 \<longleftrightarrow> 2 ^ k \<le> h"
  proof
    assume "a AND m = 0"
    then have "\<not> (bit a h \<and> bit m h)" by (metis bit_0_eq bit_and_iff bot_apply bot_bool_def)
    then show "2 ^ k \<le> h" using h(1) hL by (auto simp: lsb_at_def assms(3) bit_mask_iff)
  next
    assume "2 ^ k \<le> h"
    then have "\<not> (bit a j \<and> bit m j)" for j using h(1) by (auto simp: lsb_at_def assms(3) bit_mask_iff)
    then show "a AND m = 0" by (simp add: bit_eq_iff bit_and_iff)
  qed
  have pk: "(2::nat) ^ k < 2 ^ 6" using assms(5) by (intro power_strict_increasing) auto
  have b: "unat (push_bit k 1 :: cint) = 2 ^ k" using pk unat_of_nat [of "2 ^ k", where 'a = 32] by simp
  show ?thesis
  proof (cases "2 ^ k \<le> h")
    case True
    have "lsb_at (drop_bit (2 ^ k) a) (h - 2 ^ k)"
      using h(1) True by (auto simp: lsb_at_def bit_drop_bit_eq less_diff_conv2 add.commute)
    moreover have "unat (n + push_bit k 1) = unat n + 2 ^ k"
      using h(2) assms(6) pk b by (subst unat_add_lem [THEN iffD1]) (simp_all del: push_bit_of_1)
    ultimately show ?thesis
      using True z h b by (auto simp: ctz_inv_def s ctz_step_def Let_def intro!: exI [of _ "h - 2 ^ k"])
  next
    case False
    then show ?thesis using z h by (auto simp: ctz_inv_def s ctz_step_def Let_def)
  qed
qed

lemma ctz_inv_end:
  assumes "ctz_inv c 1 (n, a :: 'a::len word)" "c < 64"
  shows "unat (n + of_bool (a AND 1 = 0)) = c"
proof -
  obtain h where h: "lsb_at a h" "c = h + unat n" "h < 2" using assms(1) by (auto simp: ctz_inv_def)
  have z: "a AND 1 = 0 \<longleftrightarrow> \<not> bit a 0" using and_exp_eq_0_iff_not_bit [of a 0] by simp
  consider "h = 0" | "h = 1" using h(3) by linarith
  then show ?thesis
  proof cases
    case 1 then show ?thesis using z h by (simp add: lsb_at_def)
  next
    case 2
    then have "\<not> bit a 0" using h(1) by (simp add: lsb_at_def)
    moreover have "unat (n + 1) = unat n + 1"
      using 2 h(2) assms(2) by (intro unat_inc [of n 64]) (simp add: word_less_nat_alt)
    ultimately show ?thesis using z 2 h(2) by simp
  qed
qed

lemma lsb_at_lt: "lsb_at (a :: 'a::len word) h \<Longrightarrow> h < LENGTH('a)"
  using bit_imp_le_length by (auto simp: lsb_at_def)

lemma ctz_result: "ctz_inv c 1 s \<Longrightarrow> c < 64 \<Longrightarrow> unat (case s of (n, a) \<Rightarrow> n + of_bool (a AND 1 = 0)) = c"
  using ctz_inv_end [of c "fst s" "snd s"] by (cases s) simp

lemma ctzdi2_lsb: "lsb_at a h \<Longrightarrow> unat (ctzdi2 a) = h"
proof -
  assume a: "lsb_at a h"
  then have h: "h < 64" using lsb_at_lt [of a h] by simp
  have base: "ctz_inv h 6 (0, a)" using a h by (simp add: ctz_inv_def)
  have "ctz_inv h 1 (ctz_step 0x0000000000000003 1 (ctz_step 0x000000000000000f 2 (ctz_step 0x00000000000000ff 3
            (ctz_step 0x000000000000ffff 4 (ctz_step 0x00000000ffffffff 5 (0, a))))))"
    by (rule ctz_inv_step [where kk = 2], rule ctz_inv_step [where kk = 3], rule ctz_inv_step [where kk = 4],
      rule ctz_inv_step [where kk = 5], rule ctz_inv_step [where kk = 6]) (use base h in \<open>simp_all add: mask_eq_exp_minus_1\<close>)
  from ctz_result [OF this] h show ?thesis unfolding ctzdi2_def by simp
qed

lemma ctzsi2_lsb: "lsb_at a h \<Longrightarrow> unat (ctzsi2 a) = h"
proof -
  assume a: "lsb_at a h"
  then have h: "h < 32" using lsb_at_lt [of a h] by simp
  have base: "ctz_inv h 5 (0, a)" using a h by (simp add: ctz_inv_def)
  have "ctz_inv h 1 (ctz_step 0x00000003 1 (ctz_step 0x0000000f 2 (ctz_step 0x000000ff 3 (ctz_step 0x0000ffff 4 (0, a)))))"
    by (rule ctz_inv_step [where kk = 2], rule ctz_inv_step [where kk = 3], rule ctz_inv_step [where kk = 4],
      rule ctz_inv_step [where kk = 5]) (use base h in \<open>simp_all add: mask_eq_exp_minus_1\<close>)
  from ctz_result [OF this] h show ?thesis unfolding ctzsi2_def by simp
qed

section \<open>Long division\<close>

lemma unat_shift_or:
  fixes r :: u64
  assumes "unat r < 2 ^ 63"
  shows "unat (push_bit 1 r OR of_bool t) = 2 * unat r + of_bool t"
proof -
  have "push_bit 1 r AND of_bool t = 0"
    by (rule bit_word_eqI) (simp only: bit_and_iff bit_push_bit_iff bit_of_bool_iff, auto)
  then have "push_bit 1 r OR of_bool t = push_bit 1 r + of_bool t" by (rule disjunctive_add_eq_or [symmetric])
  moreover have "unat (push_bit 1 r) = 2 * unat r"
    unfolding unsigned_push_bit_eq using assms by (simp add: take_bit_nat_eq_self)
  ultimately show ?thesis
    using assms unat_add_lem [of "push_bit 1 r" "of_bool t"] by (cases t) auto
qed

lemma top_bit: "drop_bit 63 a = of_bool (2 ^ 63 \<le> unat a)" for a :: u64
proof -
  have "unat (drop_bit 63 a) = unat a div 2 ^ 63" by (simp add: unat_drop_bit_eq drop_bit_eq_div [where 'a = nat])
  moreover have "unat a < 2 ^ 64" using unsigned_less [of a] by simp
  ultimately show ?thesis by (cases "2 ^ 63 \<le> unat a") (auto simp: word_unat_eq_iff div_nat_eqI)
qed

lemma unat_shift_in:
  fixes a :: u64
  shows "unat (push_bit 1 a OR of_bool w) = 2 * (unat a mod 2 ^ 63) + of_bool w"
proof -
  have "push_bit 1 a = push_bit 1 (take_bit 63 a)"
    by (rule bit_word_eqI) (simp only: bit_push_bit_iff bit_take_bit_iff, auto)
  moreover have u: "unat (take_bit 63 a) = unat a mod 2 ^ 63"
    by (simp add: unsigned_take_bit_eq take_bit_eq_mod [where 'a = nat])
  moreover have "unat (take_bit 63 a) < 2 ^ 63" unfolding u by simp
  ultimately show ?thesis using unat_shift_or [of "take_bit 63 a" w] by simp
qed

lemma wrap_word: "signed_drop_bit 63 x = (if unat x < 2 ^ 63 then 0 else - 1)" for x :: u64
proof (rule bit_word_eqI)
  fix n assume n: "n < LENGTH(64)"
  have "bit x 63 \<longleftrightarrow> \<not> unat x < 2 ^ 63"
  proof -
    have "drop_bit 63 x = of_bool (bit x 63)"
    proof (rule bit_word_eqI)
      fix k
      show "bit (drop_bit 63 x) k = bit (of_bool (bit x 63) :: u64) k"
        using bit_imp_le_length [of x "63 + k"] by (cases "k = 0") (auto simp: bit_simps)
    qed
    then show ?thesis using top_bit [of x] by (auto simp: not_less split: if_splits)
  qed
  then show "bit (signed_drop_bit 63 x) n = bit (if unat x < 2 ^ 63 then 0 else - 1 :: u64) n"
    using n by (cases "n = 0") (auto simp: bit_signed_drop_bit_iff)
qed

text \<open>One round of the loop on natural numbers: the borrow is right whenever both operands lie below
  \<open>2 ^ 63\<close> or the remainder and the divisor are close.\<close>

lemma borrow_arith:
  fixes x b r :: nat
  shows "x = 2 ^ 64 + b - r - 1 \<Longrightarrow> b \<le> r \<Longrightarrow> r < 2 * b \<Longrightarrow> r < 2 ^ 64 \<Longrightarrow> \<not> x < 2 ^ 63"
    and "x = b - r - 1 \<Longrightarrow> r < b \<Longrightarrow> b < 2 ^ 63 \<or> 2 ^ 63 \<le> r \<Longrightarrow> b < 2 ^ 64 \<Longrightarrow> x < 2 ^ 63"
  by auto

lemma wrap_compare:
  fixes b r :: u64
  assumes "unat r < 2 * unat b" "unat b < 2 ^ 63 \<or> 2 ^ 63 \<le> unat r"
  shows "signed_drop_bit 63 (b - r - 1) = (if unat b \<le> unat r then - 1 else 0)"
proof -
  have lb: "unat b < 2 ^ 64" and lr: "unat r < 2 ^ 64" using unsigned_less [of b] unsigned_less [of r] by simp_all
  show ?thesis
  proof (cases "unat b \<le> unat r")
    case True
    have e: "unat (b - r - 1) = 2 ^ 64 + unat b - unat r - 1"
    proof (cases "b = r")
      case True
      then show ?thesis by (simp add: unsigned_minus_1_eq_mask mask_eq_exp_minus_1)
    next
      case False
      then have "unat b < unat r" using True by (simp add: word_unat_eq_iff)
      then have "unat (b - r) = 2 ^ 64 + unat b - unat r" using unat_sub_if' [of b r] by simp
      moreover have "b - r \<noteq> 0" using False by simp
      ultimately show ?thesis by (simp add: unat_minus_one)
    qed
    then have "\<not> unat (b - r - 1) < 2 ^ 63" using True assms(1) lr by (rule borrow_arith)
    then show ?thesis using True by (simp only: wrap_word if_False if_True)
  next
    case False
    then have "unat (b - r) = unat b - unat r" by (simp add: unat_sub_if')
    moreover have "b - r \<noteq> 0" using False by auto
    ultimately have "unat (b - r - 1) = unat b - unat r - 1" by (simp add: unat_minus_one)
    then have "unat (b - r - 1) < 2 ^ 63" by (rule borrow_arith(2)) (use False assms lb in auto)
    then show ?thesis using False by (simp only: wrap_word if_False if_True)
  qed
qed

text \<open>The state with \<open>j\<close> rounds to go: \<open>T\<close> is what is left of the numerator, \<open>Q\<close> the quotient so far,
  whose last bit is still in \<open>wrap\<close>.\<close>

definition div_state :: "nat \<Rightarrow> nat \<Rightarrow> nat \<Rightarrow> nat \<Rightarrow> nat \<Rightarrow> u64 \<Rightarrow> u64 \<Rightarrow> u64 \<Rightarrow> bool" where
  "div_state A b j T Q rem a wrap \<longleftrightarrow>
     A = (Q * b + unat rem) * 2 ^ j + T \<and> T < 2 ^ j \<and> unat rem < b \<and>
     unat a = T * 2 ^ (64 - j) + Q div 2 \<and> Q div 2 < 2 ^ (64 - j) \<and> wrap = (if odd Q then - 1 else 0)"

lemma div_round:
  assumes st: "div_state A (unat b) (Suc j) T Q rem a wrap" and j: "j < 63" and q: "Q < 2 ^ (63 - j)"
    and big: "unat b < 2 ^ 63 \<or> 2 ^ 63 \<le> 2 * unat rem + T div 2 ^ j"
    and rem1: "rem1 = push_bit 1 rem OR drop_bit 63 a" and a1: "a1 = push_bit 1 a OR (wrap AND 1)"
    and wrap1: "wrap1 = signed_drop_bit 63 (b - rem1 - 1)" and rr: "unat rem < 2 ^ 63"
  shows "\<exists>w. div_state A (unat b) j (T mod 2 ^ j) (2 * Q + of_bool w) (rem1 - (b AND wrap1)) a1 wrap1"
proof -
  have A: "A = (Q * unat b + unat rem) * 2 ^ Suc j + T" and T: "T < 2 ^ Suc j" and r: "unat rem < unat b"
    and ua: "unat a = T * 2 ^ (63 - j) + Q div 2" and Q2: "Q div 2 < 2 ^ (63 - j)"
    and wr: "wrap = (if odd Q then - 1 else 0)"
    using st by (auto simp: div_state_def)
  define t where "t = (2 ^ j \<le> T)"
  have Tt: "T = of_bool t * 2 ^ j + T mod 2 ^ j" "T div 2 ^ j = of_bool t"
    using T by (auto simp: t_def le_mod_geq div_nat_eqI)
  have p: "(2::nat) ^ 63 = 2 ^ j * 2 ^ (63 - j)" using j by (simp flip: power_add)
  have Tm: "T mod 2 ^ j * 2 ^ (63 - j) + Q div 2 < 2 ^ 63"
  proof -
    have "T mod 2 ^ j + 1 \<le> 2 ^ j" by (simp add: Suc_le_eq)
    then have "(T mod 2 ^ j + 1) * 2 ^ (63 - j) \<le> 2 ^ j * 2 ^ (63 - j)" by (rule mult_le_mono1)
    then show ?thesis using Q2 p by (simp add: algebra_simps)
  qed
  have ua': "unat a = of_bool t * 2 ^ 63 + (T mod 2 ^ j * 2 ^ (63 - j) + Q div 2)"
    unfolding ua p by (subst Tt(1)) (simp add: algebra_simps)
  have tb: "drop_bit 63 a = of_bool t" unfolding top_bit ua' using Tm by (cases t) auto
  have ur1: "unat rem1 = 2 * unat rem + of_bool t" unfolding rem1 tb by (rule unat_shift_or [OF rr])
  have e64: "64 - j = Suc (63 - j)" using j by simp
  have w1: "wrap AND 1 = of_bool (odd Q)" by (simp add: wr)
  have "unat a mod 2 ^ 63 = T mod 2 ^ j * 2 ^ (63 - j) + Q div 2" unfolding ua' using Tm by (cases t) auto
  then have ua1: "unat a1 = T mod 2 ^ j * 2 ^ (64 - j) + Q"
    unfolding a1 w1 unat_shift_in using j by (simp add: e64 algebra_simps)
  define w where "w = (unat b \<le> unat rem1)"
  have wr1: "wrap1 = (if w then - 1 else 0)"
    unfolding wrap1 w_def using wrap_compare [of rem1 b] r big by (auto simp: ur1 Tt(2))
  have ur: "unat (rem1 - (b AND wrap1)) = unat rem1 - of_bool w * unat b"
    by (auto simp: wr1 w_def unat_sub_if' )
  show ?thesis
    unfolding div_state_def
  proof (intro exI [of _ w] conjI)
    have "of_bool w * unat b \<le> unat rem1" by (auto simp: w_def)
    then have e: "(2 * Q + of_bool w) * unat b + unat (rem1 - (b AND wrap1)) = 2 * (Q * unat b + unat rem) + of_bool t"
      unfolding ur by (simp add: ur1 algebra_simps)
    have "A = (2 * (Q * unat b + unat rem) + of_bool t) * 2 ^ j + T mod 2 ^ j"
      unfolding A using Tt(1) by (simp add: algebra_simps)
    then show "A = ((2 * Q + of_bool w) * unat b + unat (rem1 - (b AND wrap1))) * 2 ^ j + T mod 2 ^ j"
      by (simp only: e)
    show "unat (rem1 - (b AND wrap1)) < unat b" unfolding ur using r by (auto simp: w_def ur1)
    show "unat a1 = T mod 2 ^ j * 2 ^ (64 - j) + (2 * Q + of_bool w) div 2" by (simp add: ua1)
    have "Q < 2 ^ (64 - j)" using q by (simp add: e64)
    then show "(2 * Q + of_bool w) div 2 < 2 ^ (64 - j)" by simp
    show "wrap1 = (if odd (2 * Q + of_bool w) then - 1 else 0)" by (simp add: wr1)
  qed simp
qed


lemma divmod_loop_inv:
  assumes "div_state A (unat b) j T Q rem a wrap" "j \<le> 63" "Q < 2 ^ (64 - j)"
    and "unat b < 2 ^ 63 \<or> j \<le> 1 \<and> (j = 1 \<longrightarrow> 2 ^ 63 \<le> 2 * unat rem + T div 2 ^ (j - 1) \<and> unat rem < 2 ^ 63)"
    and "unat bits = j"
  shows "\<exists>rem' a' wrap' Q'. divmod_loop bits b rem a wrap = (rem', a', wrap') \<and> div_state A (unat b) 0 0 Q' rem' a' wrap'"
  using assms
proof (induction j arbitrary: T Q rem a wrap bits)
  case 0
  then have "bits = 0" by (simp add: unat_0_iff)
  then have "divmod_loop bits b rem a wrap = (rem, a, wrap)" by (subst divmod_loop.simps) simp
  moreover have "T = 0" using 0 by (simp add: div_state_def)
  ultimately show ?case using 0 by blast
next
  case (Suc j)
  define rem1 a1 wrap1 where "rem1 = push_bit 1 rem OR drop_bit 63 a" and "a1 = push_bit 1 a OR (wrap AND 1)"
    and "wrap1 = signed_drop_bit 63 (b - rem1 - 1)"
  have u: "unat (bits - 1) = j" using Suc.prems(5) by (subst unat_minus_one) auto
  have "0 <s bits"
  proof -
    have "unat (of_nat (Suc j) :: u8) = Suc j" unfolding unat_of_nat using Suc.prems(2) by simp
    then have "bits = of_nat (Suc j)" using Suc.prems(5) by (simp only: word_unat_eq_iff)
    then have "sint bits = int (Suc j)" using Suc.prems(2) by (simp add: signed_of_nat signed_take_bit_int_eq_self del: of_nat_Suc)
    then show ?thesis by (simp add: word_sless_alt)
  qed
  then have step: "divmod_loop bits b rem a wrap = divmod_loop (bits - 1) b (rem1 - (b AND wrap1)) a1 wrap1"
    by (subst divmod_loop.simps) (simp add: Let_def rem1_def a1_def wrap1_def)
  have rl: "unat rem < unat b" using Suc.prems(1) by (simp add: div_state_def)
  have "\<exists>w. div_state A (unat b) j (T mod 2 ^ j) (2 * Q + of_bool w) (rem1 - (b AND wrap1)) a1 wrap1"
    by (rule div_round [OF Suc.prems(1) _ _ _ rem1_def a1_def wrap1_def])
      (use Suc.prems(2,3,4) rl in auto)
  then obtain w where w: "div_state A (unat b) j (T mod 2 ^ j) (2 * Q + of_bool w) (rem1 - (b AND wrap1)) a1 wrap1" ..
  have "2 * Q + of_bool w < 2 ^ (64 - j)"
  proof -
    have "64 - j = Suc (64 - Suc j)" using Suc.prems(2) by simp
    then have "2 ^ (64 - j) = 2 * (2 :: nat) ^ (64 - Suc j)" by (simp only: power_Suc)
    moreover have "2 * Q + of_bool w \<le> 2 * Q + 1" by simp
    moreover have "Q + 1 \<le> 2 ^ (64 - Suc j)" using Suc.prems(3) by simp
    ultimately show ?thesis by linarith
  qed
  from Suc.IH [OF w _ this _ u] Suc.prems(2,4) show ?case unfolding step by auto
qed

lemma hi_zero: "arith64_hi a = 0 \<longleftrightarrow> unat a < 2 ^ 32"
proof -
  have u: "unat (arith64_hi a) = unat a div 2 ^ 32"
  proof -
    have "unat a div 2 ^ 32 < 2 ^ 32" using unsigned_less [of a] by (simp add: div_less_iff_less_mult)
    then show ?thesis
      by (simp add: arith64_hi_def unsigned_ucast_eq unat_drop_bit_eq drop_bit_eq_div [where 'a = nat] take_bit_nat_eq_self)
  qed
  have "arith64_hi a = 0 \<longleftrightarrow> unat (arith64_hi a) = 0" by (simp add: unat_0_iff)
  also have "\<dots> \<longleftrightarrow> unat a < 2 ^ 32" unfolding u by (simp add: div_eq_0_iff)
  finally show ?thesis .
qed

lemma lo_small: "unat a < 2 ^ 32 \<Longrightarrow> unat (arith64_lo a) = unat a"
  by (simp add: arith64_lo_def unsigned_ucast_eq take_bit_nat_eq_self)

lemma unat_ucast_up: "unat (ucast (x :: u32) :: u64) = unat x"
proof -
  have "unat x < 2 ^ 32" using unsigned_less [of x] by simp
  then show ?thesis by (simp add: unsigned_ucast_eq take_bit_nat_eq_self)
qed

lemma div_bits:
  assumes a: "msb_at a ha" and b: "msb_at b hb" and le: "hb \<le> ha"
  shows "unat (ucast (clzdi2 b - clzdi2 a + 1) :: u8) = ha - hb + 1"
    and "unat (64 - ucast (clzdi2 b - clzdi2 a + 1) :: u8) = 63 - (ha - hb)"
proof -
  have h: "ha < 64" using msb_at_lt [OF a] by simp
  have ca: "unat (clzdi2 a) = 63 - ha" and cb: "unat (clzdi2 b) = 63 - hb"
    using clzdi2_msb [OF a] clzdi2_msb [OF b] by simp_all
  have "unat (clzdi2 b - clzdi2 a) = ha - hb"
    using h le by (subst unat_sub) (auto simp: word_le_nat_alt ca cb)
  then have "unat (clzdi2 b - clzdi2 a + 1) = ha - hb + 1"
    using h by (subst unat_add_lem [THEN iffD1]) auto
  then show u: "unat (ucast (clzdi2 b - clzdi2 a + 1) :: u8) = ha - hb + 1"
    using h by (simp only: unsigned_ucast_eq) (simp add: take_bit_nat_eq_self)
  show "unat (64 - ucast (clzdi2 b - clzdi2 a + 1) :: u8) = 63 - (ha - hb)"
    using h by (subst unat_sub) (auto simp: word_le_nat_alt u)
qed

lemma div_start:
  assumes a: "msb_at a ha" and b: "msb_at b hb" and le: "hb \<le> ha" and j: "j = ha - hb + 1" "j \<le> 63"
  shows "div_state (unat a) (unat b) j (unat a mod 2 ^ j) 0 (drop_bit j a) (push_bit (64 - j) a) 0"
proof -
  have ur: "unat (drop_bit j a) = unat a div 2 ^ j" by (simp add: unat_drop_bit_eq drop_bit_eq_div [where 'a = nat])
  have "unat a < 2 ^ Suc ha" using msb_at_unat [OF a] by simp
  also have "Suc ha = hb + j" using le j by simp
  finally have "unat a div 2 ^ j < 2 ^ hb" by (simp add: power_add div_less_iff_less_mult)
  then have rb: "unat (drop_bit j a) < unat b" using msb_at_unat [OF b] ur by simp
  have "unat (push_bit (64 - j) a) = take_bit 64 (push_bit (64 - j) (unat a))" by (simp only: unsigned_push_bit_eq) simp
  also have "\<dots> = push_bit (64 - j) (take_bit j (unat a))"
    using j(2) by (simp add: take_bit_push_bit)
  also have "\<dots> = unat a mod 2 ^ j * 2 ^ (64 - j)" by (simp add: push_bit_eq_mult take_bit_eq_mod)
  finally show ?thesis using rb div_mult_mod_eq [of "unat a" "2 ^ j"] by (simp add: div_state_def ur)
qed

lemma divmoddi4_long:
  assumes le: "b \<le> a" and b: "b \<noteq> 0" "b \<noteq> 1"
    and d: "divmod_loop bits b (drop_bit (unat bits) a) (push_bit (unat (64 - bits)) a) 0 = (rem, a', wrap)"
    and bits: "bits = ucast (clzdi2 b - clzdi2 a + 1)"
  shows "push_bit 1 a' OR (wrap AND 1) = a div b" "rem = a mod b"
proof -
  have "a \<noteq> 0" using le b(1) by auto
  then obtain ha hb where ha: "msb_at a ha" and hb: "msb_at b hb" using msb_at_ex b(1) by blast
  have ba: "unat b \<le> unat a" using le by (simp add: word_le_nat_alt)
  have hh: "hb \<le> ha"
  proof (rule ccontr)
    assume "\<not> hb \<le> ha"
    then have "(2::nat) ^ Suc ha \<le> 2 ^ hb" by (intro power_increasing) auto
    then show False using msb_at_unat [OF ha] msb_at_unat [OF hb] ba by linarith
  qed
  have h63: "ha \<le> 63" using msb_at_lt [OF ha] by simp
  have hb0: "hb \<noteq> 0"
  proof
    assume "hb = 0"
    then have "unat b = 1" using msb_at_unat [OF hb] by simp
    then show False using b(2) by (simp add: word_unat_eq_iff)
  qed
  define j where "j = ha - hb + 1"
  have j63: "j \<le> 63" using hb0 hh h63 by (simp add: j_def)
  have ub: "unat bits = j" and ub': "unat (64 - bits) = 64 - j"
    using div_bits [OF ha hb hh] h63 hh by (auto simp: bits j_def)
  have st: "div_state (unat a) (unat b) j (unat a mod 2 ^ j) 0 (drop_bit j a) (push_bit (64 - j) a) 0"
    by (rule div_start [OF ha hb hh j_def j63])
  have "unat b < 2 ^ 63 \<or> j \<le> 1 \<and> (j = 1 \<longrightarrow> 2 ^ 63 \<le> 2 * unat (drop_bit j a) + (unat a mod 2 ^ j) div 2 ^ (j - 1) \<and> unat (drop_bit j a) < 2 ^ 63)"
  proof (cases "hb = 63")
    case True
    then have j1: "j = 1" using h63 hh by (simp add: j_def)
    have "2 ^ 63 \<le> unat a" using msb_at_unat [OF hb] True ba by simp
    moreover have "unat (drop_bit 1 a) = unat a div 2" by (simp add: unat_drop_bit_eq drop_bit_eq_div [where 'a = nat])
    moreover have "unat a < 2 ^ 64" using unsigned_less [of a] by simp
    ultimately show ?thesis unfolding j1 by (simp; linarith)
  next
    case False
    then have "(2::nat) ^ Suc hb \<le> 2 ^ 63" using hh h63 by (intro power_increasing) auto
    then show ?thesis using msb_at_unat [OF hb] by simp
  qed
  from divmod_loop_inv [OF st j63 _ this ub]
  obtain Q where Q: "div_state (unat a) (unat b) 0 0 Q rem a' wrap"
    using d by (auto simp: ub ub')
  then have e: "unat a = Q * unat b + unat rem" "unat rem < unat b" "unat a' = Q div 2"
    and w: "wrap AND 1 = of_bool (odd Q)" by (auto simp: div_state_def)
  have q: "Q = unat a div unat b" "unat rem = unat a mod unat b" using e by simp_all
  then have "Q \<le> unat a" by simp
  moreover have "unat a < 2 ^ 64" using unsigned_less [of a] by simp
  ultimately have "Q < 2 ^ 64" by simp
  then have "unat (push_bit 1 a' OR (wrap AND 1)) = Q" unfolding w unat_shift_in e(3) by simp
  then show "push_bit 1 a' OR (wrap AND 1) = a div b" using q by (simp add: word_unat_eq_iff unat_div)
  show "rem = a mod b" using q by (simp add: word_unat_eq_iff unat_mod)
qed

lemma divmoddi4_eq: "divmoddi4 a b = (if b = 0 then None else Some (a div b, a mod b))"
proof -
  consider "b > a" | "b = 0" | "\<not> b > a" "b = 1" | "\<not> b > a" "b \<noteq> 0" "b \<noteq> 1" "unat a < 2 ^ 32" "unat b < 2 ^ 32"
    | "\<not> b > a" "b \<noteq> 0" "b \<noteq> 1" "\<not> (unat a < 2 ^ 32 \<and> unat b < 2 ^ 32)"
    by (cases "b > a"; cases "b = 0"; cases "b = 1"; cases "unat a < 2 ^ 32 \<and> unat b < 2 ^ 32") auto
  then show ?thesis
  proof cases
    case 1
    then have "unat a < unat b" by (simp add: word_less_nat_alt)
    then have "a div b = 0" "a mod b = a" by (simp_all add: word_unat_eq_iff unat_div unat_mod)
    moreover have "b \<noteq> 0" using 1 by auto
    ultimately show ?thesis using 1 by (simp add: divmoddi4_def)
  next
    case 2
    then show ?thesis by (simp add: divmoddi4_def hi_zero)
  next
    case 3
    then show ?thesis by (auto simp: divmoddi4_def hi_zero)
  next
    case 4
    then have "ucast (arith64_lo a div arith64_lo b) = a div b" "ucast (arith64_lo a mod arith64_lo b) = a mod b"
      by (simp_all add: word_unat_eq_iff unat_ucast_up unat_div unat_mod lo_small)
    then show ?thesis using 4 by (auto simp: divmoddi4_def hi_zero)
  next
    case 5
    obtain rem a' wrap where d: "divmod_loop (ucast (clzdi2 b - clzdi2 a + 1)) b
        (drop_bit (unat (ucast (clzdi2 b - clzdi2 a + 1) :: u8)) a)
        (push_bit (unat (64 - ucast (clzdi2 b - clzdi2 a + 1) :: u8)) a) 0 = (rem, a', wrap)"
      using prod_cases3 by blast
    have "\<not> (arith64_hi b = 0 \<and> arith64_hi a = 0)" using 5(4) by (auto simp: hi_zero)
    then have "divmoddi4 a b = Some (push_bit 1 a' OR (wrap AND 1), rem)"
      using 5(1-3) by (auto simp: divmoddi4_def Let_def d)
    then show ?thesis
      using 5(1,2) divmoddi4_long [OF _ 5(2,3) d refl] by (simp only: not_less if_False)
  qed
qed


section \<open>Signed division\<close>

lemma sless_0: "x <s 0 \<longleftrightarrow> sint x < 0" for x :: s64
  by (simp add: word_sless_alt)

lemma arith64_neg_eq: "arith64_neg a b = (if b <s 0 then - a else a)"
proof (cases "b <s 0")
  case True
  then have "\<not> 0 \<le>s b" by (simp add: word_sless_alt word_sle_eq)
  then have "arith64_neg a b = NOT a + 1" using True by (simp add: arith64_neg_def)
  also have "\<dots> = - a" by (rule minus_eq_not_plus_1 [symmetric])
  finally show ?thesis using True by simp
next
  case False
  then have "0 \<le>s b" by (simp add: word_sless_alt word_sle_eq)
  then show ?thesis using False by (simp add: arith64_neg_def)
qed

lemma xor_sign: "(a XOR b) <s 0 \<longleftrightarrow> (a <s 0) \<noteq> (b <s 0)" for a b :: s64
  unfolding sless_0 bit_last_iff [symmetric] by (simp add: bit_xor_iff)

lemma int_abs64: "int (unat (arith64_neg a a)) = \<bar>sint a\<bar>"
proof (cases "a <s 0")
  case True
  then have n: "sint a < 0" by (simp add: sless_0)
  have "- sint a \<le> 2 ^ 63" using sint_ge [of a] by simp
  then have "take_bit 64 (- sint a) = - sint a" using n by (simp add: take_bit_int_eq_self)
  then have "uint (word_of_int (- sint a) :: u64) = - sint a" by (simp only: uint_word_of_int_eq) simp
  then have "uint (- a) = - sint a" by simp
  then show ?thesis using True n by (simp add: arith64_neg_eq)
next
  case False
  then have "0 \<le> sint a" by (simp add: sless_0)
  moreover have "sint a < 2 ^ 63" using sint_lt [of a] by simp
  ultimately have "uint a = sint a"
    using uint_word_of_int_eq [of "sint a", where 'a = 64] by (simp add: take_bit_int_eq_self)
  then show ?thesis using False by (simp add: arith64_neg_eq sless_0)
qed

lemma abs64_0: "arith64_neg b b = 0 \<longleftrightarrow> b = 0"
  by (simp add: arith64_neg_eq)

lemma sdiv_sign: "k sdiv l = (if (k < 0) \<noteq> (l < 0) then - (\<bar>k\<bar> div \<bar>l\<bar>) else \<bar>k\<bar> div \<bar>l\<bar>)" for k l :: int
  unfolding signed_divide_int_def by (cases "k = 0"; cases "l = 0") (auto simp: sgn_if)

lemma smod_sign: "k smod l = (if k < 0 then - (\<bar>k\<bar> mod \<bar>l\<bar>) else \<bar>k\<bar> mod \<bar>l\<bar>)" for k l :: int
  unfolding signed_modulo_int_def by (cases "k = 0") (auto simp: sgn_if)

lemma abs64_div: "arith64_neg a a div arith64_neg b b = word_of_int (\<bar>sint a\<bar> div \<bar>sint b\<bar>)"
  unfolding int_abs64 [symmetric] zdiv_int [symmetric] of_int_of_nat_eq by (rule word_arith_nat_div)

lemma abs64_mod: "arith64_neg a a mod arith64_neg b b = word_of_int (\<bar>sint a\<bar> mod \<bar>sint b\<bar>)"
  unfolding int_abs64 [symmetric] zmod_int [symmetric] of_int_of_nat_eq by (rule word_arith_nat_mod)

lemma divdi3_eq: "divdi3 a b = (if b = 0 then None else Some (word_of_int (sint a sdiv sint b)))"
proof -
  have "arith64_neg (arith64_neg a a div arith64_neg b b) (a XOR b) = word_of_int (sint a sdiv sint b)"
    unfolding abs64_div arith64_neg_eq [of "word_of_int (\<bar>sint a\<bar> div \<bar>sint b\<bar>)"] xor_sign
    unfolding sless_0 sdiv_sign by (simp only: of_int_minus split: if_split) simp
  then show ?thesis by (simp add: divdi3_def divmoddi4_eq abs64_0)
qed

lemma moddi3_eq: "moddi3 a b = (if b = 0 then None else Some (word_of_int (sint a smod sint b)))"
proof -
  have "arith64_neg (arith64_neg a a mod arith64_neg b b) a = word_of_int (sint a smod sint b)"
    unfolding abs64_mod arith64_neg_eq [of "word_of_int (\<bar>sint a\<bar> mod \<bar>sint b\<bar>)"] sless_0 smod_sign
    by (simp only: of_int_minus split: if_split) simp
  then show ?thesis by (simp add: moddi3_def divmoddi4_eq abs64_0)
qed

lemma lsb_at_dvd:
  assumes "lsb_at (a :: u64) h"
  shows "2 ^ h dvd unat a \<and> \<not> 2 ^ Suc h dvd unat a"
proof
  have "take_bit h a = 0" using assms by (auto simp: lsb_at_def bit_eq_iff bit_take_bit_iff)
  then have "take_bit h (unat a) = 0" by (metis unsigned_0 unsigned_take_bit_eq)
  then show "2 ^ h dvd unat a" by (simp add: take_bit_eq_mod dvd_eq_mod_eq_0)
  have "bit (unat a) h" using assms lsb_at_lt [OF assms] by (simp add: lsb_at_def bit_unsigned_iff)
  then have "bit (take_bit (Suc h) (unat a)) h" by (simp add: bit_take_bit_iff)
  then have "take_bit (Suc h) (unat a) \<noteq> 0" by (metis bit_0_eq bot_apply bot_bool_def)
  then show "\<not> 2 ^ Suc h dvd unat a" by (simp add: take_bit_eq_mod dvd_eq_mod_eq_0)
qed

section \<open>Properties\<close>

text \<open>C6: The long division agrees with the division of words: \<open>__udivdi3\<close> and \<open>__umoddi3\<close> return the
  quotient and the remainder for every dividend and every divisor but zero, which raises the
  exception.\<close>

theorem unsigned_division_correct:
  "udivdi3 a b = (if b = 0 then None else Some (a div b)) \<and>
   umoddi3 a b = (if b = 0 then None else Some (a mod b)) \<and>
   divmoddi4 a b = (if b = 0 then None else Some (a div b, a mod b))"
  by (simp add: udivdi3_def umoddi3_def divmoddi4_eq)

text \<open>C7: Signed division truncates towards zero and the remainder takes the sign of the dividend, as C
  demands; the one quotient that does not fit wraps.\<close>

theorem signed_division_correct:
  "divdi3 a b = (if b = 0 then None else Some (word_of_int (sint a sdiv sint b))) \<and>
   moddi3 a b = (if b = 0 then None else Some (word_of_int (sint a smod sint b))) \<and>
   absvdi2 a = (if a <s 0 then - a else a)"
  by (simp add: divdi3_eq moddi3_eq absvdi2_def arith64_neg_eq)

text \<open>The shift routines, which work on the 32-bit halves, are the shifts of 64-bit words by the low
  six bits of the count.\<close>

theorem shifts_correct:
  "ashldi3 a n = push_bit (unat (n AND 63)) a \<and> lshrdi3 a n = drop_bit (unat (n AND 63)) a \<and>
   ashrdi3 a n = signed_drop_bit (unat (n AND 63)) a"
  by (simp only: ashldi3_eq lshrdi3_eq ashrdi3_eq simp_thms)

text \<open>The binary searches for the highest and the lowest set bit count the leading and the trailing
  zeros of every value but zero.\<close>

theorem count_zeros_correct:
  assumes "a \<noteq> 0" "b \<noteq> 0"
  shows "2 ^ (63 - unat (clzdi2 a)) \<le> unat a \<and> unat a < 2 ^ (64 - unat (clzdi2 a)) \<and>
    2 ^ (31 - unat (clzsi2 b)) \<le> unat b \<and> unat b < 2 ^ (32 - unat (clzsi2 b)) \<and>
    2 ^ unat (ctzdi2 a) dvd unat a \<and> \<not> 2 ^ (unat (ctzdi2 a) + 1) dvd unat a \<and>
    ffsdi2 a = ctzdi2 a + 1 \<and> ffsdi2 0 = 0 \<and> lsb_at b (unat (ctzsi2 b))"
proof -
  obtain h where h: "msb_at a h" using msb_at_ex [OF assms(1)] by blast
  obtain k where k: "msb_at b k" using msb_at_ex [OF assms(2)] by blast
  obtain l where l: "lsb_at a l" using lsb_at_ex [OF assms(1)] by blast
  obtain n where n: "lsb_at b n" using lsb_at_ex [OF assms(2)] by blast
  have c: "63 - unat (clzdi2 a) = h" "64 - unat (clzdi2 a) = Suc h" using clzdi2_msb [OF h] by simp_all
  have d: "31 - unat (clzsi2 b) = k" "32 - unat (clzsi2 b) = Suc k" using clzsi2_msb [OF k] by simp_all
  show ?thesis
    unfolding c d ctzdi2_lsb [OF l] ctzsi2_lsb [OF n]
    using msb_at_unat [OF h] msb_at_unat [OF k] lsb_at_dvd [OF l] n assms(1) by (simp add: ffsdi2_def)
qed

theorem count_zeros_correct_witness:
  "2 ^ (63 - unat (clzdi2 24)) \<le> unat (24 :: u64) \<and> unat (24 :: u64) < 2 ^ (64 - unat (clzdi2 24)) \<and>
    2 ^ (31 - unat (clzsi2 5)) \<le> unat (5 :: u32) \<and> unat (5 :: u32) < 2 ^ (32 - unat (clzsi2 5)) \<and>
    2 ^ unat (ctzdi2 24) dvd unat (24 :: u64) \<and> \<not> 2 ^ (unat (ctzdi2 24) + 1) dvd unat (24 :: u64) \<and>
    ffsdi2 24 = ctzdi2 24 + 1 \<and> ffsdi2 0 = 0 \<and> lsb_at (5 :: u32) (unat (ctzsi2 5))"
  by (rule count_zeros_correct) simp_all

end
