(* ===== verification/Paging.thy ===== *)
theory Paging
  imports PhysMem
begin

text \<open>
  The x86_64 page tables, \<open>src/arch/x86_64/mm.c\<close> with \<open>include/arch/x86_64/paging.h\<close>.  A table is 512 words of the
  memory \<open>pm_mem\<close> of \<open>PhysMem\<close>, at the virtual address the direct mapping gives its page; an entry
  pointer (\<open>pte_t *\<close>) is its address.  \<open>pgdir_walk\<close> is one definition per level, each the branches of the C text
  from that level on.  The address of the kernel's top table and the answer of
  \<open>check_cpu_feature(FEAT_X86_Page1GB)\<close> are arguments.  \<open>None\<close> is a fault of the page allocator.
\<close>

section \<open>Constants of arch/x86_64/paging.h\<close>

definition PG_ATTR_MASK :: "'a::len word" where "PG_ATTR_MASK = 0xFFF"
definition PTADDR :: "addr_t \<Rightarrow> addr_t" where "PTADDR pde = pde AND NOT 0xFFF"
definition NPDENTRIES :: nat where "NPDENTRIES = 512"
definition NPTENTRIES :: addr_t where "NPTENTRIES = 512"
definition PTSIZE :: addr_t where "PTSIZE = PGSIZE * NPTENTRIES"
definition PTXSHIFT :: nat where "PTXSHIFT = 12"
definition PDXSHIFT :: nat where "PDXSHIFT = 21"
definition PUXSHIFT :: nat where "PUXSHIFT = 30"
definition PGXSHIFT :: nat where "PGXSHIFT = 39"

definition pd_index :: "nat \<Rightarrow> addr_t \<Rightarrow> addr_t" where "pd_index shift la = drop_bit shift la AND 0x1FF"

definition PTE_P :: "'a::len word" where "PTE_P = 0x001"
definition PTE_W :: "'a::len word" where "PTE_W = 0x002"
definition PTE_PS :: "'a::len word" where "PTE_PS = 0x080"
definition PTE_G :: "'a::len word" where "PTE_G = 0x100"

definition PG_ALLOC :: cint where "PG_ALLOC = 4"
definition PG_2M :: cint where "PG_2M = 1"
definition PG_1G :: cint where "PG_1G = 2"
definition PG_CLEAR :: "'a::len word" where "PG_CLEAR = 0x1000"

section \<open>The walk\<close>

definition entry_at :: "addr_t \<Rightarrow> addr_t \<Rightarrow> addr_t" where "entry_at table i = table + 8 * i"

definition get_entry :: "pmm \<Rightarrow> addr_t \<Rightarrow> addr_t" where "get_entry s p = load_u64 (pm_mem s) p"
definition set_entry :: "addr_t \<Rightarrow> addr_t \<Rightarrow> pmm \<Rightarrow> pmm" where
  "set_entry p v s = s\<lparr>pm_mem := store_u64 (pm_mem s) p v\<rparr>"

text \<open>The loop of \<open>expand_page\<close> that writes the entries of the new table.\<close>

fun fill_table :: "nat \<Rightarrow> addr_t \<Rightarrow> addr_t \<Rightarrow> addr_t \<Rightarrow> addr_t \<Rightarrow> pmm \<Rightarrow> pmm" where
  "fill_table 0 table phy pg_size attr s = s"
| "fill_table (Suc n) table phy pg_size attr s =
     set_entry (entry_at table (of_nat n)) (phy + pg_size * of_nat n OR attr) (fill_table n table phy pg_size attr s)"

definition expand_page :: "addr_t \<Rightarrow> bool \<Rightarrow> pmm \<Rightarrow> pmm option" where
  "expand_page pde table_level s =
     (let phy = PTADDR (get_entry s pde);
          attr = PGOFF (PGOFF (get_entry s pde) AND NOT PTE_PS);
          pg_size = (if table_level then PTSIZE else PGSIZE) in do {
        (s1, new_pg) \<leftarrow> mm_phy_page_zalloc s 1;
        let s2 = set_entry pde (new_pg OR (PTE_W OR PTE_P)) s1;
        Some (fill_table NPDENTRIES (kaddr new_pg) phy pg_size ((if table_level then PTE_PS else 0) OR attr) s2) })"

definition new_table :: "addr_t \<Rightarrow> pmm \<Rightarrow> pmm option" where
  "new_table pde s =
     do { (s1, phy) \<leftarrow> mm_phy_page_zalloc s 1; Some (set_entry pde (phy OR (PTE_P OR PTE_W)) s1) }"

definition big_page_addr :: "nat \<Rightarrow> addr_t \<Rightarrow> addr_t \<Rightarrow> addr_t" where
  "big_page_addr shift entry vaddr = (entry AND NOT (bit_mask shift)) OR (vaddr AND bit_mask shift)"

text \<open>
  The state after the walk, the address of the entry it ends at (\<open>0\<close>: the null pointer) and, where it
  stores one, the physical address.
\<close>

type_synonym walk_result = "(pmm \<times> addr_t \<times> addr_t option) option"

text \<open>The last table: the part of \<open>pgdir_walk\<close> after the page directory entry.\<close>

definition walk_pt :: "addr_t \<Rightarrow> addr_t \<Rightarrow> pmm \<Rightarrow> walk_result" where
  "walk_pt pd_entry vaddr s =
     (let pte = entry_at (kaddr (PTADDR (get_entry s pd_entry))) (pd_index PTXSHIFT vaddr)
      in Some (s, pte, Some (big_page_addr PTXSHIFT (get_entry s pte) vaddr)))"

definition walk_pd :: "addr_t \<Rightarrow> addr_t \<Rightarrow> cint \<Rightarrow> pmm \<Rightarrow> walk_result" where
  "walk_pd pud_entry vaddr flag s =
     (let pde = entry_at (kaddr (PTADDR (get_entry s pud_entry))) (pd_index PDXSHIFT vaddr);
          e = get_entry s pde; alloc = (flag AND PG_ALLOC \<noteq> 0)
      in if e AND PTE_P = 0 then
           if \<not> alloc then Some (s, 0, None)
           else if flag AND PG_2M \<noteq> 0 then Some (s, pde, None)
           else do { s1 \<leftarrow> new_table pde s; walk_pt pde vaddr s1 }
         else if e AND PTE_PS \<noteq> 0 then
           if \<not> alloc then Some (s, pde, Some (big_page_addr PDXSHIFT e vaddr))
           else do { s1 \<leftarrow> expand_page pde False s; walk_pt pde vaddr s1 }
         else if flag AND PG_2M \<noteq> 0 \<and> alloc then
           map_option (\<lambda>s1. (s1, pde, None)) (mm_phy_page_free s (PTADDR e) 1)
         else walk_pt pde vaddr s)"

definition walk_pud :: "addr_t \<Rightarrow> addr_t \<Rightarrow> cint \<Rightarrow> pmm \<Rightarrow> walk_result" where
  "walk_pud pgd_entry vaddr flag s =
     (let pde = entry_at (kaddr (PTADDR (get_entry s pgd_entry))) (pd_index PUXSHIFT vaddr);
          e = get_entry s pde; alloc = (flag AND PG_ALLOC \<noteq> 0)
      in if e AND PTE_P = 0 then
           if \<not> alloc then Some (s, 0, None)
           else if flag AND PG_1G \<noteq> 0 then Some (s, pde, None)
           else do { s1 \<leftarrow> new_table pde s; walk_pd pde vaddr flag s1 }
         else if e AND PTE_PS \<noteq> 0 then
           if \<not> alloc then Some (s, pde, Some (big_page_addr PUXSHIFT e vaddr))
           else do { s1 \<leftarrow> expand_page pde True s; walk_pd pde vaddr flag s1 }
         else if flag AND PG_1G \<noteq> 0 \<and> alloc then
           map_option (\<lambda>s1. (s1, pde, None)) (mm_phy_page_free s (PTADDR e) 1)
         else walk_pd pde vaddr flag s)"

definition pgdir_walk :: "addr_t \<Rightarrow> addr_t \<Rightarrow> cint \<Rightarrow> pmm \<Rightarrow> walk_result" where
  "pgdir_walk pgdir vaddr flag s =
     (let pgd = entry_at pgdir (pd_index PGXSHIFT vaddr)
      in if get_entry s pgd AND PTE_P = 0 then
           if flag AND PG_ALLOC = 0 then Some (s, 0, None)
           else do { s1 \<leftarrow> new_table pgd s; walk_pud pgd vaddr flag s1 }
         else walk_pud pgd vaddr flag s)"

definition check_pgtable :: "addr_t \<Rightarrow> addr_t \<Rightarrow> pmm \<Rightarrow> addr_t option" where
  "check_pgtable kernel_pgd vaddr s =
     map_option (\<lambda>(s1, pte, pa). case pa of Some a \<Rightarrow> a | None \<Rightarrow> 0) (pgdir_walk kernel_pgd vaddr 0 s)"

section \<open>Mapping regions\<close>

function map_pages :: "addr_t \<Rightarrow> addr_t \<Rightarrow> addr_t \<Rightarrow> addr_t \<Rightarrow> addr_t \<Rightarrow> addr_t \<Rightarrow> cint \<Rightarrow> nat \<Rightarrow> pmm \<Rightarrow> pmm option" where
  "map_pages pgdir addr vaddr_end pa pg_size attr flag 0 s = (if addr < vaddr_end then None else Some s)"
| "map_pages pgdir addr vaddr_end pa pg_size attr flag (Suc fuel) s =
     (if addr < vaddr_end then do {
        (s1, pte, _) \<leftarrow> pgdir_walk pgdir addr flag s;
        map_pages pgdir (addr + pg_size) vaddr_end (pa + pg_size) pg_size attr flag fuel (set_entry pte (pa OR attr) s1) }
      else Some s)"
  by pat_completeness auto
termination by (relation "measure (\<lambda>(_, _, _, _, _, _, _, fuel, _). fuel)") auto

definition level_size :: "nat \<Rightarrow> addr_t" where
  "level_size table_level = (if table_level = 1 then PTSIZE else if table_level = 2 then PTSIZE * of_nat NPDENTRIES else PGSIZE)"

definition map_region :: "addr_t \<Rightarrow> addr_t \<Rightarrow> addr_t \<Rightarrow> size_t \<Rightarrow> addr_t \<Rightarrow> nat \<Rightarrow> pmm \<Rightarrow> pmm option" where
  "map_region pgdir vaddr pa sz attr table_level s =
     (if sz = 0 then Some s
      else let pg_size = level_size table_level;
               vaddr_end = align (vaddr + sz) pg_size;
               va = align_down vaddr pg_size
           in map_pages pgdir va vaddr_end (pa - (vaddr - va)) pg_size (attr OR (if table_level \<noteq> 0 then PTE_PS else 0))
                (PG_ALLOC OR of_nat table_level) (unat ((vaddr_end - va) div pg_size)) s)"

text \<open>How \<open>arch_map_region\<close> cuts a region: start, size and level of each call of \<open>__map_region\<close>.\<close>

definition region_pieces :: "bool \<Rightarrow> addr_t \<Rightarrow> size_t \<Rightarrow> (addr_t \<times> size_t \<times> nat) list" where
  "region_pieces page_1gb vaddr0 sz =
     (let va_s1 = align vaddr0 PTSIZE;
          va_e1 = align_down (vaddr0 + sz) PTSIZE;
          va_s2 = align vaddr0 (PTSIZE * NPTENTRIES);
          va_e2 = align_down (vaddr0 + sz) (PTSIZE * NPTENTRIES);
          va_end = align (vaddr0 + sz) PGSIZE;
          vaddr = align_down vaddr0 PGSIZE
      in if va_e1 > va_s1 then
           [(vaddr, va_s1 - vaddr, 0)] @
           (if va_e2 > va_s2 \<and> page_1gb
            then [(va_s1, va_s2 - va_s1, 1), (va_s2, va_e2 - va_s2, 2), (va_e2, va_e1 - va_e2, 1)]
            else [(va_s1, va_e1 - va_s1, 1)]) @
           [(va_e1, va_end - va_e1, 0)]
         else [(vaddr, va_end - vaddr, 0)])"

fun map_pieces :: "addr_t \<Rightarrow> addr_t \<Rightarrow> addr_t \<Rightarrow> (addr_t \<times> size_t \<times> nat) list \<Rightarrow> pmm \<Rightarrow> pmm option" where
  "map_pieces pgdir delta perm [] s = Some s"
| "map_pieces pgdir delta perm ((va, sz, lvl) # ps) s =
     do { s1 \<leftarrow> map_region pgdir va (va - delta) sz perm lvl s; map_pieces pgdir delta perm ps s1 }"

definition arch_map_region :: "bool \<Rightarrow> addr_t \<Rightarrow> addr_t \<Rightarrow> addr_t \<Rightarrow> addr_t \<Rightarrow> size_t \<Rightarrow> cint \<Rightarrow> pmm \<Rightarrow> pmm option" where
  "arch_map_region page_1gb kernel_pgd pgdir vaddr pa sz perm_flag s =
     (let dir = (if pgdir = 0 then kernel_pgd else pgdir);
          flag = perm_flag AND NOT PG_ATTR_MASK;
          perm0 = perm_flag AND PG_ATTR_MASK;
          perm = (if flag AND PG_CLEAR = 0 then perm0 OR PTE_P else perm0)
      in map_pieces dir (vaddr - pa) (scast perm) (region_pieces page_1gb vaddr sz) s)"

definition PHY_BOOT_BASE :: addr_t where "PHY_BOOT_BASE = 0x40000000"

definition arch_map_kernel_page :: "bool \<Rightarrow> addr_t \<Rightarrow> addr_t \<Rightarrow> pmm \<Rightarrow> pmm option" where
  "arch_map_kernel_page page_1gb kernel_pgd max_phy_addr s =
     (if max_phy_addr \<le> PHY_BOOT_BASE then Some s
      else arch_map_region page_1gb kernel_pgd 0 (kaddr PHY_BOOT_BASE) PHY_BOOT_BASE (max_phy_addr - PHY_BOOT_BASE) (PTE_W OR PTE_G) s)"

definition arch_kmap :: "bool \<Rightarrow> addr_t \<Rightarrow> addr_t \<Rightarrow> size_t \<Rightarrow> pmm \<Rightarrow> (pmm \<times> addr_t) option" where
  "arch_kmap page_1gb kernel_pgd phy0 sz s =
     (let pgoff = PGOFF phy0; phy = PTADDR phy0; va = kaddr phy in do {
        a \<leftarrow> check_pgtable kernel_pgd va s;
        s1 \<leftarrow> (if a \<noteq> phy then arch_map_region page_1gb kernel_pgd 0 va phy sz (PTE_W OR PTE_G) s else Some s);
        Some (s1, va + pgoff) })"

definition arch_kunmap :: "addr_t \<Rightarrow> pmm \<Rightarrow> pmm" where "arch_kunmap va s = s"

definition arch_clear_low_page :: "addr_t \<Rightarrow> pmm \<Rightarrow> pmm" where
  "arch_clear_low_page kernel_pgd s = set_entry (entry_at kernel_pgd 0) 0 s"

section \<open>Start-up of the memory manager\<close>

text \<open>\<open>mem_init\<close> of \<open>kernel/mm/memory.c\<close>.\<close>

definition mem_init :: "bool \<Rightarrow> addr_t \<Rightarrow> pmm \<Rightarrow> pmm option" where
  "mem_init page_1gb kernel_pgd s =
     do { s1 \<leftarrow> mem_map_init s; arch_map_kernel_page page_1gb kernel_pgd (phy_addr_limit s1) (s1\<lparr>mm_ready := True\<rparr>) }"

section \<open>The pieces of a region\<close>

text \<open>The pieces lie end to end from \<open>a\<close> to \<open>b\<close>, each in whole pages of its level.\<close>

fun tiles :: "nat \<Rightarrow> (addr_t \<times> size_t \<times> nat) list \<Rightarrow> nat \<Rightarrow> bool" where
  "tiles a [] b \<longleftrightarrow> a = b"
| "tiles a ((va, sz, lvl) # ps) b \<longleftrightarrow> unat va = a \<and> unat (level_size lvl) dvd a \<and> unat (level_size lvl) dvd unat sz \<and>
     tiles (a + unat sz) ps b"

lemma level_sizes: "level_size 0 = 2 ^ 12" "level_size 1 = 2 ^ 21" "level_size 2 = 2 ^ 30" "PTSIZE = 2 ^ 21" "PTSIZE * NPTENTRIES = 2 ^ 30" "PGSIZE = 2 ^ 12"
  by (simp_all add: level_size_def PGSIZE_def PTSIZE_def NPTENTRIES_def NPDENTRIES_def)

lemma unat_level: "unat (level_size 0) = 2 ^ 12" "unat (level_size (Suc 0)) = 2 ^ 21" "unat (level_size 2) = 2 ^ 30"
  by (simp_all only: level_sizes One_nat_def [symmetric]) simp_all

lemma round_le: "(a::nat) div m * m \<le> a" "0 < m \<Longrightarrow> a \<le> (a + (m - 1)) div m * m"
proof -
  show "a div m * m \<le> a" by simp
  assume "0 < m"
  then have "(a + (m - 1)) mod m \<le> m - 1" using mod_less_divisor [of m "a + (m - 1)"] by linarith
  then show "a \<le> (a + (m - 1)) div m * m" using div_mult_mod_eq [of "a + (m - 1)" m] by linarith
qed

lemma round_up_le: "(a::nat) \<le> (a + (2 ^ k - 1)) div 2 ^ k * 2 ^ k"
  by (rule round_le(2)) simp

lemma round_coarser: "m dvd n \<Longrightarrow> 0 < n \<Longrightarrow> (a + (m - 1)) div m * m \<le> (a + (n - 1)) div n * n" for a m n :: nat
proof -
  assume mn: "m dvd n" "0 < n"
  then have m: "0 < m" using dvd_pos_nat by blast
  let ?b = "(a + (n - 1)) div n * n"
  have "a \<le> ?b" by (rule round_le(2) [OF mn(2)])
  moreover have "m dvd ?b" using mn(1) by (rule dvd_mult)
  then obtain k where k: "?b = k * m" by (metis dvd_div_mult_self)
  ultimately have "a \<le> k * m" by simp
  then have "a + (m - 1) < (k + 1) * m" using m by simp
  then have "(a + (m - 1)) div m < k + 1" by (rule less_mult_imp_div_less)
  then have "(a + (m - 1)) div m \<le> k" by linarith
  then show ?thesis unfolding k by (rule mult_le_mono1)
qed

lemma round_down_finer: "m dvd n \<Longrightarrow> 0 < n \<Longrightarrow> (a::nat) div n * n \<le> a div m * m"
proof -
  assume mn: "m dvd n" "0 < n"
  then have m: "0 < m" using dvd_pos_nat by blast
  obtain k where k: "a div n * n = k * m" using mn(1) by (metis dvd_div_mult_self dvd_mult)
  have "k * m \<le> a" using k round_le(1) [of a n] by simp
  then have "k \<le> a div m" using m by (simp add: less_eq_div_iff_mult_less_eq)
  then show ?thesis unfolding k by simp
qed

lemma region_tiles:
  assumes "unat vaddr + unat sz + 2 ^ 30 \<le> 2 ^ 64"
  shows "tiles (unat vaddr div 2 ^ 12 * 2 ^ 12) (region_pieces page_1gb vaddr sz)
    ((unat vaddr + unat sz + (2 ^ 12 - 1)) div 2 ^ 12 * 2 ^ 12)"
proof -
  define a b where "a = unat vaddr" and "b = unat vaddr + unat sz"
  have ub: "unat (vaddr + sz) = b" using assms by (simp add: b_def unat_add_lem [THEN iffD1])
  have s1: "unat (align vaddr PTSIZE) = (a + (2 ^ 21 - 1)) div 2 ^ 21 * 2 ^ 21"
    unfolding level_sizes a_def by (rule unat_align) (use assms in simp_all)
  have e1: "unat (align_down (vaddr + sz) PTSIZE) = b div 2 ^ 21 * 2 ^ 21" unfolding level_sizes by (simp only: unat_align_down ub)
  have s2: "unat (align vaddr (PTSIZE * NPTENTRIES)) = (a + (2 ^ 30 - 1)) div 2 ^ 30 * 2 ^ 30"
    unfolding level_sizes(5) a_def by (rule unat_align) (use assms in simp_all)
  have e2: "unat (align_down (vaddr + sz) (PTSIZE * NPTENTRIES)) = b div 2 ^ 30 * 2 ^ 30"
    unfolding level_sizes(5) by (simp only: unat_align_down ub)
  have en: "unat (align (vaddr + sz) PGSIZE) = (b + (2 ^ 12 - 1)) div 2 ^ 12 * 2 ^ 12"
    unfolding level_sizes ub [symmetric] by (rule unat_align) (use assms ub in \<open>simp_all add: b_def\<close>)
  have st: "unat (align_down vaddr PGSIZE) = a div 2 ^ 12 * 2 ^ 12" unfolding level_sizes a_def by (rule unat_align_down)
  have d: "(2::nat) ^ 12 dvd 2 ^ 21" "(2::nat) ^ 21 dvd 2 ^ 30" by (simp_all add: le_imp_power_dvd)
  have lt: "unat (align_down vaddr PGSIZE) \<le> unat (align vaddr PTSIZE)"
    unfolding st s1 using round_le(1) [of a "2 ^ 12"] round_up_le [of a 21] by linarith
  have rt: "unat (align_down (vaddr + sz) PTSIZE) \<le> unat (align (vaddr + sz) PGSIZE)"
    unfolding e1 en using round_le(1) [of b "2 ^ 21"] round_up_le [of b 12] by linarith
  have m1: "unat (align vaddr PTSIZE) \<le> unat (align vaddr (PTSIZE * NPTENTRIES))"
    unfolding s1 s2 by (rule round_coarser [OF d(2)]) simp
  have m2: "unat (align_down (vaddr + sz) (PTSIZE * NPTENTRIES)) \<le> unat (align_down (vaddr + sz) PTSIZE)"
    unfolding e1 e2 by (rule round_down_finer [OF d(2)]) simp
  have al: "unat (align_down vaddr PGSIZE) \<le> unat (align (vaddr + sz) PGSIZE)"
    unfolding st en using round_le(1) [of a "2 ^ 12"] round_up_le [of b 12] by (simp only: a_def b_def)
  define S1 E1 S2 E2 EN ST where "S1 = align vaddr PTSIZE" and "E1 = align_down (vaddr + sz) PTSIZE"
    and "S2 = align vaddr (PTSIZE * NPTENTRIES)" and "E2 = align_down (vaddr + sz) (PTSIZE * NPTENTRIES)"
    and "EN = align (vaddr + sz) PGSIZE" and "ST = align_down vaddr PGSIZE"
  note f = S1_def [symmetric] E1_def [symmetric] S2_def [symmetric] E2_def [symmetric] EN_def [symmetric] ST_def [symmetric]
  note le = lt [unfolded f] rt [unfolded f] m1 [unfolded f] m2 [unfolded f] al [unfolded f]
  have dv: "2 ^ 12 dvd unat ST" "2 ^ 21 dvd unat S1" "2 ^ 21 dvd unat E1" "2 ^ 30 dvd unat S2" "2 ^ 30 dvd unat E2" "2 ^ 12 dvd unat EN"
    using st s1 e1 s2 e2 en by (simp_all only: f dvd_triv_right)
  have dv2: "2 ^ 12 dvd unat S1" "2 ^ 12 dvd unat E1" "2 ^ 21 dvd unat S2" "2 ^ 21 dvd unat E2"
    using dvd_trans [OF d(1) dv(2)] dvd_trans [OF d(1) dv(3)] dvd_trans [OF d(2) dv(4)] dvd_trans [OF d(2) dv(5)] .
  have sub: "unat (y - x) = unat y - unat x" "unat x + unat (y - x) = unat y" if "unat x \<le> unat y" for x y :: addr_t
    using that by (simp_all add: unat_sub word_le_nat_alt)
  have goal: "tiles (unat ST) (region_pieces page_1gb vaddr sz) (unat EN)"
  proof (cases "S1 < E1")
    case False
    then have "region_pieces page_1gb vaddr sz = [(ST, EN - ST, 0)]" by (simp add: region_pieces_def f Let_def)
    then show ?thesis using le(5) dv by (simp add: sub unat_level dvd_diff_nat)
  next
    case True
    then have s1e1: "unat S1 \<le> unat E1" by (simp add: word_less_nat_alt)
    show ?thesis
    proof (cases "S2 < E2 \<and> page_1gb")
      case True
      then have "unat S2 \<le> unat E2" by (simp add: word_less_nat_alt)
      then show ?thesis
        using \<open>S1 < E1\<close> True le dv dv2 s1e1 by (simp add: region_pieces_def f Let_def sub unat_level dvd_diff_nat)
    next
      case False
      then have "region_pieces page_1gb vaddr sz = [(ST, S1 - ST, 0), (S1, E1 - S1, 1), (E1, EN - E1, 0)]"
        using \<open>S1 < E1\<close> by (auto simp: region_pieces_def f Let_def)
      then show ?thesis using le dv dv2 s1e1 by (simp add: sub unat_level dvd_diff_nat)
    qed
  qed
  then show ?thesis by (simp only: ST_def EN_def st en a_def b_def add.assoc)
qed

lemma map_pieces_fold:
  "map_pieces pgdir delta perm ps s =
    fold (\<lambda>(va, n, lvl) st. Option.bind st (map_region pgdir va (va - delta) n perm lvl)) ps (Some s)"
proof (induction ps arbitrary: s)
  case (Cons p ps)
  have none: "fold (\<lambda>(va, n, lvl) st. Option.bind st (map_region pgdir va (va - delta) n perm lvl)) ps None = None"
    by (induction ps) auto
  obtain va n lvl where p: "p = (va, n, lvl)" by (cases p)
  show ?case by (cases "map_region pgdir va (va - delta) n perm lvl s") (simp_all add: p Cons.IH none)
qed simp

lemma region_wraps:
  assumes "2 ^ 64 - 2 ^ 30 < unat v" "2 ^ 22 \<le> unat n" "unat v + unat n < 2 ^ 64"
  shows "(0, 0xFFFFFFFFC0000000, 2) \<in> set (region_pieces True v n)"
proof -
  define a b where "a = unat v" and "b = unat v + unat n"
  have ub: "unat (v + n) = b" using assms(3) by (simp add: b_def unat_add_lem [THEN iffD1])
  have ab: "18446744072635809792 < a" "a + 4194304 \<le> b" "b < 18446744073709551616" using assms by (simp_all add: a_def b_def)
  have s1: "unat (align v PTSIZE) = (a + (2 ^ 21 - 1)) div 2 ^ 21 * 2 ^ 21"
    unfolding level_sizes a_def by (rule unat_align) (use assms in simp_all)
  have e1: "unat (align_down (v + n) PTSIZE) = b div 2 ^ 21 * 2 ^ 21" unfolding level_sizes by (simp only: unat_align_down ub)
  have lt1: "align v PTSIZE < align_down (v + n) PTSIZE"
    unfolding word_less_nat_alt s1 e1 using ab by (simp add: div_mult2_eq)
  have "unat (v + size_mask (2 ^ 30)) = a + (2 ^ 30 - 1) - 2 ^ 64"
    using ab by (simp add: size_mask_def unat_word_ariths a_def [symmetric] mod_if)
  then have "unat (align v (PTSIZE * NPTENTRIES)) = 0"
    using unsigned_less [of v, where 'a = nat] unfolding level_sizes(5) align_eq_align_down unat_align_down
    by (simp add: a_def [symmetric])
  then have s2: "align v (PTSIZE * NPTENTRIES) = 0" by (simp add: unat_eq_0)
  have "unat (align_down (v + n) (PTSIZE * NPTENTRIES)) = b div 2 ^ 30 * 2 ^ 30"
    unfolding level_sizes(5) by (simp only: unat_align_down ub)
  moreover have "b div 2 ^ 30 = 17179869183" using ab by simp
  ultimately have e2: "align_down (v + n) (PTSIZE * NPTENTRIES) = 0xFFFFFFFFC0000000"
    by (simp add: word_unat_eq_iff)
  show ?thesis using lt1 by (simp add: region_pieces_def Let_def s2 e2)
qed

text \<open>C21: \<open>arch_map_region\<close> cuts a region that ends at least 1 GB below the top of the address space, whatever its
  alignment and with or without 1 GB pages, into pieces that lie end to end from the start of its first page to the
  end of its last page, each made of whole pages of its size; for every region it maps the pieces one after the
  other, each at the physical address as far behind \<open>pa\<close> as the piece is behind \<open>vaddr\<close>.  In the last gigabyte
  of the address space the rounding wraps to 0: with 1 GB pages, a region of at least 4 MB there makes it map the whole
  address space below as well.\<close>

theorem region_pieces_tile:
  "(unat vaddr + unat sz + 2 ^ 30 \<le> 2 ^ 64 \<longrightarrow>
      tiles (unat vaddr div 2 ^ 12 * 2 ^ 12) (region_pieces page_1gb vaddr sz)
        ((unat vaddr + unat sz + (2 ^ 12 - 1)) div 2 ^ 12 * 2 ^ 12)) \<and>
   arch_map_region page_1gb kernel_pgd pgdir vaddr pa sz perm_flag s =
     fold (\<lambda>(va, n, lvl) st. Option.bind st (map_region (if pgdir = 0 then kernel_pgd else pgdir) va (pa + (va - vaddr)) n
         (scast (if perm_flag AND 0x1000 = 0 then (perm_flag AND 0xFFF) OR 1 else perm_flag AND 0xFFF)) lvl))
       (region_pieces page_1gb vaddr sz) (Some s) \<and>
   (2 ^ 64 - 2 ^ 30 < unat vaddr \<and> 2 ^ 22 \<le> unat sz \<and> unat vaddr + unat sz < 2 ^ 64 \<longrightarrow>
     (0, 0xFFFFFFFFC0000000, 2) \<in> set (region_pieces True vaddr sz))"
proof (intro conjI)
  have f: "(perm_flag AND NOT PG_ATTR_MASK) AND PG_CLEAR = perm_flag AND 0x1000"
    by (simp add: PG_ATTR_MASK_def PG_CLEAR_def and.assoc)
  have d: "va - (vaddr - pa) = pa + (va - vaddr)" for va by simp
  show "arch_map_region page_1gb kernel_pgd pgdir vaddr pa sz perm_flag s =
     fold (\<lambda>(va, n, lvl) st. Option.bind st (map_region (if pgdir = 0 then kernel_pgd else pgdir) va (pa + (va - vaddr)) n
         (scast (if perm_flag AND 0x1000 = 0 then (perm_flag AND 0xFFF) OR 1 else perm_flag AND 0xFFF)) lvl))
       (region_pieces page_1gb vaddr sz) (Some s)"
    by (simp only: arch_map_region_def map_pieces_fold Let_def f d) (simp add: PG_ATTR_MASK_def PTE_P_def)
qed (use region_tiles region_wraps in simp_all)

theorem region_pieces_tile_witness:
  "tiles (unat (0xFFFF800040001234 :: addr_t) div 2 ^ 12 * 2 ^ 12) (region_pieces True 0xFFFF800040001234 0x80000000)
    ((unat (0xFFFF800040001234 :: addr_t) + unat (0x80000000 :: size_t) + (2 ^ 12 - 1)) div 2 ^ 12 * 2 ^ 12) \<and>
   (0, 0xFFFFFFFFC0000000, 2) \<in> set (region_pieces True 0xFFFFFFFFD0000000 0x400000)"
  using region_pieces_tile [of "0xFFFF800040001234" "0x80000000" True] region_pieces_tile [of "0xFFFFFFFFD0000000" "0x400000"]
  by simp

section \<open>Tables in memory\<close>

definition tbl :: "size_t \<Rightarrow> addr_t" where "tbl q = kaddr (push_bit PGSHIFT q)"

definition ent :: "size_t \<Rightarrow> addr_t \<Rightarrow> addr_t" where "ent q i = entry_at (tbl q) i"

lemma index_small: "unat (pd_index sh la) < 512"
proof -
  have "pd_index sh la = take_bit 9 (drop_bit sh la)" by (simp add: pd_index_def take_bit_eq_mask mask_eq_exp_minus_1)
  then show ?thesis using take_bit_nat_less_exp [of 9 "unat (drop_bit sh la)"] by (simp add: unsigned_take_bit_eq)
qed

lemma ent_offset:
  assumes "unat q < 2 ^ 31" "unat i < 512"
  shows "ent q i = KERN_BASE + of_nat (4096 * unat q + 8 * unat i)" "unat (ent q i - tbl q) = 8 * unat i"
proof -
  have p: "push_bit PGSHIFT q = (of_nat (4096 * unat q) :: addr_t)" by (simp add: PGSHIFT_def push_bit_eq_mult algebra_simps)
  have i8: "8 * i = (of_nat (8 * unat i) :: addr_t)" by simp
  show "ent q i = KERN_BASE + of_nat (4096 * unat q + 8 * unat i)"
    unfolding ent_def tbl_def entry_at_def kaddr_def p i8 of_nat_add by (simp add: algebra_simps)
  have "ent q i - tbl q = of_nat (8 * unat i)" unfolding ent_def entry_at_def i8 by simp
  then show "unat (ent q i - tbl q) = 8 * unat i" using assms(2) by (simp only: unat_of_nat) simp
qed

lemma apart8_nat: "A + 8 \<le> B \<Longrightarrow> B \<le> 0x4000000000000000 \<Longrightarrow> apart8 (c + of_nat A) (c + of_nat B) \<and> apart8 (c + of_nat B) (c + of_nat A)"
  using apart8_offsets by blast

lemma ent_apart:
  assumes "unat q < 2 ^ 31" "unat i < 512" "unat q' < 2 ^ 31" "unat i' < 512" "q \<noteq> q' \<or> i \<noteq> i'"
  shows "apart8 (ent q i) (ent q' i')"
proof -
  define A B where "A = 4096 * unat q + 8 * unat i" and "B = 4096 * unat q' + 8 * unat i'"
  have "A \<noteq> B"
  proof
    assume e: "A = B"
    then have "A div 4096 = B div 4096" by simp
    moreover have "A div 4096 = unat q" "B div 4096 = unat q'" using assms(2,4) by (simp_all add: A_def B_def)
    ultimately have "unat q = unat q'" by simp
    then have "unat i = unat i'" using e by (simp add: A_def B_def)
    then show False using \<open>unat q = unat q'\<close> assms(5) by (simp add: word_unat_eq_iff)
  qed
  moreover have "8 dvd A" "8 dvd B" by (simp_all add: A_def B_def)
  then obtain a b where ab: "A = 8 * a" "B = 8 * b" by (elim dvdE)
  ultimately have "a \<noteq> b" by auto
  then have "a + 1 \<le> b \<or> b + 1 \<le> a" by linarith
  then have "A + 8 \<le> B \<or> B + 8 \<le> A" unfolding ab by linarith
  moreover have "A \<le> 0x4000000000000000" "B \<le> 0x4000000000000000" using assms by (simp_all add: A_def B_def)
  ultimately show ?thesis
    using apart8_nat [of A B KERN_BASE] apart8_nat [of B A KERN_BASE]
    unfolding ent_offset(1) [OF assms(1,2)] ent_offset(1) [OF assms(3,4)] A_def [symmetric] B_def [symmetric] by blast
qed

lemma get_set_entry: "get_entry (set_entry p v s) p = v"
  by (simp add: get_entry_def set_entry_def load_store_u64)

lemma get_set_other: "apart8 x p \<Longrightarrow> get_entry (set_entry p v s) x = get_entry s x"
  by (simp add: get_entry_def set_entry_def load_u64_apart)

lemma pmm_rel_set_entry: "pmm_rel (set_entry p v s) A = pmm_rel s A"
  by (simp add: set_entry_def pmm_rel_mem)

lemma link_entry:
  "PTADDR (push_bit PGSHIFT q OR (PTE_P OR PTE_W)) = push_bit PGSHIFT q"
  "(push_bit PGSHIFT q OR (PTE_P OR PTE_W)) AND PTE_P \<noteq> (0 :: addr_t)"
  "(push_bit PGSHIFT q OR (PTE_P OR PTE_W)) AND PTE_PS = (0 :: addr_t)"
proof -
  have c: "PTE_P OR PTE_W = (mask 2 :: addr_t)" "PTE_P = (2 ^ 0 :: addr_t)" "PTE_PS = (2 ^ 7 :: addr_t)" "0xFFF = (mask 12 :: addr_t)"
    by (simp_all add: PTE_P_def PTE_W_def PTE_PS_def mask_eq_exp_minus_1)
  show "PTADDR (push_bit PGSHIFT q OR (PTE_P OR PTE_W)) = push_bit PGSHIFT q"
    unfolding PTADDR_def c(1,4) PGSHIFT_def by (rule bit_word_eqI) (auto simp: bit_simps)
  show "(push_bit PGSHIFT q OR (PTE_P OR PTE_W)) AND PTE_P \<noteq> (0 :: addr_t)"
    unfolding c(1,2) PGSHIFT_def and_exp_eq_0_iff_not_bit by (simp add: bit_simps)
  show "(push_bit PGSHIFT q OR (PTE_P OR PTE_W)) AND PTE_PS = (0 :: addr_t)"
    unfolding c(1,3) PGSHIFT_def and_exp_eq_0_iff_not_bit by (simp add: bit_simps)
qed

text \<open>A page for a table: it leaves the free pages, its words are zero, the words of other pages stay.\<close>

lemma zalloc_table:
  assumes "pmm_rel s A" "A \<noteq> {}"
  obtains s' p where "mm_phy_page_zalloc s 1 = Some (s', push_bit PGSHIFT p)" "p \<in> A" "unat p < 2 ^ 31" "pmm_rel s' (A - {p})"
    "\<And>q i. unat q < 2 ^ 31 \<Longrightarrow> unat i < 512 \<Longrightarrow> q \<noteq> p \<Longrightarrow> get_entry s' (ent q i) = get_entry s (ent q i)"
    "\<And>i. unat i < 512 \<Longrightarrow> get_entry s' (ent p i) = 0"
proof -
  obtain s1 p where a: "mm_phy_page_alloc s 1 = Some (s1, push_bit PGSHIFT p)" "p \<in> A" "pmm_rel s1 (A - {p})"
    using alloc_one_ex [OF assms(1)] assms(2) by (auto split: if_splits)
  have p31: "unat p < 2 ^ 31"
  proof -
    have "p \<in> avail_pages (pm_map s)" using a(2) assms(1) by (simp add: pmm_rel_def)
    moreover have "unat (map_size (pm_map s)) + 8 \<le> 2 ^ 31" using assms(1) page_bits.nbits_small [of "pm_map s"] by (simp add: pmm_rel_def)
    ultimately show ?thesis by (simp add: avail_pages_def)
  qed
  let ?s = "s1\<lparr>pm_mem := memset (pm_mem s1) (tbl p) 0 (1 * PGSIZE)\<rparr>"
  have "get_entry ?s (ent q i) = get_entry s (ent q i)" if q: "unat q < 2 ^ 31" "unat i < 512" "q \<noteq> p" for q i
  proof -
    have tp: "take_bit 12 (tbl q) = 0" "take_bit 12 (tbl p) = 0" using page_addr(1) q(1) p31 by (simp_all add: tbl_def)
    have ne: "tbl q \<noteq> tbl p" using page_addr(3) [OF q(1)] page_addr(3) [OF p31] q(3) unfolding tbl_def by metis
    have b: "unat (ent q i - tbl q) + 8 \<le> 4096" using ent_offset(2) [OF q(1,2)] q(2) by simp
    have "load_u64 (pm_mem ?s) (ent q i) = load_u64 (pm_mem s) (ent q i)"
      by (rule page_load_frame [OF b tp ne]) (simp add: memset_eq PGSIZE_def alloc_mem [OF a(1)])
    then show ?thesis by (simp add: get_entry_def)
  qed
  moreover have "get_entry ?s (ent p i) = 0" if i: "unat i < 512" for i
  proof -
    have "load_u64 (pm_mem ?s) (ent p i) = load_u64 (\<lambda>_. 0) (ent p i)"
    proof (rule load_u64_cong)
      fix j :: nat assume j: "j < 8"
      have "ent p i + of_nat j - tbl p = (ent p i - tbl p) + of_nat j" by simp
      moreover have "unat (of_nat j :: addr_t) = j" using j by (simp add: unat_of_nat)
      ultimately have "unat (ent p i + of_nat j - tbl p) < 4096"
        using ent_offset(2) [OF p31 i] i j by (simp only: unat_add_lem [THEN iffD1]) (simp add: unat_add_lem [THEN iffD1])
      then show "pm_mem ?s (ent p i + of_nat j) = 0" by (simp add: memset_eq PGSIZE_def)
    qed
    moreover have "load_le (\<lambda>_. 0) x n = 0" for x n by (induction n arbitrary: x) simp_all
    ultimately show ?thesis by (simp add: get_entry_def load_u64_def)
  qed
  moreover have "mm_phy_page_zalloc s 1 = Some (?s, push_bit PGSHIFT p)" using a(1) by (simp add: mm_phy_page_zalloc_def tbl_def)
  ultimately show thesis using a(2,3) p31 by (intro that [of ?s p]) (simp_all add: pmm_rel_mem)
qed

text \<open>
  What a level of an allocating walk leaves behind: the entry links to a table outside the pages in use, and
  the words of the tables in use other than the entry are as before.
\<close>

definition linked :: "size_t set \<Rightarrow> addr_t \<Rightarrow> pmm \<Rightarrow> size_t \<Rightarrow> bool" where
  "linked U ptr s q \<longleftrightarrow> unat q < 2 ^ 31 \<and> q \<notin> U \<and> get_entry s ptr AND PTE_P \<noteq> 0 \<and> get_entry s ptr AND PTE_PS = 0 \<and>
     PTADDR (get_entry s ptr) = push_bit PGSHIFT q"

definition keeps :: "size_t set \<Rightarrow> addr_t \<Rightarrow> pmm \<Rightarrow> pmm \<Rightarrow> bool" where
  "keeps U ptr s s' \<longleftrightarrow> (\<forall>q i. q \<in> U \<longrightarrow> unat i < 512 \<longrightarrow> ent q i \<noteq> ptr \<longrightarrow> get_entry s' (ent q i) = get_entry s (ent q i))"

definition in_use :: "size_t set \<Rightarrow> size_t set \<Rightarrow> bool" where
  "in_use U A \<longleftrightarrow> U \<inter> A = {} \<and> (\<forall>q \<in> U. unat q < 2 ^ 31)"

lemma new_table_ok:
  assumes "pmm_rel s A" "A \<noteq> {}" "in_use U A" "q \<in> U" "unat i < 512"
  obtains s' p where "new_table (ent q i) s = Some s'" "p \<in> A" "pmm_rel s' (A - {p})" "linked U (ent q i) s' p" "keeps U (ent q i) s s'"
    "\<And>j. unat j < 512 \<Longrightarrow> get_entry s' (ent p j) = 0"
proof -
  have qs: "unat q' < 2 ^ 31" if "q' \<in> U" for q' using assms(3) that by (auto simp: in_use_def)
  obtain s1 p where z: "mm_phy_page_zalloc s 1 = Some (s1, push_bit PGSHIFT p)" "p \<in> A" "unat p < 2 ^ 31" "pmm_rel s1 (A - {p})"
    "\<And>q i. unat q < 2 ^ 31 \<Longrightarrow> unat i < 512 \<Longrightarrow> q \<noteq> p \<Longrightarrow> get_entry s1 (ent q i) = get_entry s (ent q i)"
    "\<And>i. unat i < 512 \<Longrightarrow> get_entry s1 (ent p i) = 0"
    by (rule zalloc_table [OF assms(1,2)]) (rule that; assumption)
  let ?s = "set_entry (ent q i) (push_bit PGSHIFT p OR (PTE_P OR PTE_W)) s1"
  have pU: "p \<notin> U" using z(2) assms(3) by (auto simp: in_use_def)
  have "keeps U (ent q i) s ?s"
    unfolding keeps_def
  proof (intro allI impI)
    fix q' i' assume a: "q' \<in> U" "unat i' < 512" "ent q' i' \<noteq> ent q i"
    have "apart8 (ent q' i') (ent q i)" by (rule ent_apart) (use a qs assms(4,5) in auto)
    then show "get_entry ?s (ent q' i') = get_entry s (ent q' i')"
      using z(5) [OF qs [OF a(1)] a(2)] a(1) pU by (auto simp: get_set_other)
  qed
  moreover have "linked U (ent q i) ?s p" using z(3) pU by (simp add: linked_def get_set_entry link_entry)
  moreover have "get_entry ?s (ent p j) = 0" if "unat j < 512" for j
  proof -
    have "apart8 (ent p j) (ent q i)" by (rule ent_apart) (use z(3) that qs assms(4,5) pU in auto)
    then show ?thesis using z(6) [OF that] by (simp add: get_set_other)
  qed
  ultimately show thesis using z by (intro that [of ?s p]) (simp_all add: new_table_def pmm_rel_set_entry)
qed

lemma fill_table_rel: "pmm_rel (fill_table n table phy sz attr s) A = pmm_rel s A"
  by (induction n) (simp_all add: pmm_rel_set_entry)

lemma fill_table_frame:
  assumes "unat p < 2 ^ 31" "unat q < 2 ^ 31" "unat i < 512" "q \<noteq> p" "n \<le> 512"
  shows "get_entry (fill_table n (tbl p) phy sz attr s) (ent q i) = get_entry s (ent q i)"
  using assms(5)
proof (induction n)
  case (Suc n)
  have "unat (of_nat n :: addr_t) = n" using Suc.prems by (simp add: unat_of_nat)
  then have "apart8 (ent q i) (ent p (of_nat n))" by (intro ent_apart) (use assms Suc.prems in auto)
  then have "get_entry (fill_table (Suc n) (tbl p) phy sz attr s) (ent q i) = get_entry (fill_table n (tbl p) phy sz attr s) (ent q i)"
    unfolding fill_table.simps ent_def [symmetric] by (rule get_set_other)
  then show ?case using Suc by simp
qed simp

text \<open>Every entry of the new table carries the attribute bits.\<close>

lemma fill_table_entry:
  assumes "unat p < 2 ^ 31" "unat i < n" "n \<le> 512"
  shows "\<exists>a. get_entry (fill_table n (tbl p) phy sz attr s) (ent p i) = a OR attr"
  using assms(2,3)
proof (induction n)
  case (Suc n)
  have un: "unat (of_nat n :: addr_t) = n" using Suc.prems by (simp add: unat_of_nat)
  show ?case
  proof (cases "unat i = n")
    case True
    then have "i = of_nat n" using un by (simp add: word_unat_eq_iff)
    then show ?thesis by (auto simp: ent_def get_set_entry)
  next
    case False
    then have "apart8 (ent p i) (ent p (of_nat n))" by (intro ent_apart) (use assms(1) Suc.prems un in auto)
    then have "get_entry (fill_table (Suc n) (tbl p) phy sz attr s) (ent p i) = get_entry (fill_table n (tbl p) phy sz attr s) (ent p i)"
      unfolding fill_table.simps ent_def [symmetric] by (rule get_set_other)
    then show ?thesis using Suc False by simp
  qed
qed simp

lemma expand_page_ok:
  assumes "pmm_rel s A" "A \<noteq> {}" "in_use U A" "q \<in> U" "unat i < 512"
  obtains s' p where "expand_page (ent q i) lvl s = Some s'" "p \<in> A" "pmm_rel s' (A - {p})" "linked U (ent q i) s' p" "keeps U (ent q i) s s'"
    "\<And>j. unat j < 512 \<Longrightarrow> lvl \<Longrightarrow> get_entry s' (ent p j) AND PTE_PS \<noteq> 0"
proof -
  have qs: "unat q' < 2 ^ 31" if "q' \<in> U" for q' using assms(3) that by (auto simp: in_use_def)
  obtain s1 p where z: "mm_phy_page_zalloc s 1 = Some (s1, push_bit PGSHIFT p)" "p \<in> A" "unat p < 2 ^ 31" "pmm_rel s1 (A - {p})"
    "\<And>q i. unat q < 2 ^ 31 \<Longrightarrow> unat i < 512 \<Longrightarrow> q \<noteq> p \<Longrightarrow> get_entry s1 (ent q i) = get_entry s (ent q i)"
    "\<And>i. unat i < 512 \<Longrightarrow> get_entry s1 (ent p i) = 0"
    by (rule zalloc_table [OF assms(1,2)]) (rule that; assumption)
  define s2 where "s2 = set_entry (ent q i) (push_bit PGSHIFT p OR (PTE_W OR PTE_P)) s1"
  define s3 where "s3 = fill_table 512 (tbl p) (PTADDR (get_entry s (ent q i))) (if lvl then PTSIZE else PGSIZE)
    ((if lvl then PTE_PS else 0) OR PGOFF (PGOFF (get_entry s (ent q i)) AND NOT PTE_PS)) s2"
  have pU: "p \<notin> U" using z(2) assms(3) by (auto simp: in_use_def)
  have g3: "get_entry s3 (ent q' i') = get_entry s2 (ent q' i')" if "q' \<in> U" "unat i' < 512" for q' i'
    unfolding s3_def by (rule fill_table_frame [OF z(3) qs [OF that(1)] that(2)]) (use that pU in auto)
  have w: "PTE_W OR PTE_P = (PTE_P OR PTE_W :: addr_t)" by (simp add: or.commute)
  have "keeps U (ent q i) s s3"
    unfolding keeps_def
  proof (intro allI impI)
    fix q' i' assume a: "q' \<in> U" "unat i' < 512" "ent q' i' \<noteq> ent q i"
    have "apart8 (ent q' i') (ent q i)" by (rule ent_apart) (use a qs assms(4,5) in auto)
    then show "get_entry s3 (ent q' i') = get_entry s (ent q' i')"
      using z(5) [OF qs [OF a(1)] a(2)] a pU g3 [OF a(1,2)] by (auto simp: get_set_other s2_def)
  qed
  moreover have "linked U (ent q i) s3 p"
    using z(3) pU g3 [OF assms(4,5)] by (simp add: linked_def s2_def get_set_entry w link_entry)
  moreover have "pmm_rel s3 (A - {p})"
    using z(4) by (simp add: s3_def s2_def pmm_rel_set_entry fill_table_rel)
  moreover have "expand_page (ent q i) lvl s = Some s3"
    using z(1) by (simp add: expand_page_def s3_def s2_def NPDENTRIES_def tbl_def Let_def)
  moreover have "get_entry s3 (ent p j) AND PTE_PS \<noteq> 0" if j: "unat j < 512" and "lvl" for j
  proof -
    obtain a where "get_entry s3 (ent p j) = a OR (PTE_PS OR PGOFF (PGOFF (get_entry s (ent q i)) AND NOT PTE_PS))"
      using fill_table_entry [OF z(3) j order_refl] \<open>lvl\<close> unfolding s3_def by force
    moreover have "bit (PTE_PS :: addr_t) 7" by (simp add: PTE_PS_def bit_numeral_rec)
    ultimately have "bit (get_entry s3 (ent p j) AND PTE_PS) 7" by (simp add: bit_simps)
    then show ?thesis by auto
  qed
  ultimately show thesis using z(2) by (intro that [of s3 p])
qed

section \<open>Mapping a page\<close>

text \<open>The tables a walk for \<open>va\<close> finds below an entry are tables in pages of their own that are not free.\<close>

fun path_ok :: "pmm \<Rightarrow> size_t set \<Rightarrow> size_t set \<Rightarrow> size_t \<Rightarrow> addr_t \<Rightarrow> nat list \<Rightarrow> bool" where
  "path_ok s A U q va [] = True"
| "path_ok s A U q va (sh # shs) \<longleftrightarrow>
     (let e = get_entry s (ent q (pd_index sh va))
      in e AND PTE_P \<noteq> 0 \<and> e AND PTE_PS = 0 \<longrightarrow>
         (\<exists>q'. linked U (ent q (pd_index sh va)) s q' \<and> q' \<notin> A \<and> path_ok s A (insert q' U) q' va shs))"

lemma entry_of_link: "PTADDR (get_entry s e) = push_bit PGSHIFT q \<Longrightarrow> entry_at (kaddr (PTADDR (get_entry s e))) i = ent q i"
  by (simp add: ent_def tbl_def)

text \<open>One level of an allocating walk: the entry ends up linked, and the rest of the path is fine below it.\<close>

definition level_done :: "size_t set \<Rightarrow> addr_t \<Rightarrow> pmm \<Rightarrow> pmm \<Rightarrow> size_t set \<Rightarrow> size_t set \<Rightarrow> size_t \<Rightarrow> addr_t \<Rightarrow> nat list \<Rightarrow> bool" where
  "level_done U e s s' A A' q va shs \<longleftrightarrow> pmm_rel s' A' \<and> A' \<subseteq> A \<and> card A \<le> Suc (card A') \<and> q \<notin> A' \<and> linked U e s' q \<and> keeps U e s s' \<and>
     path_ok s' A' (insert q U) q va shs"

lemma link_step:
  assumes "pmm_rel s A" "A \<noteq> {}" "in_use U A" "q \<in> U" "path_ok s A U q va (sh # shs)" "e = ent q (pd_index sh va)"
    and shs: "shs = [] \<or> shs = [21] \<or> lvl = None"
  defines "st \<equiv> (if get_entry s e AND PTE_P = 0 then new_table e s
    else if get_entry s e AND PTE_PS \<noteq> 0 then (case lvl of Some l \<Rightarrow> expand_page e l s | None \<Rightarrow> None) else Some s)"
  assumes "lvl = None \<Longrightarrow> get_entry s e AND PTE_PS = 0" "shs = [21] \<Longrightarrow> lvl = Some True"
  obtains s' A' q' where "st = Some s'" "level_done U e s s' A A' q' va shs"
proof -
  have i: "unat (pd_index sh va) < 512" by (rule index_small)
  have fin: "finite A" by simp
  have cd: "card A \<le> Suc (card (A - {p}))" for p by (auto simp: card_Diff_singleton_if)
  consider "get_entry s e AND PTE_P = 0" | "get_entry s e AND PTE_P \<noteq> 0" "get_entry s e AND PTE_PS \<noteq> 0"
    | "get_entry s e AND PTE_P \<noteq> 0" "get_entry s e AND PTE_PS = 0" by blast
  then show thesis
  proof cases
    case 1
    obtain s' p where n: "new_table e s = Some s'" "p \<in> A" "pmm_rel s' (A - {p})" "linked U e s' p" "keeps U e s s'"
      "\<And>j. unat j < 512 \<Longrightarrow> get_entry s' (ent p j) = 0"
      by (rule new_table_ok [OF assms(1-4) i, folded assms(6)]) (rule that; assumption)
    have "path_ok s' (A - {p}) (insert p U) p va shs"
      using n(6) [OF index_small] by (cases shs) (simp_all add: Let_def)
    then show ?thesis using 1 n cd by (intro that [of s' "A - {p}" p]) (auto simp: st_def level_done_def)
  next
    case 2
    then obtain l where l: "lvl = Some l" using assms(9) by (cases lvl) auto
    obtain s' p where n: "expand_page e l s = Some s'" "p \<in> A" "pmm_rel s' (A - {p})" "linked U e s' p" "keeps U e s s'"
      "\<And>j. unat j < 512 \<Longrightarrow> l \<Longrightarrow> get_entry s' (ent p j) AND PTE_PS \<noteq> 0"
      by (rule expand_page_ok [OF assms(1-4) i, folded assms(6)]) (rule that; assumption)
    have "path_ok s' (A - {p}) (insert p U) p va shs"
      using shs l assms(10) n(6) [OF index_small] by (auto simp: Let_def)
    then show ?thesis using 2 l n cd by (intro that [of s' "A - {p}" p]) (auto simp: st_def level_done_def)
  next
    case 3
    then obtain q' where "linked U e s q'" "q' \<notin> A" "path_ok s A (insert q' U) q' va shs"
      using assms(5) by (auto simp: Let_def assms(6))
    then show ?thesis using 3 assms(1) by (intro that [of s A q']) (auto simp: st_def level_done_def keeps_def)
  qed
qed

lemma level_doneD:
  assumes "level_done U e s s' A A' q va shs"
  shows "pmm_rel s' A'" "A' \<subseteq> A" "card A \<le> Suc (card A')" "q \<notin> A'" "linked U e s' q" "keeps U e s s'" "path_ok s' A' (insert q U) q va shs"
  using assms by (auto simp: level_done_def)

lemma in_use_insert: "in_use U A \<Longrightarrow> A' \<subseteq> A \<Longrightarrow> linked U e s q \<Longrightarrow> q \<notin> A' \<Longrightarrow> in_use (insert q U) A'"
  by (auto simp: in_use_def linked_def)

lemma linked_entry: "linked U e s q \<Longrightarrow> entry_at (kaddr (PTADDR (get_entry s e))) i = ent q i"
  by (simp add: linked_def ent_def tbl_def)

text \<open>A link stays when a later level changes only an entry of a table outside the pages in use.\<close>

lemma linked_keeps:
  assumes "linked U (ent q i) s q1" "keeps (insert q1 W) (ent q' i') s s'" "q \<in> W" "q \<noteq> q'" "unat q < 2 ^ 31" "unat i < 512"
    "unat q' < 2 ^ 31" "unat i' < 512"
  shows "linked U (ent q i) s' q1"
proof -
  have "apart8 (ent q i) (ent q' i')" by (rule ent_apart) (use assms in auto)
  then have "ent q i \<noteq> ent q' i'" by (auto simp: apart8_def)
  then have "get_entry s' (ent q i) = get_entry s (ent q i)" using assms(2,3,6) by (simp add: keeps_def)
  then show ?thesis using assms(1) by (simp add: linked_def)
qed

lemma alloc_flag: "PG_ALLOC \<noteq> 0" "PG_ALLOC AND PG_ALLOC \<noteq> (0 :: cint)" "PG_ALLOC AND PG_1G = (0 :: cint)" "PG_ALLOC AND PG_2M = (0 :: cint)"
  by (simp_all add: PG_ALLOC_def PG_1G_def PG_2M_def)

text \<open>The path a completed walk leaves in the tables.\<close>

definition mapped_path :: "size_t \<Rightarrow> addr_t \<Rightarrow> pmm \<Rightarrow> size_t \<Rightarrow> size_t \<Rightarrow> size_t \<Rightarrow> bool" where
  "mapped_path q0 va s q1 q2 q3 \<longleftrightarrow> linked {q0} (ent q0 (pd_index PGXSHIFT va)) s q1 \<and>
     linked {q1, q0} (ent q1 (pd_index PUXSHIFT va)) s q2 \<and> linked {q2, q1, q0} (ent q2 (pd_index PDXSHIFT va)) s q3"

lemma alloc_walk:
  assumes rel: "pmm_rel s A" and A3: "3 \<le> card A" and q0: "unat q0 < 2 ^ 31" "q0 \<notin> A"
    and path: "path_ok s A {q0} q0 va [39, 30, 21]" and top: "get_entry s (ent q0 (pd_index 39 va)) AND PTE_PS = 0"
  obtains s' A' q1 q2 q3 r where "pgdir_walk (tbl q0) va PG_ALLOC s = Some (s', ent q3 (pd_index PTXSHIFT va), r)"
    "mapped_path q0 va s' q1 q2 q3" "pmm_rel s' A'"
proof -
  note sh = PGXSHIFT_def PUXSHIFT_def PDXSHIFT_def
  have u0: "in_use {q0} A" using q0 by (simp add: in_use_def)
  have ne: "A' \<noteq> {}" if "1 \<le> card A'" for A' :: "size_t set" using that by auto
  let ?e0 = "ent q0 (pd_index 39 va)"
  obtain s1 A1 q1 where st0: "(if get_entry s ?e0 AND PTE_P = 0 then new_table ?e0 s
      else if get_entry s ?e0 AND PTE_PS \<noteq> 0 then (case None of Some l \<Rightarrow> expand_page ?e0 l s | None \<Rightarrow> None) else Some s) = Some s1"
    "level_done {q0} ?e0 s s1 A A1 q1 va [30, 21]"
    by (rule link_step [OF rel _ u0 _ path refl, of None]) (use A3 ne top in auto)
  note l1 = level_doneD [OF st0(2)]
  have u1: "in_use {q1, q0} A1" by (rule in_use_insert [OF u0 l1(2,5,4)])
  let ?e1 = "ent q1 (pd_index 30 va)"
  obtain s2 A2 q2 where st1: "(if get_entry s1 ?e1 AND PTE_P = 0 then new_table ?e1 s1
      else if get_entry s1 ?e1 AND PTE_PS \<noteq> 0 then (case Some True of Some l \<Rightarrow> expand_page ?e1 l s1 | None \<Rightarrow> None) else Some s1) = Some s2"
    "level_done {q1, q0} ?e1 s1 s2 A1 A2 q2 va [21]"
    by (rule link_step [OF l1(1) _ u1 _ l1(7) refl, of "Some True"]) (use A3 l1(3) ne in auto)
  note l2 = level_doneD [OF st1(2)]
  have u2: "in_use {q2, q1, q0} A2" by (rule in_use_insert [OF u1 l2(2,5,4)])
  let ?e2 = "ent q2 (pd_index 21 va)"
  obtain s3 A3' q3 where st2: "(if get_entry s2 ?e2 AND PTE_P = 0 then new_table ?e2 s2
      else if get_entry s2 ?e2 AND PTE_PS \<noteq> 0 then (case Some False of Some l \<Rightarrow> expand_page ?e2 l s2 | None \<Rightarrow> None) else Some s2) = Some s3"
    "level_done {q2, q1, q0} ?e2 s2 s3 A2 A3' q3 va []"
    by (rule link_step [OF l2(1) _ u2 _ l2(7) refl, of "Some False"]) (use A3 l1(3) l2(3) ne in auto)
  note l3 = level_doneD [OF st2(2)]
  have b: "unat q1 < 2 ^ 31" "unat q2 < 2 ^ 31" "q1 \<noteq> q0" "q2 \<noteq> q1" "q2 \<noteq> q0"
    using l1(5) l2(5) by (auto simp: linked_def)
  have k0: "linked {q0} ?e0 s2 q1"
    by (rule linked_keeps [OF l1(5), where W = "{q0}" and q' = q1 and i' = "pd_index 30 va"]) (use l2(6) b q0 index_small in auto)
  then have m0: "linked {q0} ?e0 s3 q1"
    by (rule linked_keeps [where W = "{q2, q0}" and q' = q2 and i' = "pd_index 21 va"]) (use l3(6) b q0 index_small in \<open>auto simp: insert_commute\<close>)
  have m1: "linked {q1, q0} ?e1 s3 q2"
    by (rule linked_keeps [OF l2(5), where W = "{q1, q0}" and q' = q2 and i' = "pd_index 21 va"]) (use l3(6) b index_small in auto)
  have pt: "walk_pt ?e2 va s3 = Some (s3, ent q3 (pd_index PTXSHIFT va), Some (big_page_addr PTXSHIFT (get_entry s3 (ent q3 (pd_index PTXSHIFT va))) va))"
    by (simp add: walk_pt_def linked_entry [OF l3(5)] Let_def)
  have e2: "entry_at (kaddr (PTADDR (get_entry s2 ?e1))) (pd_index PDXSHIFT va) = ?e2"
    by (simp add: linked_entry [OF l2(5)] sh)
  have wpd: "walk_pd ?e1 va PG_ALLOC s2 = walk_pt ?e2 va s3"
    using st2(1) unfolding walk_pd_def e2 Let_def by (auto simp: alloc_flag split: if_splits)
  have e1: "entry_at (kaddr (PTADDR (get_entry s1 ?e0))) (pd_index PUXSHIFT va) = ?e1"
    by (simp add: linked_entry [OF l1(5)] sh)
  have wpu: "walk_pud ?e0 va PG_ALLOC s1 = walk_pd ?e1 va PG_ALLOC s2"
    using st1(1) unfolding walk_pud_def e1 Let_def by (auto simp: alloc_flag split: if_splits)
  have "pgdir_walk (tbl q0) va PG_ALLOC s = walk_pud ?e0 va PG_ALLOC s1"
    using st0(1) top unfolding pgdir_walk_def Let_def ent_def [symmetric] sh by (auto simp: alloc_flag split: if_splits)
  then have "pgdir_walk (tbl q0) va PG_ALLOC s = Some (s3, ent q3 (pd_index PTXSHIFT va), Some (big_page_addr PTXSHIFT (get_entry s3 (ent q3 (pd_index PTXSHIFT va))) va))"
    by (simp only: wpu wpd pt)
  moreover have "mapped_path q0 va s3 q1 q2 q3" using m0 m1 l3(5) by (simp add: mapped_path_def sh)
  ultimately show thesis using l3(1) by (rule that)
qed

text \<open>The final entry lies outside the tables above it, so writing it leaves the path alone.\<close>

lemma mapped_path_set:
  assumes "mapped_path q0 va s q1 q2 q3" "unat q0 < 2 ^ 31"
  shows "mapped_path q0 va (set_entry (ent q3 (pd_index PTXSHIFT va)) v s) q1 q2 q3"
proof -
  note m = assms(1) [unfolded mapped_path_def linked_def]
  have "get_entry (set_entry (ent q3 (pd_index PTXSHIFT va)) v s) (ent q (pd_index sh va)) = get_entry s (ent q (pd_index sh va))"
    if "q \<in> {q0, q1, q2}" for q sh
    by (rule get_set_other, rule ent_apart) (use that m assms(2) index_small in auto)
  then show ?thesis using m by (simp add: mapped_path_def linked_def)
qed

lemma check_mapped:
  assumes "mapped_path q0 va s q1 q2 q3"
  shows "check_pgtable (tbl q0) va s = Some (big_page_addr PTXSHIFT (get_entry s (ent q3 (pd_index PTXSHIFT va))) va)"
proof -
  note m = assms [unfolded mapped_path_def]
  note e = linked_entry [OF m [THEN conjunct1]] linked_entry [OF m [THEN conjunct2, THEN conjunct1]] linked_entry [OF m [THEN conjunct2, THEN conjunct2]]
  have f: "get_entry s (ent q0 (pd_index PGXSHIFT va)) AND PTE_P \<noteq> 0"
    "get_entry s (ent q1 (pd_index PUXSHIFT va)) AND PTE_P \<noteq> 0" "get_entry s (ent q1 (pd_index PUXSHIFT va)) AND PTE_PS = 0"
    "get_entry s (ent q2 (pd_index PDXSHIFT va)) AND PTE_P \<noteq> 0" "get_entry s (ent q2 (pd_index PDXSHIFT va)) AND PTE_PS = 0"
    using m by (simp_all add: linked_def)
  show ?thesis
    by (simp add: check_pgtable_def pgdir_walk_def ent_def [symmetric] walk_pud_def walk_pd_def walk_pt_def e f Let_def)
qed

lemma entry_addr:
  fixes pa va attr :: addr_t
  assumes "take_bit 12 pa = 0" "take_bit 12 va = 0" "unat attr < 4096"
  shows "big_page_addr PTXSHIFT (pa OR attr) va = pa"
proof (rule bit_word_eqI)
  fix n assume "n < LENGTH(64)"
  have pb: "\<not> bit pa n" "\<not> bit va n" if "n < 12" using assms(1,2) that by (simp_all add: aligned_bits)
  have ab: "\<not> bit attr n" if "12 \<le> n"
  proof -
    have "drop_bit 12 attr = 0" using assms(3) by (simp add: word_unat_eq_iff unat_drop_bit_eq drop_bit_eq_div [where 'a = nat])
    from arg_cong [OF this, of "\<lambda>w. bit w (n - 12)"] show ?thesis using that by (simp add: bit_drop_bit_eq)
  qed
  show "bit (big_page_addr PTXSHIFT (pa OR attr) va) n = bit pa n"
    using pb ab \<open>n < LENGTH(64)\<close> by (cases "n < 12") (auto simp: big_page_addr_def PTXSHIFT_def bit_simps)
qed

lemma one_page_region:
  assumes "take_bit 12 va = 0" "unat va + 8192 \<le> 2 ^ 64"
  shows "map_region pgdir va pa PGSIZE attr 0 s =
    do { (s1, pte, _) \<leftarrow> pgdir_walk pgdir va PG_ALLOC s; Some (set_entry pte (pa OR attr) s1) }"
proof -
  have ls: "level_size 0 = 2 ^ 12" by (rule level_sizes)
  have u: "unat (va + PGSIZE) = unat va + 4096" using assms(2) unat_add_lem [of va PGSIZE] by (simp add: PGSIZE_def)
  have m: "unat va mod 4096 = 0"
    using assms(1) by (simp add: word_unat_eq_iff unsigned_take_bit_eq take_bit_eq_mod [where 'a = nat])
  then obtain k where k: "unat va = 4096 * k" by auto
  have d: "align_down va (level_size 0) = va"
    unfolding ls by (rule word_unat_eq_iff [THEN iffD2], simp only: unat_align_down) (simp add: k)
  have "unat (align (va + PGSIZE) (level_size 0)) = (unat (va + PGSIZE) + (2 ^ 12 - 1)) div 2 ^ 12 * 2 ^ 12"
    unfolding ls by (rule unat_align) (use u assms(2) in simp_all)
  also have "\<dots> = unat (va + PGSIZE)"
  proof -
    have "(4096 * k + 4096 + 4095) div 4096 = k + (1 :: nat)" by (rule div_nat_eqI) simp_all
    then show ?thesis unfolding u k by simp
  qed
  finally have e: "align (va + PGSIZE) (level_size 0) = va + PGSIZE" by (simp only: word_unat_eq_iff)
  have lt: "va < va + PGSIZE" by (simp add: word_less_nat_alt u)
  have c: "unat (PGSIZE div level_size 0) = Suc 0" "level_size 0 = PGSIZE" by (simp_all add: ls PGSIZE_def)
  have "PGSIZE \<noteq> 0" by (simp add: PGSIZE_def)
  then have "map_region pgdir va pa PGSIZE attr 0 s = map_pages pgdir va (va + PGSIZE) pa (level_size 0) attr PG_ALLOC (Suc 0) s"
    unfolding map_region_def Let_def d e by (simp add: c(1) del: map_pages.simps)
  also have "\<dots> = do { (s1, pte, _) \<leftarrow> pgdir_walk pgdir va PG_ALLOC s; Some (set_entry pte (pa OR attr) s1) }"
    unfolding map_pages.simps c(2) using lt by (simp add: split_def)
  finally show ?thesis .
qed

text \<open>C20: Mapping a page and then looking it up gives back its physical address: with three pages free and the tables
  on the way to \<open>va\<close> in pages of their own, \<open>__map_region\<close> of one page allocates whatever tables are missing,
  splits a large page it meets, and \<open>check_pgtable\<close> of \<open>va\<close> is then \<open>pa\<close>.\<close>

theorem map_page_lookup:
  assumes "pmm_rel s A" "3 \<le> card A" "unat q0 < 2 ^ 31" "q0 \<notin> A" "path_ok s A {q0} q0 va [39, 30, 21]"
    and "get_entry s (ent q0 (pd_index 39 va)) AND PTE_PS = 0"
    and "take_bit 12 va = 0" "take_bit 12 pa = 0" "unat attr < 4096" "unat va + 8192 \<le> 2 ^ 64"
  shows "\<exists>s' A'. map_region (tbl q0) va pa PGSIZE attr 0 s = Some s' \<and> pmm_rel s' A' \<and> check_pgtable (tbl q0) va s' = Some pa"
proof -
  obtain s1 A1 q1 q2 q3 r where w: "pgdir_walk (tbl q0) va PG_ALLOC s = Some (s1, ent q3 (pd_index PTXSHIFT va), r)"
    "mapped_path q0 va s1 q1 q2 q3" "pmm_rel s1 A1"
    by (rule alloc_walk [OF assms(1-6)]) (rule that; assumption)
  let ?s = "set_entry (ent q3 (pd_index PTXSHIFT va)) (pa OR attr) s1"
  have "map_region (tbl q0) va pa PGSIZE attr 0 s = Some ?s"
    by (simp add: one_page_region [OF assms(7,10)] w(1))
  moreover have "check_pgtable (tbl q0) va ?s = Some pa"
    using check_mapped [OF mapped_path_set [OF w(2) assms(3)], of "pa OR attr"] entry_addr [OF assms(8,7,9)]
    by (simp add: get_set_entry)
  ultimately show ?thesis using w(3) by (intro exI [of _ ?s] exI [of _ A1]) (simp add: pmm_rel_set_entry)
qed

theorem map_page_lookup_witness:
  "\<exists>s s'. map_region (tbl 0) 0xFFFF800080000000 0xFEE00000 PGSIZE 0x103 0 s = Some s' \<and>
    check_pgtable (tbl 0) 0xFFFF800080000000 s' = Some 0xFEE00000"
proof -
  obtain s0 where s0: "pmm_rel s0 ready_pages" using ready_running by blast
  define s where "s = s0\<lparr>pm_mem := (\<lambda>_. 0)\<rparr>"
  have s: "pmm_rel s ready_pages" using s0 by (simp add: s_def pmm_rel_mem)
  have "load_le (\<lambda>_. 0) x n = 0" for x n by (induction n arbitrary: x) simp_all
  then have g: "get_entry s p = 0" for p by (simp add: get_entry_def s_def load_u64_def)
  have "{1021, 1022, 1023} \<subseteq> ready_pages"
    by (simp add: ready_pages_def avail_pages_def ready_state_def bit_at_def nth_append pfn_range_def array_pages_def
        div_round_up_def PAGE_STRUCT_SIZE_def PGSIZE_def)
  then have "card {1021, 1022, 1023 :: size_t} \<le> card ready_pages" by (rule card_mono [OF finite])
  then have c: "3 \<le> card ready_pages" by simp
  have z: "0 \<notin> ready_pages"
    by (simp add: ready_pages_def pfn_range_def array_pages_def ready_state_def div_round_up_def PAGE_STRUCT_SIZE_def PGSIZE_def)
  show ?thesis
    using map_page_lookup [OF s c _ z, of "0xFFFF800080000000" "0xFEE00000" "0x103"]
    by (auto simp: g Let_def word_unat_eq_iff unsigned_take_bit_eq take_bit_eq_mod [where 'a = nat])
qed

end
