(* ===== verification/Acpi.thy ===== *)
theory Acpi
  imports Paging
begin

text \<open>
  Processor features (\<open>src/arch/x86/cpu.c\<close>) and the ACPI tables (\<open>src/drivers/acpi.c\<close>,
  \<open>include/drivers/acpi.h\<close>).  The instruction \<open>cpuid\<close> is a parameter; a table is an address in memory, and
  \<open>None\<close> is a fault of the page mapping or a loop that does not end.
\<close>

section \<open>Processor features\<close>

record cpu_feature =
  feature :: u64
  extend_feature :: u64

text \<open>\<open>cpuid code\<close> is what the instruction leaves in \<open>ecx\<close> and \<open>edx\<close>.\<close>

definition fetch_cpu_feature :: "(u32 \<Rightarrow> u32 \<times> u32) \<Rightarrow> cpu_feature" where
  "fetch_cpu_feature cpuid =
     (let (ecx, edx) = cpuid 0x1; (ecx', edx') = cpuid 0x80000001
      in \<lparr>feature = push_bit 32 (ucast ecx) OR ucast edx, extend_feature = push_bit 32 (ucast ecx') OR ucast edx'\<rparr>)"

definition check_cpu_feature :: "cpu_feature \<Rightarrow> nat \<Rightarrow> cint" where
  "check_cpu_feature f ty =
     (if ty \<ge> 64 then ucast (extend_feature f AND push_bit (ty - 64) 1) else ucast (feature f AND push_bit ty 1))"

text \<open>The enumeration of the features and their numbers.\<close>

datatype x86_feature =
  FEAT_X86_FPU | FEAT_X86_VME | FEAT_X86_DE | FEAT_X86_PSE | FEAT_X86_TSC | FEAT_X86_MSR
  | FEAT_X86_PAE | FEAT_X86_MCE | FEAT_X86_CX8 | FEAT_X86_APIC | FEAT_X86_SEP | FEAT_X86_MTRR
  | FEAT_X86_PGE | FEAT_X86_MCA | FEAT_X86_CMOV | FEAT_X86_PAT | FEAT_X86_PSE36 | FEAT_X86_PSN
  | FEAT_X86_CLFLUSH | FEAT_X86_DS | FEAT_X86_ACPI | FEAT_X86_MMX | FEAT_X86_FXSR | FEAT_X86_SSE
  | FEAT_X86_SSE2 | FEAT_X86_SS | FEAT_X86_HTT | FEAT_X86_TM | FEAT_X86_IA64 | FEAT_X86_PBE
  | FEAT_X86_SSE3 | FEAT_X86_PCLMUL | FEAT_X86_DTES64 | FEAT_X86_MONITOR | FEAT_X86_DS_CPL | FEAT_X86_VMX
  | FEAT_X86_SMX | FEAT_X86_EST | FEAT_X86_TM2 | FEAT_X86_SSSE3 | FEAT_X86_CID | FEAT_X86_SDBG
  | FEAT_X86_FMA | FEAT_X86_CX16 | FEAT_X86_XTPR | FEAT_X86_PDCM | FEAT_X86_PCID | FEAT_X86_DCA
  | FEAT_X86_SSE4_1 | FEAT_X86_SSE4_2 | FEAT_X86_X2APIC | FEAT_X86_MOVBE | FEAT_X86_POPCNT | FEAT_X86_AES
  | FEAT_X86_XSAVE | FEAT_X86_OSXSAVE | FEAT_X86_AVX | FEAT_X86_F16C | FEAT_X86_RDRAND | FEAT_X86_HYPERVISOR
  | FEAT_X86_SYSCALL | FEAT_X86_NX | FEAT_X86_MmxExt | FEAT_X86_FFXSR | FEAT_X86_Page1GB | FEAT_X86_RDTSCP
  | FEAT_X86_LM | FEAT_X86_3DNowExt | FEAT_X86_3DNow

primrec feature_number :: "x86_feature \<Rightarrow> nat" where
  "feature_number FEAT_X86_FPU = 0"
| "feature_number FEAT_X86_VME = 1"
| "feature_number FEAT_X86_DE = 2"
| "feature_number FEAT_X86_PSE = 3"
| "feature_number FEAT_X86_TSC = 4"
| "feature_number FEAT_X86_MSR = 5"
| "feature_number FEAT_X86_PAE = 6"
| "feature_number FEAT_X86_MCE = 7"
| "feature_number FEAT_X86_CX8 = 8"
| "feature_number FEAT_X86_APIC = 9"
| "feature_number FEAT_X86_SEP = 11"
| "feature_number FEAT_X86_MTRR = 12"
| "feature_number FEAT_X86_PGE = 13"
| "feature_number FEAT_X86_MCA = 14"
| "feature_number FEAT_X86_CMOV = 15"
| "feature_number FEAT_X86_PAT = 16"
| "feature_number FEAT_X86_PSE36 = 17"
| "feature_number FEAT_X86_PSN = 18"
| "feature_number FEAT_X86_CLFLUSH = 19"
| "feature_number FEAT_X86_DS = 21"
| "feature_number FEAT_X86_ACPI = 22"
| "feature_number FEAT_X86_MMX = 23"
| "feature_number FEAT_X86_FXSR = 24"
| "feature_number FEAT_X86_SSE = 25"
| "feature_number FEAT_X86_SSE2 = 26"
| "feature_number FEAT_X86_SS = 27"
| "feature_number FEAT_X86_HTT = 28"
| "feature_number FEAT_X86_TM = 29"
| "feature_number FEAT_X86_IA64 = 30"
| "feature_number FEAT_X86_PBE = 31"
| "feature_number FEAT_X86_SSE3 = 32"
| "feature_number FEAT_X86_PCLMUL = 33"
| "feature_number FEAT_X86_DTES64 = 34"
| "feature_number FEAT_X86_MONITOR = 35"
| "feature_number FEAT_X86_DS_CPL = 36"
| "feature_number FEAT_X86_VMX = 37"
| "feature_number FEAT_X86_SMX = 38"
| "feature_number FEAT_X86_EST = 39"
| "feature_number FEAT_X86_TM2 = 40"
| "feature_number FEAT_X86_SSSE3 = 41"
| "feature_number FEAT_X86_CID = 42"
| "feature_number FEAT_X86_SDBG = 43"
| "feature_number FEAT_X86_FMA = 44"
| "feature_number FEAT_X86_CX16 = 45"
| "feature_number FEAT_X86_XTPR = 46"
| "feature_number FEAT_X86_PDCM = 47"
| "feature_number FEAT_X86_PCID = 49"
| "feature_number FEAT_X86_DCA = 50"
| "feature_number FEAT_X86_SSE4_1 = 51"
| "feature_number FEAT_X86_SSE4_2 = 52"
| "feature_number FEAT_X86_X2APIC = 53"
| "feature_number FEAT_X86_MOVBE = 54"
| "feature_number FEAT_X86_POPCNT = 55"
| "feature_number FEAT_X86_AES = 57"
| "feature_number FEAT_X86_XSAVE = 58"
| "feature_number FEAT_X86_OSXSAVE = 59"
| "feature_number FEAT_X86_AVX = 60"
| "feature_number FEAT_X86_F16C = 61"
| "feature_number FEAT_X86_RDRAND = 62"
| "feature_number FEAT_X86_HYPERVISOR = 63"
| "feature_number FEAT_X86_SYSCALL = 64 + 11"
| "feature_number FEAT_X86_NX = 64 + 20"
| "feature_number FEAT_X86_MmxExt = 64 + 22"
| "feature_number FEAT_X86_FFXSR = 64 + 25"
| "feature_number FEAT_X86_Page1GB = 64 + 26"
| "feature_number FEAT_X86_RDTSCP = 64 + 27"
| "feature_number FEAT_X86_LM = 64 + 29"
| "feature_number FEAT_X86_3DNowExt = 64 + 30"
| "feature_number FEAT_X86_3DNow = 64 + 31"

lemma feature_nonzero: "(ucast (x AND push_bit k 1) :: cint) \<noteq> 0 \<longleftrightarrow> bit x k \<and> k < 32" for x :: u64
proof
  assume "(ucast (x AND push_bit k 1) :: cint) \<noteq> 0"
  then obtain n where "bit (ucast (x AND push_bit k 1) :: cint) n" by (auto simp: bit_eq_iff)
  then show "bit x k \<and> k < 32" by (auto simp: bit_simps dest: bit_imp_le_length)
next
  assume "bit x k \<and> k < 32"
  then have "bit (ucast (x AND push_bit k 1) :: cint) k" by (auto simp: bit_simps)
  then show "(ucast (x AND push_bit k 1) :: cint) \<noteq> 0" by auto
qed

section \<open>Tables\<close>

definition SIZEOF_ACPI_HEADER :: size_t where "SIZEOF_ACPI_HEADER = 36"
definition acpi_length :: "mem \<Rightarrow> addr_t \<Rightarrow> u32" where "acpi_length m t = load_u32 m (t + 4)"

definition tag_rsdp :: "addr_t \<Rightarrow> addr_t" where "tag_rsdp tag = tag + 8"
definition rsdp_revision :: "mem \<Rightarrow> addr_t \<Rightarrow> u8" where "rsdp_revision m r = m (r + 15)"
definition rsdp_rsdt_address :: "mem \<Rightarrow> addr_t \<Rightarrow> u32" where "rsdp_rsdt_address m r = load_u32 m (r + 16)"
definition rsdp_xsdt_address :: "mem \<Rightarrow> addr_t \<Rightarrow> u64" where "rsdp_xsdt_address m r = load_u64 m (r + 24)"

text \<open>The kernel's page tables and whether the processor has pages of one gigabyte, for \<open>arch_kmap\<close>.\<close>

record acpi =
  page_1gb :: bool
  kernel_pgd :: addr_t
  acpi_sdt_header :: addr_t
  acpi_revision :: cint

definition kmap :: "acpi \<Rightarrow> addr_t \<Rightarrow> size_t \<Rightarrow> pmm \<Rightarrow> (pmm \<times> addr_t) option" where
  "kmap c phy sz s = arch_kmap (page_1gb c) (kernel_pgd c) phy sz s"

definition acpi_remap :: "acpi \<Rightarrow> addr_t \<Rightarrow> pmm \<Rightarrow> (pmm \<times> addr_t) option" where
  "acpi_remap c phy s = do {
     (s, header) \<leftarrow> kmap c phy SIZEOF_ACPI_HEADER s;
     let sz = ucast (acpi_length (pm_mem s) header);
     kmap c phy sz (arch_kunmap header s) }"

definition acpi_init :: "acpi \<Rightarrow> pmm \<Rightarrow> (acpi \<times> pmm \<times> cint) option" where
  "acpi_init c s = do {
     new \<leftarrow> mboot_get_mboot_info (pm_mem s) (mboot_info s) MULTIBOOT_TAG_TYPE_ACPI_NEW;
     tag \<leftarrow> (if new = 0 then mboot_get_mboot_info (pm_mem s) (mboot_info s) MULTIBOOT_TAG_TYPE_ACPI_OLD else Some new);
     if tag = 0 then Some (c, s, 0)
     else do {
       let rsdp = tag_rsdp tag;
       let m = pm_mem s;
       let rvn = rsdp_revision m rsdp;
       let sdt = (if rvn = 0 then ucast (rsdp_rsdt_address m rsdp) else rsdp_xsdt_address m rsdp);
       (s, header) \<leftarrow> acpi_remap (c\<lparr>acpi_revision := ucast rvn\<rparr>) sdt s;
       Some (c\<lparr>acpi_revision := ucast rvn, acpi_sdt_header := header\<rparr>, s, 1) } }"

definition entry_size :: "acpi \<Rightarrow> addr_t" where
  "entry_size c = (if acpi_revision c \<noteq> 0 then 8 else 4)"

definition sdt_entry :: "acpi \<Rightarrow> mem \<Rightarrow> addr_t \<Rightarrow> addr_t" where
  "sdt_entry c m p = (if acpi_revision c \<noteq> 0 then load_u64 m p else ucast (load_u32 m p))"

partial_function (option) acpi_iter_loop ::
  "acpi \<Rightarrow> (mem \<Rightarrow> addr_t \<Rightarrow> bool) \<Rightarrow> addr_t \<Rightarrow> addr_t \<Rightarrow> pmm \<Rightarrow> (pmm \<times> addr_t) option" where
  [code]: "acpi_iter_loop c acpi_handler entry table_end s =
     (if entry < table_end
      then Option.bind (acpi_remap c (sdt_entry c (pm_mem s) entry) s) (\<lambda>r.
             if acpi_handler (pm_mem (fst r)) (snd r) then Some r
             else acpi_iter_loop c acpi_handler (entry + entry_size c) table_end (arch_kunmap (snd r) (fst r)))
      else Some (s, 0))"

definition acpi_iter :: "acpi \<Rightarrow> (mem \<Rightarrow> addr_t \<Rightarrow> bool) \<Rightarrow> pmm \<Rightarrow> (pmm \<times> addr_t) option" where
  "acpi_iter c acpi_handler s =
     (let table_start = acpi_sdt_header c + SIZEOF_ACPI_HEADER;
          table_end = acpi_sdt_header c + ucast (acpi_length (pm_mem s) (acpi_sdt_header c))
      in acpi_iter_loop c acpi_handler table_start table_end s)"

definition acpi_check_signature :: "addr_t \<Rightarrow> mem \<Rightarrow> addr_t \<Rightarrow> bool" where
  "acpi_check_signature signature m header \<longleftrightarrow> memcmp m header signature 4 = 0"

text \<open>The result is the address of the table, or 0.\<close>

definition acpi_find_table :: "acpi \<Rightarrow> addr_t \<Rightarrow> pmm \<Rightarrow> (pmm \<times> addr_t) option" where
  "acpi_find_table c signature s =
     (if acpi_sdt_header c = 0 then Some (s, 0) else acpi_iter c (acpi_check_signature signature) s)"

text \<open>\<open>acpi_list\<close> announces every table; the messages are left out.\<close>

definition acpi_list :: "acpi \<Rightarrow> pmm \<Rightarrow> pmm option" where
  "acpi_list c s = (if acpi_sdt_header c = 0 then Some s else map_option fst (acpi_iter c (\<lambda>_ _. False) s))"

section \<open>Searching mapped tables\<close>

text \<open>A physical address whose page the kernel maps already; \<open>arch_kmap\<close> then changes nothing.\<close>

definition kernel_mapped :: "acpi \<Rightarrow> pmm \<Rightarrow> addr_t \<Rightarrow> bool" where
  "kernel_mapped c s phy \<longleftrightarrow> check_pgtable (kernel_pgd c) (kaddr (PTADDR phy)) s = Some (PTADDR phy)"

lemma kmap_mapped: "kernel_mapped c s phy \<Longrightarrow> kmap c phy sz s = Some (s, kaddr phy)"
proof -
  assume m: "kernel_mapped c s phy"
  have "PTADDR phy + PGOFF phy = phy"
  proof -
    have "PTADDR phy AND PGOFF phy = 0" by (rule bit_word_eqI) (auto simp: bit_simps PTADDR_def PGOFF_def)
    from disjunctive_add_eq_or [OF this] have "PTADDR phy + PGOFF phy = PTADDR phy OR PGOFF phy" .
    also have "\<dots> = phy" by (rule bit_word_eqI) (auto simp: bit_simps PTADDR_def PGOFF_def)
    finally show ?thesis .
  qed
  then have "kaddr (PTADDR phy) + PGOFF phy = kaddr phy" by (simp add: kaddr_def algebra_simps)
  then show ?thesis using m by (simp add: kmap_def arch_kmap_def kernel_mapped_def Let_def)
qed

lemma acpi_remap_mapped: "kernel_mapped c s phy \<Longrightarrow> acpi_remap c phy s = Some (s, kaddr phy)"
  by (simp add: acpi_remap_def kmap_mapped arch_kunmap_def)

definition tables_of :: "acpi \<Rightarrow> pmm \<Rightarrow> addr_t \<Rightarrow> nat \<Rightarrow> addr_t list" where
  "tables_of c s start n = map (\<lambda>i. sdt_entry c (pm_mem s) (start + of_nat i * entry_size c)) [0..<n]"

lemma acpi_iter_loop_finds:
  assumes "\<And>i. i < n \<Longrightarrow> start + of_nat i * entry_size c < table_end" "\<not> start + of_nat n * entry_size c < table_end"
    and "\<And>p. p \<in> set (tables_of c s start n) \<Longrightarrow> kernel_mapped c s p"
  shows "acpi_iter_loop c h start table_end s =
    Some (s, case filter (\<lambda>p. h (pm_mem s) (kaddr p)) (tables_of c s start n) of [] \<Rightarrow> 0 | p # _ \<Rightarrow> kaddr p)"
  using assms
proof (induction n arbitrary: start)
  case 0
  then show ?case by (subst acpi_iter_loop.simps) (simp add: tables_of_def)
next
  case (Suc n)
  let ?p = "sdt_entry c (pm_mem s) start"
  have t: "tables_of c s start (Suc n) = ?p # tables_of c s (start + entry_size c) n"
    by (simp add: tables_of_def upt_rec [of 0 "Suc n"] map_Suc_upt [symmetric] algebra_simps del: upt_Suc)
  have IH: "acpi_iter_loop c h (start + entry_size c) table_end s =
    Some (s, case filter (\<lambda>p. h (pm_mem s) (kaddr p)) (tables_of c s (start + entry_size c) n) of [] \<Rightarrow> 0 | p # _ \<Rightarrow> kaddr p)"
  proof (rule Suc.IH)
    show "start + entry_size c + of_nat i * entry_size c < table_end" if "i < n" for i
      using Suc.prems(1) [of "Suc i"] that by (simp add: algebra_simps)
    show "\<not> start + entry_size c + of_nat n * entry_size c < table_end"
      using Suc.prems(2) by (simp add: algebra_simps)
    show "kernel_mapped c s p" if "p \<in> set (tables_of c s (start + entry_size c) n)" for p
      using Suc.prems(3) that by (simp add: t)
  qed
  have "acpi_remap c ?p s = Some (s, kaddr ?p)" by (rule acpi_remap_mapped) (simp add: Suc.prems(3) t)
  then show ?case
    using Suc.prems(1) [of 0] IH unfolding t
    by (subst acpi_iter_loop.simps) (simp add: arch_kunmap_def)
qed

section \<open>Properties\<close>

text \<open>A sample: the page tables of the kernel with four pages of one gigabyte, a root table with two entries,
  a table \<open>FACP\<close>, a table \<open>APIC\<close> and the string \<open>APIC\<close>.\<close>

definition sample_tables :: "u8 list" where
  "sample_tables =
    [131, 0, 0, 0, 0, 0, 0, 0,
     131, 0, 0, 64, 0, 0, 0, 0,
     131, 0, 0, 128, 0, 0, 0, 0,
     131, 0, 0, 192, 0, 0, 0, 0,
     3, 16, 0, 0, 0, 0, 0, 0,
     82, 83, 68, 84, 44, 0, 0, 0, 0, 0, 0, 0, 0, 0, 0, 0, 0, 0, 0, 0, 0, 0, 0, 0, 0, 0, 0, 0, 0, 0, 0, 0, 0, 0, 0, 0,
     84, 16, 0, 0, 120, 16, 0, 0,
     70, 65, 67, 80, 36, 0, 0, 0, 0, 0, 0, 0, 0, 0, 0, 0, 0, 0, 0, 0, 0, 0, 0, 0, 0, 0, 0, 0, 0, 0, 0, 0, 0, 0, 0, 0,
     65, 80, 73, 67, 98, 0, 0, 0, 0, 0, 0, 0, 0, 0, 0, 0, 0, 0, 0, 0, 0, 0, 0, 0, 0, 0, 0, 0, 0, 0, 0, 0, 0, 0, 0, 0,
     0, 0, 224, 254, 1, 0, 0, 0,
     0, 8, 1, 0, 1, 0, 0, 0,
     0, 8, 2, 1, 1, 0, 0, 0,
     1, 12, 2, 0, 0, 0, 192, 254, 0, 0, 0, 0,
     2, 10, 0, 0, 2, 0, 0, 0, 0, 0,
     2, 10, 0, 9, 9, 0, 0, 0, 13, 0,
     4, 6, 255, 0, 0, 1,
     65, 80, 73, 67, 0]"

definition sample_acpi :: acpi where
  "sample_acpi = \<lparr>page_1gb = True, kernel_pgd = kaddr 0x820, acpi_sdt_header = kaddr 0x1028, acpi_revision = 0\<rparr>"

definition sample_pmm :: pmm where
  "sample_pmm = (ready_state 0)\<lparr>pm_mem := mem_of (kaddr 0x1000) sample_tables\<rparr>"

lemma sample_length: "length sample_tables = 223" by (simp add: sample_tables_def)

lemma sample_entries:
  "get_entry sample_pmm (kaddr 0x1020) = 0x1003" "get_entry sample_pmm (kaddr 0x1000) = 0x83"
  "get_entry sample_pmm (kaddr 0x1018) = 0xC0000083"
  by (simp_all add: get_entry_def sample_pmm_def loads_mem_of sample_length kaddr_def KERN_BASE_def) (simp_all add: sample_tables_def)

lemma sample_mapped:
  "kernel_mapped sample_acpi sample_pmm 0x1054" "kernel_mapped sample_acpi sample_pmm 0x1078"
  "kernel_mapped sample_acpi sample_pmm 0xFEC00000" "kernel_mapped sample_acpi sample_pmm 0xFEE00000"
proof -
  have g: "get_entry sample_pmm 0xFFFF800000001020 = 0x1003" "get_entry sample_pmm 0xFFFF800000001000 = 0x83"
      "get_entry sample_pmm 0xFFFF800000001018 = 0xC0000083"
    using sample_entries by (simp_all add: kaddr_def KERN_BASE_def)
  note e = kernel_mapped_def check_pgtable_def pgdir_walk_def walk_pud_def sample_acpi_def kaddr_def KERN_BASE_def
    entry_at_def pd_index_def PGXSHIFT_def PUXSHIFT_def PTADDR_def PTE_P_def PTE_PS_def PG_ALLOC_def big_page_addr_def
    bit_mask_eq_mask mask_eq_exp_minus_1 g
  show "kernel_mapped sample_acpi sample_pmm 0x1054" "kernel_mapped sample_acpi sample_pmm 0x1078"
      "kernel_mapped sample_acpi sample_pmm 0xFEC00000" "kernel_mapped sample_acpi sample_pmm 0xFEE00000"
    by (simp_all add: e)
qed

text \<open>A root table with \<open>n\<close> entries, whose tables are all mapped, and the first of them with a signature.\<close>

definition tables_ok :: "acpi \<Rightarrow> pmm \<Rightarrow> nat \<Rightarrow> bool" where
  "tables_ok c s n \<longleftrightarrow> acpi_sdt_header c \<noteq> 0 \<and>
     unat (acpi_length (pm_mem s) (acpi_sdt_header c)) = 36 + n * unat (entry_size c) \<and>
     unat (acpi_sdt_header c) + 36 + n * unat (entry_size c) < 2 ^ 64 \<and>
     (\<forall>p \<in> set (tables_of c s (acpi_sdt_header c + 36) n). kernel_mapped c s p)"

definition has_signature :: "mem \<Rightarrow> addr_t \<Rightarrow> addr_t \<Rightarrow> bool" where
  "has_signature m signature p \<longleftrightarrow> (\<forall>i<4. m (kaddr p + of_nat i) = m (signature + of_nat i))"

definition first_table :: "acpi \<Rightarrow> pmm \<Rightarrow> nat \<Rightarrow> addr_t \<Rightarrow> addr_t" where
  "first_table c s n signature =
     (case filter (has_signature (pm_mem s) signature) (tables_of c s (acpi_sdt_header c + 36) n) of [] \<Rightarrow> 0 | p # _ \<Rightarrow> kaddr p)"

lemma acpi_find_table_ok:
  assumes "tables_ok c s n"
  shows "acpi_find_table c signature s = Some (s, first_table c s n signature)"
proof -
  let ?h = "acpi_sdt_header c" and ?e = "entry_size c"
  note t = assms [unfolded tables_ok_def]
  have e: "unat ?e \<noteq> 0" "unat ?e < 9" by (simp_all add: entry_size_def)
  have at: "unat (?h + 36 + of_nat i * ?e) = unat ?h + 36 + i * unat ?e" if "i \<le> n" for i
  proof -
    have "i * unat ?e \<le> n * unat ?e" using that by simp
    then have "unat ?h + 36 + i * unat ?e < 2 ^ 64" using t by linarith
    moreover have "?h + 36 + of_nat i * ?e = of_nat (unat ?h + 36 + i * unat ?e)" by simp
    ultimately show ?thesis by (simp only: unsigned_of_nat) (simp add: take_bit_nat_eq_self)
  qed
  have len: "ucast (acpi_length (pm_mem s) ?h) = (of_nat (36 + n * unat ?e) :: addr_t)"
    using t by (metis of_nat_unat)
  have stop: "unat (?h + ucast (acpi_length (pm_mem s) ?h)) = unat ?h + 36 + n * unat ?e"
    using at [of n] by (simp add: len algebra_simps)
  have "acpi_iter_loop c (acpi_check_signature signature) (?h + 36) (?h + ucast (acpi_length (pm_mem s) ?h)) s =
    Some (s, case filter (\<lambda>p. acpi_check_signature signature (pm_mem s) (kaddr p)) (tables_of c s (?h + 36) n) of
      [] \<Rightarrow> 0 | p # _ \<Rightarrow> kaddr p)"
  proof (rule acpi_iter_loop_finds)
    show "?h + 36 + of_nat i * ?e < ?h + ucast (acpi_length (pm_mem s) ?h)" if "i < n" for i
      using at [of i] stop e(1) that by (simp add: word_less_nat_alt)
    show "\<not> ?h + 36 + of_nat n * ?e < ?h + ucast (acpi_length (pm_mem s) ?h)"
      using at [of n] stop by (simp add: word_less_nat_alt)
  qed (use t in blast)
  then show ?thesis
    using t by (simp add: acpi_find_table_def acpi_iter_def SIZEOF_ACPI_HEADER_def acpi_check_signature_def memcmp_zero
      first_table_def has_signature_def [abs_def])
qed

text \<open>When every table is mapped, \<open>acpi_find_table\<close> ends and returns the first table of the root table
  whose four bytes of signature are the ones asked for, and the null pointer when there is none.\<close>

theorem acpi_find_table_first:
  assumes "tables_ok c s n"
  shows "acpi_find_table c signature s = Some (s, first_table c s n signature)"
  by (rule acpi_find_table_ok [OF assms])

lemma sample_fields: "acpi_sdt_header sample_acpi = 0xFFFF800000001028" "entry_size sample_acpi = 4"
  "acpi_length (pm_mem sample_pmm) 0xFFFF800000001028 = 44"
  "tables_of sample_acpi sample_pmm 0xFFFF80000000104C 2 = [0x1054, 0x1078]"
proof -
  show "acpi_sdt_header sample_acpi = 0xFFFF800000001028" "entry_size sample_acpi = 4"
    by (simp_all add: sample_acpi_def kaddr_def KERN_BASE_def entry_size_def)
  show "acpi_length (pm_mem sample_pmm) 0xFFFF800000001028 = 44"
    by (simp add: acpi_length_def sample_pmm_def loads_mem_of sample_length kaddr_def KERN_BASE_def) (simp add: sample_tables_def)
  have "load_u32 (pm_mem sample_pmm) 0xFFFF80000000104C = 0x1054" "load_u32 (pm_mem sample_pmm) 0xFFFF800000001050 = 0x1078"
    by (simp_all add: sample_pmm_def loads_mem_of sample_length kaddr_def KERN_BASE_def) (simp_all add: sample_tables_def)
  moreover have "[0..<2] = [0, 1]" by (simp add: upt_rec)
  ultimately show "tables_of sample_acpi sample_pmm 0xFFFF80000000104C 2 = [0x1054, 0x1078]"
    by (simp add: tables_of_def sdt_entry_def entry_size_def sample_acpi_def)
qed

lemma sample_first: "tables_ok sample_acpi sample_pmm 2" "first_table sample_acpi sample_pmm 2 (kaddr 0x10DA) = kaddr 0x1078"
proof -
  show "tables_ok sample_acpi sample_pmm 2"
    using sample_mapped(1,2) by (simp add: tables_ok_def sample_fields)
  have b: "pm_mem sample_pmm (0xFFFF800000001054) = 70" "pm_mem sample_pmm (0xFFFF800000001078) = 65"
    "pm_mem sample_pmm (0xFFFF800000001079) = 80" "pm_mem sample_pmm (0xFFFF80000000107A) = 73" "pm_mem sample_pmm (0xFFFF80000000107B) = 67"
    "pm_mem sample_pmm (0xFFFF8000000010DA) = 65" "pm_mem sample_pmm (0xFFFF8000000010DB) = 80"
    "pm_mem sample_pmm (0xFFFF8000000010DC) = 73" "pm_mem sample_pmm (0xFFFF8000000010DD) = 67"
    by (simp_all add: sample_pmm_def mem_of_def sample_length kaddr_def KERN_BASE_def) (simp_all add: sample_tables_def)
  have l4: "(\<forall>i<4. P i) \<longleftrightarrow> P 0 \<and> P 1 \<and> P 2 \<and> P (3::nat)" for P
    by (auto simp: less_Suc_eq numeral_eq_Suc)
  show "first_table sample_acpi sample_pmm 2 (kaddr 0x10DA) = kaddr 0x1078"
    by (simp add: first_table_def has_signature_def sample_fields l4 b kaddr_def KERN_BASE_def)
qed

theorem acpi_find_table_first_witness:
  "acpi_find_table sample_acpi (kaddr 0x10DA) sample_pmm = Some (sample_pmm, kaddr 0x1078)"
  using acpi_find_table_first [OF sample_first(1)] by (simp add: sample_first(2))

text \<open>\<open>check_cpu_feature\<close> loses the upper half of the feature words: it answers with the bit itself as
  an \<open>int\<close>, so a feature of the \<open>ecx\<close> half (SSE3, ...) always reads as absent.\<close>

theorem check_cpu_feature_truncates:
  "check_cpu_feature f ty \<noteq> 0 \<longleftrightarrow>
    (if ty < 64 then ty < 32 \<and> bit (feature f) ty else ty < 96 \<and> bit (extend_feature f) (ty - 64))"
  using feature_nonzero [of "feature f" ty] feature_nonzero [of "extend_feature f" "ty - 64"]
  by (auto simp: check_cpu_feature_def)

end
