(* ===== verification/Printfmt.thy ===== *)
theory Printfmt
  imports Layout "HOL-Library.Char_ord"
begin

text \<open>
  Formatted printing: \<open>src/lib/printfmt.c\<close>, with the error numbers of \<open>include/lib/error.h\<close> and the
  table of \<open>src/lib/error.c\<close>.

  A format or string argument is the list of its characters before the terminator; reading past
  the last one reads the terminator, after which the code never reads on.  The \<open>va_list\<close> is the
  list of the arguments that are left: a word of 64 bits, the size of an argument slot on x86_64,
  or a pointer to a string; \<open>VWord 0\<close> is the null pointer.  \<open>None\<close> is a fault: an argument that is
  missing or of the wrong kind.  \<open>putch\<close> and its \<open>putdat\<close> are a function on a sink state.
\<close>

section \<open>Error numbers\<close>

datatype kerror =
  E_UNSPECIFIED | E_BAD_ENV | E_INVAL | E_NO_MEM | E_NO_FREE_ENV | E_FAULT | E_IPC_NOT_RECV | E_EOF

primrec kerror_code :: "kerror \<Rightarrow> cint" where
  "kerror_code E_UNSPECIFIED = 0"
| "kerror_code E_BAD_ENV = 1"
| "kerror_code E_INVAL = 2"
| "kerror_code E_NO_MEM = 3"
| "kerror_code E_NO_FREE_ENV = 4"
| "kerror_code E_FAULT = 5"
| "kerror_code E_IPC_NOT_RECV = 6"
| "kerror_code E_EOF = 7"

definition MAXERROR :: cint where "MAXERROR = 8"

definition error_string :: "string option list" where
  "error_string =
     [Some ''unspecified error'',
      Some ''bad environment'',
      Some ''invalid parameter'',
      Some ''out of memory'',
      Some ''out of environments'',
      Some ''segmentation fault'',
      Some ''env is not recving'',
      Some ''unexpected end of file'']"

section \<open>Characters and arguments\<close>

definition uch :: "char \<Rightarrow> cint" where
  "uch c = ucast (of_char c :: u8)"

definition sch :: "char \<Rightarrow> cint" where
  "sch c = scast (of_char c :: u8)"

datatype va = VWord u64 | VStr string

fun va_int :: "va list \<Rightarrow> (cint \<times> va list) option" where
  "va_int (VWord w # ap) = Some (ucast w, ap)"
| "va_int _ = None"

fun va_long :: "va list \<Rightarrow> (u64 \<times> va list) option" where
  "va_long (VWord w # ap) = Some (w, ap)"
| "va_long _ = None"

fun va_str :: "va list \<Rightarrow> (string option \<times> va list) option" where
  "va_str (VStr p # ap) = Some (Some p, ap)"
| "va_str (VWord w # ap) = (if w = 0 then Some (None, ap) else None)"
| "va_str [] = None"

section \<open>printnum\<close>

lemma sint_pred: "0 <s w \<Longrightarrow> sint (w - 1) = sint w - 1" for w :: cint
proof -
  assume "0 <s w"
  then have w: "0 < sint w" by (simp add: word_sless_alt)
  have "sint w < 2 ^ 31" using sint_lt [of w] by simp
  then show "sint (w - 1) = sint w - 1"
    unfolding sint_word_ariths using w by (simp add: signed_take_bit_int_eq_self)
qed

function pad :: "(cint \<Rightarrow> 's \<Rightarrow> 's) \<Rightarrow> cint \<Rightarrow> cint \<Rightarrow> 's \<Rightarrow> 's" where
  "pad putch c width s = (if 0 <s width then pad putch c (width - 1) (putch c s) else s)"
  by pat_completeness auto
termination
  by (relation "measure (\<lambda>(f, c, w, s). nat (sint w))") (auto simp: sint_pred word_sless_alt)

declare pad.simps [simp del]

definition digit_chars :: string where
  "digit_chars = ''0123456789abcdef''"

definition digit_char :: "u64 \<Rightarrow> cint" where
  "digit_char d = uch (digit_chars ! unat d)"

function printnum :: "(cint \<Rightarrow> 's \<Rightarrow> 's) \<Rightarrow> 's \<Rightarrow> u64 \<Rightarrow> u64 \<Rightarrow> cint \<Rightarrow> cint \<Rightarrow> 's option" where
  "printnum putch s num base width padc =
     (if num \<ge> base
      then if base \<le> 1 then None
           else map_option (putch (digit_char (num mod base))) (printnum putch s (num div base) base (width - 1) padc)
      else Some (putch (digit_char (num mod base)) (pad putch padc (width - 1) s)))"
  by pat_completeness auto
termination
proof (relation "measure (\<lambda>(f, s, num, b, w, p). unat num)", simp, clarsimp)
  fix num b :: u64
  assume "b \<le> num" "\<not> b \<le> 1"
  then have "1 < unat b" "0 < unat num"
    by (auto simp: word_le_nat_alt)
  then show "unat (num div b) < unat num"
    by (simp add: unat_div)
qed

declare printnum.simps [simp del]

section \<open>One conversion: flags, width and precision\<close>

record escape =
  e_padc :: cint
  e_width :: cint
  e_prec :: cint
  e_lflag :: nat
  e_altflag :: bool

definition escape_init :: escape where
  "escape_init = \<lparr>e_padc = uch (CHR '' ''), e_width = -1, e_prec = -1, e_lflag = 0, e_altflag = False\<rparr>"

primrec read_precision :: "cint \<Rightarrow> cint \<Rightarrow> string \<Rightarrow> cint \<times> string" where
  "read_precision prec ch [] = (prec * 10 + ch - uch (CHR ''0''), [])"
| "read_precision prec ch (d # ds) =
     (let prec' = prec * 10 + ch - uch (CHR ''0'')
      in if sch d <s uch (CHR ''0'') \<or> uch (CHR ''9'') <s sch d then (prec', d # ds)
         else read_precision prec' (sch d) ds)"

definition process_precision :: "escape \<Rightarrow> escape" where
  "process_precision e = (if e_width e <s 0 then e\<lparr>e_width := e_prec e, e_prec := -1\<rparr> else e)"

lemma read_precision_suffix: "\<exists>pre. fmt = pre @ snd (read_precision prec ch fmt)"
  by (induction fmt arbitrary: prec ch) (auto simp: Let_def, metis append_Cons)

lemma read_precision_length: "length (snd (read_precision prec ch fmt)) \<le> length fmt"
  using read_precision_suffix [of fmt prec ch] by (metis length_append le_add2)

function scan_escape :: "escape \<Rightarrow> string \<Rightarrow> va list \<Rightarrow> (escape \<times> char \<times> string \<times> va list) option" where
  "scan_escape e [] ap = Some (e, CHR 0x00, [], ap)"
| "scan_escape e (c # fmt) ap =
     (if c = CHR ''-'' then scan_escape (e\<lparr>e_padc := uch c\<rparr>) fmt ap
      else if c = CHR ''0'' then scan_escape (e\<lparr>e_padc := uch c\<rparr>) fmt ap
      else if CHR ''1'' \<le> c \<and> c \<le> CHR ''9'' then
        scan_escape (process_precision (e\<lparr>e_prec := fst (read_precision 0 (uch c) fmt)\<rparr>))
          (snd (read_precision 0 (uch c) fmt)) ap
      else if c = CHR ''*'' then
        (case va_int ap of
           None \<Rightarrow> None
         | Some (i, ap') \<Rightarrow> scan_escape (process_precision (e\<lparr>e_prec := i\<rparr>)) fmt ap')
      else if c = CHR ''.'' then scan_escape (if e_width e <s 0 then e\<lparr>e_width := 0\<rparr> else e) fmt ap
      else if c = CHR ''#'' then scan_escape (e\<lparr>e_altflag := True\<rparr>) fmt ap
      else if c = CHR ''l'' then scan_escape (if e_lflag e < 2 then e\<lparr>e_lflag := e_lflag e + 1\<rparr> else e) fmt ap
      else Some (e, c, fmt, ap))"
  by pat_completeness auto
termination
  by (relation "measure (\<lambda>(e, fmt, ap). length fmt)")
    (auto simp: le_imp_less_Suc read_precision_length)

section \<open>The conversions\<close>

definition putstr_ch :: "bool \<Rightarrow> char \<Rightarrow> cint" where
  "putstr_ch altflag c =
     (if altflag \<and> (sch c <s uch (CHR '' '') \<or> uch (CHR ''~'') <s sch c) then uch (CHR ''?'') else sch c)"

primrec put_string :: "(cint \<Rightarrow> 's \<Rightarrow> 's) \<Rightarrow> bool \<Rightarrow> cint \<Rightarrow> cint \<Rightarrow> string \<Rightarrow> 's \<Rightarrow> 's \<times> cint" where
  "put_string putch altflag prec width [] s = (s, width)"
| "put_string putch altflag prec width (c # cs) s =
     (if prec <s 0 then put_string putch altflag prec (width - 1) cs (putch (putstr_ch altflag c) s)
      else if 0 \<le>s prec - 1 then put_string putch altflag (prec - 1) (width - 1) cs (putch (putstr_ch altflag c) s)
      else (s, width))"

definition str_nlen :: "string \<Rightarrow> size_t \<Rightarrow> cint" where
  "str_nlen p n = (if n < of_nat (length p) then ucast n else of_nat (length p))"

definition format_string :: "(cint \<Rightarrow> 's \<Rightarrow> 's) \<Rightarrow> escape \<Rightarrow> string option \<Rightarrow> 's \<Rightarrow> 's" where
  "format_string putch e arg s =
     (let p = (case arg of None \<Rightarrow> ''(null)'' | Some p \<Rightarrow> p);
          padded = (0 <s e_width e \<and> e_padc e \<noteq> uch (CHR ''-''));
          w = e_width e - str_nlen p (scast (e_prec e));
          s1 = (if padded then pad putch (e_padc e) w s else s);
          w1 = (if padded then (if 0 <s w then 0 else w) else e_width e);
          (s2, w2) = put_string putch (e_altflag e) (e_prec e) w1 p s1
      in pad putch (uch (CHR '' '')) w2 s2)"

definition va_num :: "nat \<Rightarrow> va list \<Rightarrow> (u64 \<times> va list) option" where
  "va_num lflag ap = (if lflag = 0 then map_option (map_prod ucast id) (va_int ap) else va_long ap)"

definition format_number :: "(cint \<Rightarrow> 's \<Rightarrow> 's) \<Rightarrow> escape \<Rightarrow> bool \<Rightarrow> u64 \<Rightarrow> u64 \<Rightarrow> 's \<Rightarrow> 's option" where
  "format_number putch e sgnflag base num s =
     (if sgnflag \<and> num <s 0
      then printnum putch (putch (uch (CHR ''-'')) s) (- num) base (e_width e) (e_padc e)
      else printnum putch s num base (e_width e) (e_padc e))"

definition error_text :: "cint \<Rightarrow> string option option" where
  "error_text err =
     (let err = (if err <s 0 then - err else err)
      in if MAXERROR \<le>s err then Some None
         else if err <s 0 then None else Some (error_string ! unat err))"

definition conversion_base :: "char \<Rightarrow> u64" where
  "conversion_base ch =
     (if ch = CHR ''d'' \<or> ch = CHR ''u'' then 10 else if ch = CHR ''o'' then 8 else 16)"

section \<open>vprintfmt\<close>

definition e_count :: "string \<Rightarrow> nat" where
  "e_count fmt = length (filter (\<lambda>c. c = CHR ''e'') (dropWhile (\<lambda>c. c \<noteq> CHR ''%'') fmt))"

lemma digits_suffix:
  "(\<exists>pre. snd (read_precision p d fmt) = pre @ ch # fmt') \<Longrightarrow> \<exists>pre. c # fmt = pre @ ch # fmt'"
  using read_precision_suffix [of fmt p d] by (metis append_Cons append_assoc)

lemma cons_suffix: "(\<exists>pre. fmt = pre @ ch # fmt') \<Longrightarrow> \<exists>pre. c # fmt = pre @ ch # fmt'"
  by (metis append_Cons)

lemma scan_escape_step:
  "scan_escape e (c # fmt) ap = Some r \<Longrightarrow>
     (\<exists>e1 fmt1 ap1. scan_escape e1 fmt1 ap1 = Some r \<and> (fmt1 = fmt \<or> (\<exists>p d. fmt1 = snd (read_precision p d fmt)))) \<or>
     r = (e, c, fmt, ap)"
  by (simp only: scan_escape.simps split: if_split_asm option.split_asm prod.split_asm) blast+

lemma scan_escape_suffix:
  "scan_escape e fmt ap = Some (e', ch, fmt', ap') \<Longrightarrow>
     (\<exists>pre. fmt = pre @ ch # fmt') \<or> (ch = CHR 0x00 \<and> fmt' = [])"
proof (induction "length fmt" arbitrary: e fmt ap rule: less_induct)
  case less
  show ?case
  proof (cases fmt)
    case Nil
    then show ?thesis using less.prems by simp
  next
    case (Cons c rest)
    have run: "scan_escape e (c # rest) ap = Some (e', ch, fmt', ap')"
      using less.prems by (simp only: Cons)
    consider e1 fmt1 ap1 where "scan_escape e1 fmt1 ap1 = Some (e', ch, fmt', ap')"
        "fmt1 = rest \<or> (\<exists>p d. fmt1 = snd (read_precision p d rest))"
      | "ch = c" "fmt' = rest"
      using scan_escape_step [OF run] by blast
    then show ?thesis
    proof cases
      case 1
      obtain pre where pre: "rest = pre @ fmt1"
        using 1(2) read_precision_suffix by (metis append_Nil)
      then have "(\<exists>pre. fmt1 = pre @ ch # fmt') \<or> (ch = CHR 0x00 \<and> fmt' = [])"
        using less.hyps 1(1) by (simp add: Cons)
      then show ?thesis using pre Cons by (metis append_Cons append_assoc)
    qed (auto simp: Cons)
  qed
qed

lemma filter_dropWhile_le: "length (filter P (dropWhile Q xs)) \<le> length (filter P xs)"
  by (induction xs) auto

lemma e_count_tail: "e_count fmt \<le> e_count (c # fmt)"
  by (simp add: e_count_def filter_dropWhile_le)

lemma e_count_shorter:
  "e_count fmt < e_count (c # fmt) \<or> e_count fmt = e_count (c # fmt) \<and> length fmt < length (c # fmt)"
  using e_count_tail [of fmt c] by (simp add: nat_less_le)

lemma e_count_escape:
  assumes "scan_escape e fmt ap = Some (e', ch, fmt', ap')"
  shows "e_count fmt' \<le> e_count (CHR ''%'' # fmt)"
    and "ch = CHR ''e'' \<Longrightarrow> e_count fmt' < e_count (CHR ''%'' # fmt)"
    and "length fmt' \<le> length fmt"
  using scan_escape_suffix [OF assms]
  by (auto simp: e_count_def intro: le_trans [OF filter_dropWhile_le] less_le_trans [OF le_less_trans [OF filter_dropWhile_le lessI]])

lemma e_count_literals: "e_count ''error %d'' = 0" "e_count ''%s'' = 0"
  by (simp_all add: e_count_def)

lemma escape_less:
  assumes "\<not> c \<noteq> CHR ''%''" "scan_escape e fmt ap = Some r" "(e', r1) = r" "(ch, r2) = r1" "(fmt', ap') = r2"
  shows "e_count fmt' < e_count (c # fmt) \<or> e_count fmt' = e_count (c # fmt) \<and> length fmt' < length (c # fmt)"
proof -
  have "scan_escape e fmt ap = Some (e', ch, fmt', ap')" using assms(2-5) by simp
  from e_count_escape(1,3) [OF this] assms(1) show ?thesis by (auto simp: nat_less_le)
qed

lemma escape_error_less:
  assumes "\<not> c \<noteq> CHR ''%''" "scan_escape e fmt ap = Some r" "(e', r1) = r" "(ch, r2) = r1" "(fmt', ap') = r2"
    and "ch = CHR ''e''"
  shows "0 < e_count (c # fmt)"
proof -
  have "scan_escape e fmt ap = Some (e', ch, fmt', ap')" using assms(2-5) by simp
  from e_count_escape(2) [OF this] assms(1,6) show ?thesis by (auto simp: nat_less_le)
qed

function vprintfmt :: "(cint \<Rightarrow> 's \<Rightarrow> 's) \<Rightarrow> 's \<Rightarrow> string \<Rightarrow> va list \<Rightarrow> 's option" where
  "vprintfmt putch s [] ap = Some s"
| "vprintfmt putch s (c # fmt) ap =
     (if c \<noteq> CHR ''%'' then vprintfmt putch (putch (uch c) s) fmt ap
      else case scan_escape escape_init fmt ap of
        None \<Rightarrow> None
      | Some (e, ch, fmt', ap') \<Rightarrow>
          if ch = CHR ''c'' then
            (case va_int ap' of
               None \<Rightarrow> None
             | Some (i, ap2) \<Rightarrow> vprintfmt putch (putch i s) fmt' ap2)
          else if ch = CHR ''e'' then
            (case va_int ap' of
               None \<Rightarrow> None
             | Some (err, ap2) \<Rightarrow>
                 (case error_text err of
                    None \<Rightarrow> None
                  | Some None \<Rightarrow>
                      (case vprintfmt putch s ''error %d'' [VWord (ucast (if err <s 0 then - err else err))] of
                         None \<Rightarrow> None
                       | Some s' \<Rightarrow> vprintfmt putch s' fmt' ap2)
                  | Some (Some p) \<Rightarrow>
                      (case vprintfmt putch s ''%s'' [VStr p] of
                         None \<Rightarrow> None
                       | Some s' \<Rightarrow> vprintfmt putch s' fmt' ap2)))
          else if ch = CHR ''s'' then
            (case va_str ap' of
               None \<Rightarrow> None
             | Some (arg, ap2) \<Rightarrow> vprintfmt putch (format_string putch e arg s) fmt' ap2)
          else if ch = CHR ''d'' \<or> ch = CHR ''u'' \<or> ch = CHR ''o'' \<or> ch = CHR ''p'' \<or> ch = CHR ''x'' then
            (case va_num (if ch = CHR ''p'' then 3 else e_lflag e) ap' of
               None \<Rightarrow> None
             | Some (num, ap2) \<Rightarrow>
                 (case format_number putch e (ch = CHR ''d'') (conversion_base ch) num
                    (if ch = CHR ''p'' then putch (uch (CHR ''x'')) (putch (uch (CHR ''0'')) s) else s) of
                    None \<Rightarrow> None
                  | Some s' \<Rightarrow> vprintfmt putch s' fmt' ap2))
          else if ch = CHR ''%'' then vprintfmt putch (putch (uch ch) s) fmt' ap'
          else vprintfmt putch (putch (uch (CHR ''%'')) s) fmt ap')"
  by pat_completeness auto
termination
proof (relation "measures [\<lambda>(f, s, fmt, ap). e_count fmt, \<lambda>(f, s, fmt, ap). length fmt]", goal_cases)
  case (2 putch s c fmt ap)
  then show ?case using e_count_shorter by simp
qed ((frule (5) escape_error_less, simp add: e_count_literals; fail)
    | (frule (4) escape_less, simp (no_asm) only: in_measures case_prod_conv, blast)
    | (simp (no_asm) only: in_measures case_prod_conv, insert e_count_shorter, blast) | simp)+

declare vprintfmt.simps(2) [simp del]

definition printfmt :: "(cint \<Rightarrow> 's \<Rightarrow> 's) \<Rightarrow> 's \<Rightarrow> string \<Rightarrow> va list \<Rightarrow> 's option" where
  "printfmt putch s fmt args = vprintfmt putch s fmt args"

section \<open>Printing to a buffer\<close>

record sprintbuf =
  sb_buf :: addr_t
  sb_ebuf :: addr_t
  sb_cnt :: cint

fun sprintputch :: "cint \<Rightarrow> mem \<times> sprintbuf \<Rightarrow> mem \<times> sprintbuf" where
  "sprintputch ch (m, b) =
     (if sb_buf b < sb_ebuf b
      then (m(sb_buf b := ucast ch), b\<lparr>sb_cnt := sb_cnt b + 1, sb_buf := sb_buf b + 1\<rparr>)
      else (m, b\<lparr>sb_cnt := sb_cnt b + 1\<rparr>))"

definition vsnprintf :: "mem \<Rightarrow> addr_t \<Rightarrow> cint \<Rightarrow> string \<Rightarrow> va list \<Rightarrow> (mem \<times> cint) option" where
  "vsnprintf m buf n fmt ap =
     (if buf = 0 \<or> n <s 1 then Some (m, - kerror_code E_INVAL)
      else case vprintfmt sprintputch (m, \<lparr>sb_buf = buf, sb_ebuf = buf + scast n - 1, sb_cnt = 0\<rparr>) fmt ap of
        None \<Rightarrow> None
      | Some (m', b) \<Rightarrow> Some (m'(sb_buf b := 0), sb_cnt b))"

definition snprintf :: "mem \<Rightarrow> addr_t \<Rightarrow> cint \<Rightarrow> string \<Rightarrow> va list \<Rightarrow> (mem \<times> cint) option" where
  "snprintf m buf n fmt args = vsnprintf m buf n fmt args"

lemma vprintfmt_number:
  assumes "scan_escape escape_init fmt ap = Some (e, ch, fmt', ap')"
    and "ch = CHR ''d'' \<or> ch = CHR ''u'' \<or> ch = CHR ''o'' \<or> ch = CHR ''p'' \<or> ch = CHR ''x''"
    and "va_num (if ch = CHR ''p'' then 3 else e_lflag e) ap' = Some (num, ap2)"
  shows "vprintfmt putch s (CHR ''%'' # fmt) ap =
    (case format_number putch e (ch = CHR ''d'') (conversion_base ch) num
       (if ch = CHR ''p'' then putch (uch (CHR ''x'')) (putch (uch (CHR ''0'')) s) else s) of
       None \<Rightarrow> None
     | Some s' \<Rightarrow> vprintfmt putch s' fmt' ap2)"
proof -
  have ne: "(ch = CHR ''c'') = False" "(ch = CHR ''e'') = False" "(ch = CHR ''s'') = False"
    using assms(2) by auto
  have num: "(ch = CHR ''d'' \<or> ch = CHR ''u'' \<or> ch = CHR ''o'' \<or> ch = CHR ''p'' \<or> ch = CHR ''x'') = True"
    using assms(2) by simp
  show ?thesis
    by (subst vprintfmt.simps(2)) (simp only: assms(1,3) option.case prod.case ne if_False num if_True not_True_eq_False simp_thms)
qed

section \<open>What is printed does not depend on the sink\<close>

locale sink_morphism =
  fixes putch :: "cint \<Rightarrow> 's \<Rightarrow> 's"
    and putch' :: "cint \<Rightarrow> 't \<Rightarrow> 't"
    and h :: "'s \<Rightarrow> 't"
  assumes putch_hom: "h (putch c s) = putch' c (h s)"
begin

lemma pad_hom: "f = putch \<Longrightarrow> h (pad f c w s) = pad putch' c w (h s)"
  by (induction f c w s rule: pad.induct) (subst (1 2) pad.simps, simp add: putch_hom)

lemma printnum_hom: "f = putch \<Longrightarrow> printnum putch' (h s) num b w p = map_option h (printnum f s num b w p)"
proof (induction f s num b w p rule: printnum.induct)
  case (1 f s num b w p)
  then show ?case
    by (subst (1 2) printnum.simps) (auto simp: pad_hom putch_hom option.map_comp o_def)
qed

lemma put_string_hom:
  "put_string putch' alt prec w cs (h s) = map_prod h id (put_string putch alt prec w cs s)"
  by (induction cs arbitrary: prec w s) (simp_all flip: putch_hom)

lemma format_string_hom: "format_string putch' e arg (h s) = h (format_string putch e arg s)"
  by (simp add: format_string_def Let_def split_beta put_string_hom pad_hom flip: pad_hom)

lemma format_number_hom:
  "format_number putch' e sg b num (h s) = map_option h (format_number putch e sg b num s)"
  by (simp add: format_number_def printnum_hom flip: putch_hom)

lemma start_hom:
  "(if b then putch' x (putch' y (h s)) else h s) = h (if b then putch x (putch y s) else s)"
  by (simp add: putch_hom)

lemma vprintfmt_hom: "f = putch \<Longrightarrow> vprintfmt putch' (h s) fmt ap = map_option h (vprintfmt f s fmt ap)"
proof (induction f s fmt ap rule: vprintfmt.induct)
  case (2 f s c fmt ap)
  note eq = 2(11)
  show ?case
  proof (cases "c = CHR ''%''")
    case True
    show ?thesis
    proof (cases "scan_escape escape_init fmt ap")
      case (Some r)
      obtain e ch fmt' ap' where r: "r = (e, ch, fmt', ap')" by (cases r)
      note scan = Some [unfolded r]
      consider "ch = CHR ''c''" | "ch = CHR ''e''" | "ch = CHR ''s''"
        | "ch = CHR ''d'' \<or> ch = CHR ''u'' \<or> ch = CHR ''o'' \<or> ch = CHR ''p'' \<or> ch = CHR ''x''"
        | "ch = CHR ''%''"
        | "ch \<notin> {CHR ''c'', CHR ''e'', CHR ''s'', CHR ''d'', CHR ''u'', CHR ''o'', CHR ''p'', CHR ''x'', CHR ''%''}"
        by blast
      then show ?thesis
      proof cases
        case 1
        show ?thesis
          using "2.IH"(2) [OF _ scan refl refl refl 1] True eq scan 1
          by (auto simp: vprintfmt.simps(2) putch_hom split: option.split)
      next
        case 2
        show ?thesis
        proof (cases "va_int ap'")
          case (Some a)
          obtain err ap2 where a: "a = (err, ap2)" by (cases a)
          note IH = "2.IH"(3-6) [OF _ scan refl refl refl _ 2 Some [unfolded a] refl]
          show ?thesis
          proof (cases "error_text err")
            case et: (Some t)
            show ?thesis
            proof (cases t)
              case None
              show ?thesis
                using IH(1,2) [OF _ _ et None] True eq scan 2 Some a et None
                by (auto simp: vprintfmt.simps(2) split: option.split)
            next
              case (Some p)
              show ?thesis
                using IH(3,4) [OF _ _ et Some] True eq scan 2 \<open>va_int ap' = _\<close> a et Some
                by (auto simp: vprintfmt.simps(2) split: option.split)
            qed
          qed (use True scan 2 Some a in \<open>simp add: vprintfmt.simps(2)\<close>)
        qed (use True scan 2 in \<open>simp add: vprintfmt.simps(2)\<close>)
      next
        case 3
        show ?thesis
          using "2.IH"(7) [OF _ scan refl refl refl _ _ 3] True eq scan 3
          by (auto simp: vprintfmt.simps(2) putch_hom format_string_hom split: option.split)
      next
        case 4
        show ?thesis
        proof (cases "va_num (if ch = CHR ''p'' then 3 else e_lflag e) ap'")
          case (Some a)
          obtain num ap2 where a: "a = (num, ap2)" by (cases a)
          note IH = "2.IH"(8) [OF _ scan refl refl refl _ _ _ 4 Some [unfolded a] refl]
          show ?thesis
            unfolding True vprintfmt_number [OF scan 4 Some [unfolded a]]
            unfolding eq start_hom format_number_hom
            using IH [unfolded eq] 4 True by (auto split: option.split)
        qed (use True scan 4 in \<open>auto simp: vprintfmt.simps(2)\<close>)
      next
        case 5
        show ?thesis
          using "2.IH"(9) [OF _ scan refl refl refl _ _ _ _ 5] True eq scan 5
          by (auto simp: vprintfmt.simps(2) putch_hom)
      next
        case 6
        show ?thesis
          using "2.IH"(10) [OF _ scan refl refl refl] True eq scan 6
          by (auto simp: vprintfmt.simps(2) putch_hom)
      qed
    qed (simp add: True vprintfmt.simps(2))
  next
    case False
    show ?thesis using "2.IH"(1) [OF False eq] False eq
      by (simp add: vprintfmt.simps(2) putch_hom)
  qed
qed simp

end

definition text_putch :: "cint \<Rightarrow> cint list \<Rightarrow> cint list" where
  "text_putch c out = out @ [c]"

definition vprintf_text :: "string \<Rightarrow> va list \<Rightarrow> cint list option" where
  "vprintf_text fmt ap = vprintfmt text_putch [] fmt ap"

interpretation printed: sink_morphism text_putch putch "\<lambda>cs. fold putch cs s0"
  for putch :: "cint \<Rightarrow> 's \<Rightarrow> 's" and s0
  by unfold_locales (simp add: text_putch_def)

lemma vprintfmt_text: "vprintfmt putch s fmt ap = map_option (\<lambda>cs. fold putch cs s) (vprintf_text fmt ap)"
  using printed.vprintfmt_hom [OF refl, where s = "[]" and fmt = fmt and ap = ap] by (simp add: vprintf_text_def)

section \<open>The buffer\<close>

lemma sprintputch_fold:
  assumes "unat buf + k < 2 ^ 64"
  shows "fold sprintputch cs (m, \<lparr>sb_buf = buf, sb_ebuf = buf + of_nat k, sb_cnt = 0\<rparr>) =
    (store_bytes m buf (map ucast (take k cs)),
     \<lparr>sb_buf = buf + of_nat (min k (length cs)), sb_ebuf = buf + of_nat k, sb_cnt = of_nat (length cs)\<rparr>)"
proof (induction cs rule: rev_induct)
  case (snoc c cs)
  consider "length cs < k" | "k \<le> length cs" by linarith
  then show ?case
  proof cases
    case 1
    then have "unat (buf + of_nat (length cs)) < unat (buf + of_nat k)"
      using assms by (simp add: unat_word_ariths unat_of_nat)
    then show ?thesis
      using 1 by (simp add: snoc.IH store_bytes_append word_less_nat_alt add.commute add.left_commute fun_upd_def)
  next
    case 2
    then show ?thesis by (simp add: snoc.IH min_def add.commute)
  qed
qed simp

lemma nonneg_int: "0 \<le> sint n \<Longrightarrow> sint n = int (unat n)" for n :: cint
  using sint_lt [of n] uint_sint [of n] by (simp add: take_bit_int_eq_self)

lemma vsnprintf_writes:
  assumes "buf \<noteq> 0" "1 \<le> sint n" "unat buf + unat n \<le> 2 ^ 64" "vprintf_text fmt ap = Some cs"
  shows "vsnprintf m buf n fmt ap =
    Some (store_bytes m buf (map ucast (take (unat n - 1) cs) @ [0]), of_nat (length cs))"
proof -
  have n: "sint n = int (unat n)" "0 < unat n"
    using assms(2) nonneg_int [of n] by (auto simp: unat_gt_0)
  have e: "buf + scast n - 1 = buf + of_nat (unat n - 1)"
  proof -
    have "scast n = (word_of_int (int (unat n)) :: addr_t)" by (simp only: scast_eq n(1))
    moreover have "(of_nat (unat n - 1) :: addr_t) = word_of_int (int (unat n)) - 1"
      using n(2) by (simp add: of_nat_diff Suc_leI)
    ultimately show ?thesis by simp
  qed
  have g: "\<not> n <s 1" using assms(2) by (simp add: word_sless_alt)
  have k: "unat buf + (unat n - 1) < 2 ^ 64" using assms(3) n(2) by linarith
  have l: "length (map ucast (take (unat n - 1) cs)) = min (unat n - 1) (length cs)" by (simp add: min.commute)
  show ?thesis
    unfolding vsnprintf_def vprintfmt_text assms(4) e sprintputch_fold [OF k] store_bytes_append l option.map option.case prod.case
    using assms(1) g by simp
qed

section \<open>Numbers\<close>

lemma pad_eq: "pad putch c w s = fold putch (replicate (nat (sint w)) c) s"
proof (induction putch c w s rule: pad.induct)
  case (1 putch c w s)
  show ?case
  proof (cases "0 <s w")
    case True
    then have "nat (sint w) = Suc (nat (sint (w - 1)))"
      using sint_pred by (simp add: word_sless_alt)
    then show ?thesis using 1 True by (subst pad.simps) simp
  next
    case False
    then show ?thesis by (subst pad.simps) (simp add: word_sless_alt)
  qed
qed

fun digits :: "nat \<Rightarrow> nat \<Rightarrow> nat list" where
  "digits b n = (if n < b \<or> b \<le> 1 then [n] else digits b (n div b) @ [n mod b])"

declare digits.simps [simp del]

lemma digits_val: "foldl (\<lambda>a d. a * b + d) 0 (digits b n) = n"
  by (induction b n rule: digits.induct) (subst digits.simps, simp)

lemma digits_less: "1 < b \<Longrightarrow> d \<in> set (digits b n) \<Longrightarrow> d < b"
  by (induction b n rule: digits.induct) (subst (asm) (2) digits.simps, auto split: if_splits)

lemma digits_nonempty: "digits b n \<noteq> []"
  by (subst digits.simps) simp

lemma digits_leading: "0 < n \<Longrightarrow> hd (digits b n) \<noteq> 0"
proof (induction b n rule: digits.induct)
  case (1 b n)
  then show ?case
    by (subst digits.simps) (simp add: digits_nonempty div_greater_zero_iff)
qed

lemma digits_length: "1 < b \<Longrightarrow> n < 2 ^ Suc k \<Longrightarrow> length (digits b n) \<le> Suc k"
proof (induction k arbitrary: n)
  case 0
  then show ?case by (subst digits.simps) simp
next
  case (Suc k)
  have "n div b \<le> n div 2" using Suc.prems(1) by (simp add: div_le_mono2)
  also have "\<dots> < 2 ^ Suc k" using Suc.prems(2) by auto
  finally have "length (digits b (n div b)) \<le> Suc k" using Suc.IH Suc.prems(1) by blast
  then show ?case by (subst digits.simps) simp
qed

definition number_text :: "nat \<Rightarrow> nat \<Rightarrow> int \<Rightarrow> cint \<Rightarrow> cint list" where
  "number_text b n w c =
     replicate (nat w - length (digits b n)) c @ map (\<lambda>d. digit_char (of_nat d)) (digits b n)"

lemma sint_minus_one: "- (2 ^ 31) < sint w \<Longrightarrow> sint (w - 1) = sint w - 1" for w :: cint
  unfolding sint_word_ariths using sint_lt [of w] by (simp add: signed_take_bit_int_eq_self)

lemma printnum_eq:
  assumes "1 < base" "int (length (digits (unat base) (unat num))) - 2 ^ 31 \<le> sint w"
  shows "printnum putch s num base w c = Some (fold putch (number_text (unat base) (unat num) (sint w) c) s)"
  using assms
proof (induction putch s num base w c rule: printnum.induct)
  case (1 putch s num base w c)
  have b: "1 < unat base" using 1(2) by (simp add: word_less_nat_alt)
  have m: "unat (num mod base) = unat num mod unat base" by (simp add: unat_mod)
  have w: "sint (w - 1) = sint w - 1"
    using 1(3) digits_nonempty [of "unat base" "unat num"]
    by (intro sint_minus_one) (cases "digits (unat base) (unat num)"; simp)
  have n: "nat (sint w - 1) - k = nat (sint w) - Suc k" for k by linarith
  show ?case
  proof (cases "base \<le> num")
    case True
    then have d: "digits (unat base) (unat num) = digits (unat base) (unat num div unat base) @ [unat num mod unat base]"
      using b by (subst digits.simps) (simp add: word_le_nat_alt)
    have "printnum putch s (num div base) base (w - 1) c =
      Some (fold putch (number_text (unat base) (unat (num div base)) (sint (w - 1)) c) s)"
      using 1(1) [OF True] 1(2,3) by (simp add: w unat_div d word_less_nat_alt word_le_nat_alt)
    then show ?thesis
      using True 1(2)
      by (subst printnum.simps)
        (simp add: number_text_def d w n unat_div word_less_nat_alt word_le_nat_alt flip: m)
  next
    case False
    then have "digits (unat base) (unat num) = [unat num]"
      by (subst digits.simps) (simp add: word_le_nat_alt)
    moreover have "num mod base = num" using False by (simp add: word_le_nat_alt word_arith_nat_mod)
    ultimately show ?thesis
      using False by (subst printnum.simps) (simp add: number_text_def pad_eq w n [of 0, simplified])
  qed
qed

lemma digits_u64_length:
  fixes num :: u64
  assumes "2 \<le> b"
  shows "length (digits b (unat num)) \<le> 64"
  using digits_length [of b "unat num" 63] assms unsigned_less [of num] by simp

section \<open>Properties of formatted printing\<close>

text \<open>Reading a printed number back, character by character: the digits 0 to 9 and the letters a to f.\<close>

definition char_value :: "cint \<Rightarrow> nat option" where
  "char_value c =
     (if 48 \<le> c \<and> c \<le> 57 then Some (unat c - 48) else if 97 \<le> c \<and> c \<le> 102 then Some (unat c - 87) else None)"

fun read_number :: "nat \<Rightarrow> nat \<Rightarrow> cint list \<Rightarrow> nat option" where
  "read_number b a [] = Some a"
| "read_number b a (c # cs) =
     (case char_value c of None \<Rightarrow> None | Some d \<Rightarrow> if d < b then read_number b (a * b + d) cs else None)"

lemma digit_char_value: "d < 16 \<Longrightarrow> char_value (digit_char (of_nat d)) = Some d"
proof -
  assume "d < 16"
  then have "d \<in> {0, 1, 2, 3, 4, 5, 6, 7, 8, 9, 10, 11, 12, 13, 14, 15}" by simp presburger
  then show ?thesis by (elim insertE emptyE) (simp_all add: char_value_def digit_char_def digit_chars_def uch_def)
qed

lemma read_digits:
  "b \<le> 16 \<Longrightarrow> \<forall>d \<in> set ds. d < b \<Longrightarrow>
    read_number b a (map (\<lambda>d. digit_char (of_nat d)) ds) = Some (foldl (\<lambda>a d. a * b + d) a ds)"
  by (induction ds arbitrary: a) (simp_all add: digit_char_value)

text \<open>C22: \<open>printnum\<close> prints the number: padding up to the width, then characters that read back, digit by digit, as the
  number, without a leading zero other than the number zero itself; whatever the number, the base that is used, the
  width and the sink.\<close>

theorem printnum_roundtrip:
  assumes "base \<in> {8, 10, 16}" "- 1000 \<le> sint width"
  shows "\<exists>cs. printnum putch s num base width padc =
      Some (fold putch (replicate (nat (sint width) - length cs) padc @ cs) s) \<and>
    read_number (unat base) 0 cs = Some (unat num) \<and> cs \<noteq> [] \<and> (hd cs = 48 \<longrightarrow> cs = [48] \<and> num = 0)"
proof -
  let ?ns = "digits (unat base) (unat num)"
  let ?cs = "map (\<lambda>d. digit_char (of_nat d)) ?ns"
  have b: "1 < base" "2 \<le> unat base" "unat base \<le> 16" using assms(1) by auto
  have "length ?ns \<le> 64" by (rule digits_u64_length [OF b(2)])
  then have run: "printnum putch s num base width padc =
      Some (fold putch (replicate (nat (sint width) - length ?cs) padc @ ?cs) s)"
    using assms(2) printnum_eq [OF b(1), of num width putch s padc] by (simp add: number_text_def)
  have lt: "d < unat base" if "d \<in> set ?ns" for d
    using digits_less that b(2) by simp
  have read: "read_number (unat base) 0 ?cs = Some (unat num)"
    using read_digits [OF b(3), of ?ns 0] lt by (simp add: digits_val)
  have zero: "?cs = [48] \<and> num = 0" if "hd ?cs = 48"
  proof -
    have "char_value (hd ?cs) = Some (hd ?ns)"
      using digit_char_value [of "hd ?ns"] lt [OF hd_in_set [OF digits_nonempty]] b(3) by (simp add: hd_map digits_nonempty)
    then have "hd ?ns = 0" using that by (simp add: char_value_def)
    then have "num = 0" using digits_leading [of "unat num" "unat base"] b(2) by (metis neq0_conv unat_eq_0)
    then show ?thesis using b(2) by (simp add: digits.simps digit_char_def digit_chars_def uch_def)
  qed
  show ?thesis
    using run read zero digits_nonempty [of "unat base" "unat num"] by (intro exI [of _ ?cs]) simp
qed

theorem printnum_roundtrip_witness:
  "\<exists>cs. printnum text_putch [] 0xCAFE 16 6 32 = Some (replicate (6 - length cs) 32 @ cs) \<and> read_number 16 0 cs = Some 0xCAFE"
proof -
  have t: "fold text_putch xs ys = ys @ xs" for xs ys by (induction xs arbitrary: ys) (simp_all add: text_putch_def)
  have "sint (6 :: cint) = 6" by simp
  then obtain cs where "printnum text_putch [] 0xCAFE 16 6 32 = Some (fold text_putch (replicate (nat (sint (6 :: cint)) - length cs) 32 @ cs) [])"
      "read_number 16 0 cs = Some 0xCAFE"
    using printnum_roundtrip [of 16 6 text_putch "[]" "0xCAFE" 32] by auto
  then show ?thesis unfolding t by (intro exI [of _ cs]) simp
qed

lemma store_bytes_beyond:
  assumes "length bs \<le> unat (a - p)"
  shows "store_bytes m p bs a = m a"
proof (rule store_bytes_other)
  fix i
  assume i: "i < length bs"
  show "a \<noteq> p + of_nat i"
  proof
    assume "a = p + of_nat i"
    then have "unat (a - p) \<le> i" by (simp add: unat_of_nat)
    then show False using assms i by simp
  qed
qed

text \<open>C23: a formatted text goes to the buffer up to n - 1 characters, a terminator follows it, no byte
  outside the n bytes of the buffer changes, and the result is the length of the whole text.\<close>

theorem vsnprintf_bounded:
  assumes "buf \<noteq> 0" "1 \<le> sint n" "unat buf + unat n \<le> 2 ^ 64" "vprintf_text fmt ap = Some cs"
  shows "\<exists>m'. vsnprintf m buf n fmt ap = Some (m', of_nat (length cs)) \<and>
    m' = store_bytes m buf (map ucast (take (unat n - 1) cs) @ [0]) \<and>
    (\<forall>a. unat n \<le> unat (a - buf) \<longrightarrow> m' a = m a)"
proof -
  have "0 < unat n" using assms(2) nonneg_int [of n] by (auto simp: unat_gt_0)
  then have "length (map ucast (take (unat n - 1) cs) @ [0] :: u8 list) \<le> unat n" by simp
  then have "store_bytes m buf (map ucast (take (unat n - 1) cs) @ [0]) a = m a"
    if "unat n \<le> unat (a - buf)" for a
    using that by (intro store_bytes_beyond) linarith
  then show ?thesis using vsnprintf_writes [OF assms] by blast
qed

lemmas print_evals = vprintf_text_def vprintfmt.simps(2) escape_init_def process_precision_def format_number_def
  va_num_def conversion_base_def printnum.simps pad_eq uch_def digit_char_def digit_chars_def text_putch_def
  word_sless_alt

lemma print_two_digits: "vprintf_text ''%0*d'' [VWord 2, VWord 7] = Some [48, 55]"
  by (simp add: print_evals)

theorem vsnprintf_bounded_witness:
  "\<exists>m'. vsnprintf (\<lambda>_. 0) 4096 2 ''%0*d'' [VWord 2, VWord 7] = Some (m', 2) \<and> m' 4096 = 48 \<and> m' 4097 = 0"
  using vsnprintf_bounded [OF _ _ _ print_two_digits, of 4096 2 "\<lambda>_. 0"] by auto

end
