(* ===== verification/Calendar.thy ===== *)
theory Calendar
  imports Printfmt "HOL-Library.Signed_Division"
begin

text \<open>
  Calendar time: \<open>src/lib/time.c\<close> and \<open>include/lib/time.h\<close>.  Time stamps are the 32-bit seconds of
  the C code, the fields of \<open>struct tm\<close> its 32-bit \<open>int\<close>s.
\<close>

section \<open>struct tm\<close>

record tm =
  tm_sec :: cint
  tm_min :: cint
  tm_hour :: cint
  tm_mday :: cint
  tm_mon :: cint
  tm_year :: cint
  tm_wday :: cint
  tm_yday :: cint
  tm_isdst :: cint
  tm_gmtoff :: u64
  tm_zone :: addr_t

definition LOCAL_TIMEZONE :: u64 where "LOCAL_TIMEZONE = 8"

definition c_div :: "cint \<Rightarrow> cint \<Rightarrow> cint" where
  "c_div a b = word_of_int (sint a sdiv sint b)"

definition c_mod :: "cint \<Rightarrow> cint \<Rightarrow> cint" where
  "c_mod a b = word_of_int (sint a smod sint b)"

section \<open>mktime\<close>

definition mktime :: "tm \<Rightarrow> u32" where
  "mktime time =
     (let mon = tm_mon time + 1;
          year = tm_year time + 1900;
          mon2 = mon - 2;
          (mon3, year3) = (if mon2 \<le>s 0 then (mon2 + 12, year - 1) else (mon2, year));
          days = ucast (year3 div 4 - year3 div 100 + year3 div 400 + 367 * mon3 div 12 + tm_mday time)
                 + ucast (year3 * 365) - 719499;
          hours = days * 24 + ucast (tm_hour time);
          minutes = hours * 60 + ucast (tm_min time);
          seconds = minutes * 60 + ucast (tm_sec time) - tm_gmtoff time
      in ucast (seconds :: u64))"

section \<open>gmtime and localtime\<close>

definition leap_year :: "cint \<Rightarrow> bool" where
  "leap_year year \<longleftrightarrow> (c_mod year 4 = 0 \<and> c_mod year 100 \<noteq> 0) \<or> c_mod (year + 300) 400 = 0"

definition year_days :: "cint \<Rightarrow> cint" where
  "year_days year = 365 + (if leap_year year then 1 else 0)"

definition month_table :: "u8 list" where
  "month_table = [31, 28, 31, 30, 31, 30, 31, 31, 30, 31, 30, 31]"

definition month_days :: "bool \<Rightarrow> cint \<Rightarrow> cint option" where
  "month_days leap mon =
     (if unat mon < length month_table
      then Some (ucast (month_table ! unat mon) + (if leap \<and> mon = 1 then 1 else 0))
      else None)"

lemma unat_sub_less: "0 < d \<Longrightarrow> d \<le> l \<Longrightarrow> unat (l - d) < unat l" for d l :: "'a::len word"
  by (simp add: unat_sub word_le_nat_alt word_less_nat_alt)

lemma month_table_length: "length month_table = 12"
  by (simp add: month_table_def)

lemma month_table_entry:
  assumes "k < 12"
  shows "unat (ucast (month_table ! k) + (if b then 1 else 0) :: cint) = unat (month_table ! k) + of_bool b"
    and "28 \<le> unat (month_table ! k)"
proof -
  have "\<forall>x\<in>set month_table. 28 \<le> unat x \<and> unat (ucast x + 1 :: cint) = unat x + 1 \<and> unat (ucast x :: cint) = unat x"
    by (simp add: month_table_def)
  moreover have "month_table ! k \<in> set month_table" using assms by (simp only: nth_mem month_table_length)
  ultimately show "unat (ucast (month_table ! k) + (if b then 1 else 0) :: cint) = unat (month_table ! k) + of_bool b"
    and "28 \<le> unat (month_table ! k)" by auto
qed

lemma month_days_pos: "month_days leap mon = Some d \<Longrightarrow> 0 < d"
  using month_table_entry(1) [of "unat mon" "leap \<and> mon = 1"] month_table_entry(2) [of "unat mon"]
  by (auto simp: month_days_def word_less_nat_alt month_table_length split: if_splits)

function year_loop :: "cint \<Rightarrow> u32 \<Rightarrow> cint \<times> u32" where
  "year_loop year localtime =
     (if year_days year \<le> localtime then year_loop (year + 1) (localtime - year_days year) else (year, localtime))"
  by pat_completeness auto
termination
  by (relation "measure (\<lambda>(y, l). unat l)") (auto intro!: unat_sub_less simp: year_days_def)

function month_loop :: "bool \<Rightarrow> cint \<Rightarrow> u32 \<Rightarrow> (cint \<times> u32) option" where
  "month_loop leap mon localtime =
     (case month_days leap mon of
        None \<Rightarrow> None
      | Some mdays \<Rightarrow>
          if mdays \<le> localtime then month_loop leap (mon + 1) (localtime - mdays) else Some (mon, localtime))"
  by pat_completeness auto
termination
  by (relation "measure (\<lambda>(b, m, l). unat l)") (auto intro!: unat_sub_less dest: month_days_pos)

declare year_loop.simps [simp del] month_loop.simps [simp del]

definition days_four_year :: cint where "days_four_year = 1461"

definition gmtime_at :: "u32 \<Rightarrow> tm \<Rightarrow> tm option" where
  "gmtime_at timestamp tm_time =
     (let secs = ucast (ucast timestamp + tm_gmtoff tm_time) :: u32;
          mins = secs div 60;
          hours = mins div 60;
          days = hours div 24;
          days1900 = days + 25567;
          year0 = push_bit 2 (days1900 div days_four_year);
          rest = days1900 mod days_four_year + (c_div (year0 + 99) 100 - c_div (year0 + 299) 400);
          (year, yday) = year_loop year0 rest
      in case month_loop (leap_year year) 0 yday of
           None \<Rightarrow> None
         | Some (mon, d) \<Rightarrow>
             Some (tm_time\<lparr>tm_sec := secs mod 60, tm_min := mins mod 60, tm_hour := hours mod 24,
                     tm_wday := c_mod (days + 4) 7, tm_year := year, tm_yday := yday,
                     tm_mon := mon, tm_mday := d + 1\<rparr>))"

definition gmtime :: "u32 \<Rightarrow> tm \<Rightarrow> tm option" where
  "gmtime timestamp tm_time = gmtime_at timestamp (tm_time\<lparr>tm_gmtoff := 0\<rparr>)"

definition localtime :: "u32 \<Rightarrow> tm \<Rightarrow> tm option" where
  "localtime timestamp tm_time = gmtime_at timestamp (tm_time\<lparr>tm_gmtoff := LOCAL_TIMEZONE * 3600\<rparr>)"

section \<open>strftime\<close>

definition strftime_field :: "char \<Rightarrow> tm \<Rightarrow> (cint \<times> cint) option" where
  "strftime_field c t =
     (if c = CHR ''d'' then Some (2, tm_mday t)
      else if c = CHR ''H'' then Some (2, tm_hour t)
      else if c = CHR ''I'' then Some (2, c_mod (tm_hour t + 11) 12 + 1)
      else if c = CHR ''M'' then Some (2, tm_min t)
      else if c = CHR ''m'' then Some (2, tm_mon t + 1)
      else if c = CHR ''S'' then Some (2, tm_sec t)
      else if c = CHR ''Y'' then Some (0, tm_year t + 1900)
      else if c = CHR ''y'' then Some (2, c_mod (tm_year t + 1900) 100)
      else None)"

fun strftime_loop :: "mem \<Rightarrow> addr_t \<Rightarrow> cint \<Rightarrow> addr_t \<Rightarrow> string \<Rightarrow> tm \<Rightarrow> (mem \<times> addr_t) option" where
  "strftime_loop m s max_n p [] t = Some (m, p)"
| "strftime_loop m s max_n p (c # fmt) t =
     (if c \<noteq> CHR ''%'' then strftime_loop (m(p := of_char c)) s max_n (p + 1) fmt t
      else case fmt of
        [] \<Rightarrow> None
      | d # fmt' \<Rightarrow>
          if d = CHR ''%'' then strftime_loop (m(p := of_char d)) s max_n (p + 1) fmt' t
          else case strftime_field d t of
            None \<Rightarrow> strftime_loop m s max_n p fmt' t
          | Some (alignz, v) \<Rightarrow>
              (case snprintf m p (ucast (scast max_n - (p - s))) ''%0*d'' [VWord (ucast alignz), VWord (ucast v)] of
                 None \<Rightarrow> None
               | Some (m', n) \<Rightarrow> strftime_loop m' s max_n (p + scast n) fmt' t))"

definition strftime :: "mem \<Rightarrow> addr_t \<Rightarrow> cint \<Rightarrow> string \<Rightarrow> tm \<Rightarrow> (mem \<times> cint) option" where
  "strftime m s max_n fmt t =
     (case strftime_loop m s max_n s fmt t of None \<Rightarrow> None | Some (m', p) \<Rightarrow> Some (m', ucast (p - s)))"

section \<open>Days of years and months\<close>

definition leap :: "nat \<Rightarrow> bool" where
  "leap n \<longleftrightarrow> (n mod 4 = 0 \<and> n mod 100 \<noteq> 0) \<or> (n + 300) mod 400 = 0"

definition days_before :: "nat \<Rightarrow> int" where
  "days_before n = int (365 * n + (n + 3) div 4 + (n + 299) div 400) - int ((n + 99) div 100)"

lemma div_step: "0 < d \<Longrightarrow> (n + d) div d = (n + (d - 1)) div d + of_bool (n mod d = 0)" for n d :: nat
  using div_Suc [of "n + (d - 1)" d] by (auto simp del: div_add_self2)

lemma century_leap: "(n + 300) mod 400 = 0 \<Longrightarrow> n mod 100 = 0" for n :: nat
proof -
  assume "(n + 300) mod 400 = 0"
  then obtain k where "n + 300 = 400 * k" using mod_0_imp_dvd dvd_def by blast
  then have "n = 100 * (4 * k - 3)" by linarith
  then show ?thesis by (simp only: mod_mult_self1_is_0)
qed

lemma century_four: "n mod 100 = 0 \<Longrightarrow> n mod 4 = 0" for n :: nat
  using mod_mult2_eq [of n 4 25] by simp

lemma leap_of_bool:
  "of_bool (n mod 4 = 0) + of_bool ((n + 300) mod 400 = 0) = of_bool (n mod 100 = 0) + (of_bool (leap n) :: nat)"
  unfolding leap_def using century_leap [of n] century_four [of n]
  by (cases "n mod 4 = 0"; cases "n mod 100 = 0"; cases "(n + 300) mod 400 = 0") simp_all

lemma leap_inc: "(n + 4) div 4 + (n + 300) div 400 + (n + 99) div 100
  = (n + 3) div 4 + (n + 299) div 400 + (n + 100) div 100 + of_bool (leap n)"
proof -
  have e: "Suc (n + 299) = n + 300" "n + (4 - 1) = n + 3" "n + (100 - 1) = n + 99" by simp_all
  have "(n + 4) div 4 = (n + 3) div 4 + of_bool (n mod 4 = 0)"
    using div_step [of 4 n] unfolding e by simp
  moreover have "(n + 100) div 100 = (n + 99) div 100 + of_bool (n mod 100 = 0)"
    using div_step [of 100 n] unfolding e by simp
  moreover have "(n + 300) div 400 = (n + 299) div 400 + of_bool ((n + 300) mod 400 = 0)"
    using div_Suc [of "n + 299" 400] unfolding e by simp
  ultimately show ?thesis using leap_of_bool [of n] by linarith
qed

lemma days_before_Suc: "days_before (Suc n) = days_before n + 365 + of_bool (leap n)"
proof -
  have s: "Suc n + 3 = n + 4" "Suc n + 299 = n + 300" "Suc n + 99 = n + 100" by simp_all
  show ?thesis
    unfolding days_before_def s using leap_inc [of n, THEN arg_cong, of int] by simp
qed

section \<open>The loops\<close>

lemma sint_of_nat: "n < 2 ^ 31 \<Longrightarrow> sint (of_nat n :: cint) = int n"
  by (simp add: signed_of_nat signed_take_bit_int_eq_self)

lemma c_mod_of_nat:
  assumes "n < 2 ^ 31" "k < 2 ^ 31"
  shows "c_mod (of_nat n) (of_nat k) = of_nat (n mod k)"
  using assms by (simp add: c_mod_def sint_of_nat signed_modulo_int_def flip: zmod_int)

lemma c_div_of_nat:
  assumes "n < 2 ^ 31" "k < 2 ^ 31"
  shows "c_div (of_nat n) (of_nat k) = of_nat (n div k)"
  using assms by (cases "n = 0 \<or> k = 0") (auto simp: c_div_def sint_of_nat signed_divide_int_def simp flip: zdiv_int)

lemma leap_year_of_nat:
  assumes "n < 2 ^ 20"
  shows "leap_year (of_nat n) \<longleftrightarrow> leap n"
proof -
  have "c_mod (of_nat n) 4 = of_nat (n mod 4)" "c_mod (of_nat n) 100 = of_nat (n mod 100)"
      "c_mod (of_nat n + 300) 400 = of_nat ((n + 300) mod 400)"
    using c_mod_of_nat [of n 4] c_mod_of_nat [of n 100] c_mod_of_nat [of "n + 300" 400] assms by auto
  moreover have "(of_nat (n mod k) :: cint) = 0 \<longleftrightarrow> n mod k = 0" if "0 < k" "k < 2 ^ 20" for n k
  proof -
    have "n mod k < 2 ^ 32" using that(2) less_trans [OF mod_less_divisor [OF that(1), of n]] by simp
    then have "unat (of_nat (n mod k) :: cint) = n mod k" by (simp add: unat_of_nat)
    then show ?thesis by (metis unat_eq_zero)
  qed
  ultimately show ?thesis by (simp add: leap_year_def leap_def)
qed

lemma year_days_of_nat: "n < 2 ^ 20 \<Longrightarrow> year_days (of_nat n) = of_nat (365 + of_bool (leap n))"
  by (simp add: year_days_def leap_year_of_nat)

lemma year_loop_of_nat:
  "365 * y + l < 2 ^ 18 \<Longrightarrow>
     \<exists>y' l'. year_loop (of_nat y) (of_nat l) = (of_nat y', of_nat l') \<and> l' < 365 + of_bool (leap y') \<and>
       days_before y + int l = days_before y' + int l' \<and> y \<le> y' \<and> 365 * y' + l' \<le> 365 * y + l"
proof (induction l arbitrary: y rule: less_induct)
  case (less l)
  let ?d = "365 + of_bool (leap y) :: nat"
  have yd: "year_days (of_nat y) = of_nat ?d" using less.prems by (intro year_days_of_nat) simp
  have cmp: "(of_nat ?d :: u32) \<le> of_nat l \<longleftrightarrow> ?d \<le> l"
    using less.prems by (simp add: word_le_nat_alt unat_of_nat)
  show ?case
  proof (cases "?d \<le> l")
    case True
    have "365 * Suc y + (l - ?d) < 2 ^ 18" using less.prems True by simp
    then obtain y' l' where IH: "year_loop (of_nat (Suc y)) (of_nat (l - ?d)) = (of_nat y', of_nat l')"
        "l' < 365 + of_bool (leap y')" "days_before (Suc y) + int (l - ?d) = days_before y' + int l'"
        "Suc y \<le> y'" "365 * y' + l' \<le> 365 * Suc y + (l - ?d)"
      using less.IH [of "l - ?d" "Suc y"] True by (meson diff_less less_le_trans zero_less_numeral add_pos_nonneg zero_le)
    have "year_loop (of_nat y) (of_nat l) = year_loop (of_nat (Suc y)) (of_nat (l - ?d))"
      using True cmp by (subst year_loop.simps) (simp add: yd add.commute)
    then show ?thesis
      using IH True by (intro exI [of _ y'] exI [of _ l']) (auto simp: days_before_Suc)
  next
    case False
    then show ?thesis
      using cmp by (intro exI [of _ y] exI [of _ l], subst year_loop.simps) (simp add: yd)
  qed
qed

definition month_length :: "bool \<Rightarrow> nat \<Rightarrow> nat" where
  "month_length b k = unat (month_table ! k) + of_bool (b \<and> k = 1)"

definition month_before :: "bool \<Rightarrow> nat \<Rightarrow> nat" where
  "month_before b k = [0, 31, 59, 90, 120, 151, 181, 212, 243, 273, 304, 334, 365] ! k + of_bool (b \<and> 2 \<le> k)"

lemma twelve_cases:
  fixes k :: nat
  assumes "k < 12"
  obtains "k = 0" | "k = 1" | "k = 2" | "k = 3" | "k = 4" | "k = 5" | "k = 6" | "k = 7" | "k = 8" | "k = 9" | "k = 10" | "k = 11"
proof -
  have "k = 0 \<or> k = 1 \<or> k = 2 \<or> k = 3 \<or> k = 4 \<or> k = 5 \<or> k = 6 \<or> k = 7 \<or> k = 8 \<or> k = 9 \<or> k = 10 \<or> k = 11"
    using assms by presburger
  then show thesis using that by blast
qed

lemma month_before_Suc: "k < 12 \<Longrightarrow> month_before b (k + 1) = month_before b k + month_length b k"
  by (erule twelve_cases) (simp_all add: month_before_def month_length_def month_table_def)

lemma month_days_of_nat:
  assumes "k < 12"
  shows "month_days b (of_nat k) = Some (of_nat (month_length b k))"
proof -
  have k: "unat (of_nat k :: cint) = k" "(of_nat k :: cint) = 1 \<longleftrightarrow> k = 1"
    using assms by (simp_all add: unat_of_nat word_unat_eq_iff)
  have "ucast (month_table ! k) + (if b \<and> k = 1 then 1 else 0) = (of_nat (month_length b k) :: cint)"
    unfolding month_length_def month_table_entry(1) [OF assms, of "b \<and> k = 1", symmetric] by simp
  then show ?thesis by (simp add: month_days_def k month_table_length assms)
qed

lemma month_before_year: "month_before b 0 = 0" "month_before b 12 = 365 + of_bool b"
  by (simp_all add: month_before_def)

lemma month_loop_of_nat:
  "k < 12 \<Longrightarrow> month_before b k + l < 365 + of_bool b \<Longrightarrow>
     \<exists>k' d. month_loop b (of_nat k) (of_nat l) = Some (of_nat k', of_nat d) \<and> k' < 12 \<and>
       d < month_length b k' \<and> month_before b k + l = month_before b k' + d"
proof (induction l arbitrary: k rule: less_induct)
  case (less l)
  let ?d = "month_length b k"
  have pos: "0 < ?d" using month_table_entry(2) [OF less.prems(1)] by (simp add: month_length_def)
  have nxt: "month_before b (k + 1) = month_before b k + ?d" by (rule month_before_Suc [OF less.prems(1)])
  have small: "?d \<le> 32" using less.prems(1) by (erule_tac twelve_cases) (simp_all add: month_length_def month_table_def)
  have "l < 366" using less.prems(2) by (cases b) simp_all
  then have "l < 2 ^ 32" by simp
  then have cmp: "(of_nat ?d :: u32) \<le> of_nat l \<longleftrightarrow> ?d \<le> l"
    using small by (simp add: word_le_nat_alt unat_of_nat)
  show ?case
  proof (cases "?d \<le> l")
    case True
    have k1: "k + 1 < 12"
    proof (rule ccontr)
      assume "\<not> k + 1 < 12"
      then have "k + 1 = 12" using less.prems(1) by simp
      then show False using nxt month_before_year(2) [of b] less.prems(2) True by simp
    qed
    have bnd: "month_before b (k + 1) + (l - ?d) < 365 + of_bool b" using nxt True less.prems(2) by simp
    have lt: "l - ?d < l" using pos True by simp
    obtain k' d where IH: "month_loop b (of_nat (k + 1)) (of_nat (l - ?d)) = Some (of_nat k', of_nat d)"
        "k' < 12" "d < month_length b k'" "month_before b (k + 1) + (l - ?d) = month_before b k' + d"
      using less.IH [OF lt k1 bnd] by blast
    have "month_loop b (of_nat k) (of_nat l) = month_loop b (of_nat (k + 1)) (of_nat (l - ?d))"
      using True cmp by (subst month_loop.simps) (simp add: month_days_of_nat [OF less.prems(1)] add.commute)
    then show ?thesis using IH nxt True by (intro exI [of _ k'] exI [of _ d]) auto
  next
    case False
    then show ?thesis
      using cmp less.prems(1) by (intro exI [of _ k] exI [of _ l], subst month_loop.simps)
        (simp add: month_days_of_nat [OF less.prems(1)])
  qed
qed

section \<open>mktime inverts gmtime\<close>

lemma take_bit_32_64:
  "take_bit 32 (take_bit 64 a - take_bit 64 b) = take_bit 32 (a - b)"
  "take_bit 32 (take_bit 64 a + take_bit 64 b) = take_bit 32 (a + b)" for a b :: int
proof -
  have t: "take_bit 32 (take_bit 64 x) = take_bit 32 x" for x :: int by (simp add: take_bit_take_bit)
  show "take_bit 32 (take_bit 64 a - take_bit 64 b) = take_bit 32 (a - b)"
    using take_bit_diff [of 32 "take_bit 64 a" "take_bit 64 b"] unfolding t by (simp only: take_bit_diff)
  show "take_bit 32 (take_bit 64 a + take_bit 64 b) = take_bit 32 (a + b)"
    using take_bit_add [of 32 "take_bit 64 a" "take_bit 64 b"] unfolding t by (simp only: take_bit_add)
qed

lemma ucast_down_sub: "(ucast (a - b) :: u32) = ucast a - ucast b" for a b :: u64
  by transfer (simp add: take_bit_32_64)

lemma ucast_down_add: "(ucast (a + b) :: u32) = ucast a + ucast b" for a b :: u64
  by transfer (simp add: take_bit_32_64)

lemma ucast_up_down: "(ucast (ucast a :: u64) :: u32) = a"
  by transfer simp

lemma days_civil_early:
  assumes "k \<le> 1"
  shows "int ((y + 1899) div 4) - int ((y + 1899) div 100) + int ((y + 1899) div 400) + int (367 * (k + 11) div 12)
     + int (d + 1) + int ((y + 1899) * 365) - 719499 = days_before y + int (month_before b k) + int d - 25567"
proof -
  have "(y + 1899) div 4 = 474 + (y + 3) div 4" "(y + 1899) div 100 = 18 + (y + 99) div 100"
      "(y + 1899) div 400 = 4 + (y + 299) div 400"
    using div_mult_self3 [of 4 474 "y + 3"] div_mult_self3 [of 100 18 "y + 99"] div_mult_self3 [of 400 4 "y + 299"]
    by simp_all
  moreover have "k = 0 \<or> k = 1" using assms by linarith
  ultimately show ?thesis by (auto simp: days_before_def month_before_def)
qed

lemma month_formula:
  assumes "2 \<le> k" "k < 12"
  shows "367 * (k - 1) div 12 + 29 + of_bool b = month_before b k"
  by (cases rule: twelve_cases [OF assms(2)]) (use assms(1) in \<open>simp_all add: month_before_def\<close>)

lemma days_civil_late:
  assumes "2 \<le> k" "k < 12"
  shows "int ((y + 1900) div 4) - int ((y + 1900) div 100) + int ((y + 1900) div 400) + int (367 * (k - 1) div 12)
     + int (d + 1) + int ((y + 1900) * 365) - 719499 = days_before y + int (month_before (leap y) k) + int d - 25567"
proof -
  have "(y + 1900) div 4 = 474 + (y + 4) div 4" "(y + 1900) div 100 = 18 + (y + 100) div 100"
      "(y + 1900) div 400 = 4 + (y + 300) div 400"
    using div_mult_self3 [of 4 474 "y + 4"] div_mult_self3 [of 100 18 "y + 100"] div_mult_self3 [of 400 4 "y + 300"]
    by (simp_all add: add.commute)
  then show ?thesis
    using leap_inc [of y, THEN arg_cong, of int] month_formula [OF assms, of "leap y", symmetric]
    by (simp add: days_before_def)
qed

lemma year_start:
  fixes k :: nat
  assumes "17 \<le> k" "k \<le> 51"
  shows "(4 * k + 299) div 400 \<le> (4 * k + 99) div 100" "(4 * k + 99) div 100 \<le> 3"
proof -
  have "(4 * k + 299) div 400 \<le> 503 div 400" using assms by (intro div_le_mono) simp
  moreover have "167 div 100 \<le> (4 * k + 99) div 100" using assms by (intro div_le_mono) simp
  ultimately show "(4 * k + 299) div 400 \<le> (4 * k + 99) div 100" by simp
  have "(4 * k + 99) div 100 \<le> 303 div 100" using assms by (intro div_le_mono) simp
  then show "(4 * k + 99) div 100 \<le> 3" by simp
qed

lemma year_start_word:
  assumes "17 \<le> k" "k \<le> 51" "r < 1461"
  shows "of_nat r + (c_div (of_nat (4 * k) + 99) 100 - c_div (of_nat (4 * k) + 299) 400)
    = of_nat (r + ((4 * k + 99) div 100 - (4 * k + 299) div 400))"
proof -
  have "c_div (of_nat (4 * k) + 99) 100 = of_nat ((4 * k + 99) div 100)"
      "c_div (of_nat (4 * k) + 299) 400 = of_nat ((4 * k + 299) div 400)"
    using c_div_of_nat [of "4 * k + 99" 100] c_div_of_nat [of "4 * k + 299" 400] assms by simp_all
  then show ?thesis using year_start(1) [OF assms(1,2)] by (simp add: of_nat_diff)
qed

lemma gmtime_at_fields:
  fixes ts :: u32 and t :: tm
  defines "secs \<equiv> ucast (ucast ts + tm_gmtoff t) :: u32"
  shows "\<exists>y k d w yd. gmtime_at ts t = Some (t\<lparr>tm_sec := secs mod 60, tm_min := secs div 60 mod 60,
      tm_hour := secs div 60 div 60 mod 24, tm_wday := w, tm_year := of_nat y, tm_yday := of_nat yd,
      tm_mon := of_nat k, tm_mday := of_nat d + 1\<rparr>) \<and>
    w < 7 \<and> y < 300 \<and> yd < 366 \<and> k < 12 \<and> d < month_length (leap y) k \<and> yd = month_before (leap y) k + d \<and>
    days_before y + int yd = int (unat secs div 86400 + 25567)"
proof -
  define D where "D = unat secs div 86400"
  define K where "K = (D + 25567) div 1461"
  define r where "r = (D + 25567) mod 1461"
  define R where "R = r + ((4 * K + 99) div 100 - (4 * K + 299) div 400)"
  have "unat secs \<le> 4294967295" using unsigned_less [of secs, where ?'a = nat] by simp
  then have D: "D \<le> 49710" unfolding D_def using div_le_mono [of _ 4294967295 86400] by fastforce
  have K: "17 \<le> K" "K \<le> 51"
    using D div_le_mono [of 25567 "D + 25567" 1461] div_le_mono [of "D + 25567" 75277 1461] by (simp_all add: K_def)
  have r: "r < 1461" by (simp add: r_def)
  have N: "D + 25567 = 1461 * K + r" by (simp add: K_def r_def)
  have R: "days_before (4 * K) + int R = int (D + 25567)"
    using year_start(1) [OF K] unfolding days_before_def R_def N by (simp add: of_nat_diff)
  have R2: "R < 2000" using year_start(2) [OF K] r by (simp add: R_def)
  then obtain y l where yl: "year_loop (of_nat (4 * K)) (of_nat R) = (of_nat y, of_nat l)"
      "l < 365 + of_bool (leap y)" "days_before (4 * K) + int R = days_before y + int l" "365 * y + l \<le> 365 * (4 * K) + R"
    using year_loop_of_nat [of "4 * K" R] K by auto
  obtain k d where kd: "month_loop (leap y) 0 (of_nat l) = Some (of_nat k, of_nat d)" "k < 12"
      "d < month_length (leap y) k" "l = month_before (leap y) k + d"
    using month_loop_of_nat [of 0 "leap y" l] yl(2) by (auto simp: month_before_year)
  have y: "y < 300" using yl(4) K R2 by linarith
  have days: "secs div 60 div 60 div 24 = of_nat D"
  proof -
    have "unat (secs div 60 div 60 div 24) = D" by (simp add: unat_div D_def flip: div_mult2_eq)
    then show ?thesis using D by (simp add: word_unat_eq_iff unat_of_nat)
  qed
  have N32: "D + 25567 < 2 ^ 32" using D by simp
  have days1900: "(of_nat D + 25567 :: u32) div 1461 = of_nat K" "(of_nat D + 25567 :: u32) mod 1461 = of_nat r"
    using N32 by (simp_all add: word_unat_eq_iff unat_div unat_mod K_def r_def unat_of_nat unat_word_ariths)
  have year0: "push_bit 2 (of_nat K :: u32) = of_nat (4 * K)" by (simp add: push_bit_eq_mult mult.commute)
  have wday: "c_mod (of_nat D + 4) 7 < 7"
    using c_mod_of_nat [of "D + 4" 7] D by (simp add: word_less_nat_alt unat_of_nat)
  have "l < 366" using yl(2) by (cases "leap y") simp_all
  have ly: "leap_year (of_nat y) = leap y" using y by (intro leap_year_of_nat) simp
  show ?thesis
    using kd yl(3) wday y \<open>l < 366\<close> R
    unfolding gmtime_at_def Let_def secs_def [symmetric] days days_four_year_def days1900 year0
      year_start_word [OF K r] R_def [symmetric] yl(1) prod.case ly kd(1) option.case D_def [symmetric]
    by (intro exI [of _ y] exI [of _ k] exI [of _ d] exI [of _ "c_mod (of_nat D + 4) 7"] exI [of _ l]) auto
qed

lemma udiv_of_nat: "n < 2 ^ 32 \<Longrightarrow> k < 2 ^ 32 \<Longrightarrow> (of_nat n :: u32) div of_nat k = of_nat (n div k)"
proof -
  assume n: "n < 2 ^ 32" and k: "k < 2 ^ 32"
  have "n div k < 2 ^ 32" using n by (rule le_less_trans [OF div_le_dividend])
  then show ?thesis using n k by (simp add: word_unat_eq_iff unat_div unat_of_nat)
qed

lemma ucast_of_nat: "n < 2 ^ 32 \<Longrightarrow> (ucast (of_nat n :: u32) :: u64) = of_nat n"
  by (simp add: word_unat_eq_iff unat_of_nat unsigned_ucast_eq take_bit_nat_eq_self)

lemma mktime_days:
  assumes "y < 5000" "m \<le> 12" "d < 31"
  shows "(ucast (of_nat y div 4 - of_nat y div 100 + of_nat y div 400 + 367 * of_nat m div 12 + (of_nat d + 1) :: u32)
      + ucast (of_nat y * 365 :: u32) - 719499 :: u64)
    = word_of_int (int (y div 4) - int (y div 100) + int (y div 400) + int (367 * m div 12) + int (d + 1)
        + int (y * 365) - 719499)"
proof -
  define A where "A = y div 4 - y div 100 + y div 400 + 367 * m div 12 + (d + 1)"
  have le: "y div 100 \<le> y div 4" by (simp add: div_le_mono2)
  have "y div 4 \<le> 5000" "y div 400 \<le> 5000" "367 * m div 12 \<le> 5000"
    using assms div_le_dividend [of y 4] div_le_dividend [of y 400] div_le_dividend [of "367 * m" 12] by linarith+
  then have A: "A < 2 ^ 32" using assms(3) unfolding A_def by simp
  have q: "(of_nat y div 4 :: u32) = of_nat (y div 4)" "(of_nat y div 100 :: u32) = of_nat (y div 100)"
      "(of_nat y div 400 :: u32) = of_nat (y div 400)" "(367 * of_nat m div 12 :: u32) = of_nat (367 * m div 12)"
    using udiv_of_nat [of y 4] udiv_of_nat [of y 100] udiv_of_nat [of y 400] udiv_of_nat [of "367 * m" 12] assms
    by simp_all
  have "of_nat y div 4 - of_nat y div 100 + of_nat y div 400 + 367 * of_nat m div 12 + (of_nat d + 1) = (of_nat A :: u32)"
    unfolding q A_def using le by (simp add: of_nat_diff)
  moreover have "(of_nat y * 365 :: u32) = of_nat (y * 365)" by simp
  moreover have "(ucast (of_nat A :: u32) :: u64) = of_nat A" "(ucast (of_nat (y * 365) :: u32) :: u64) = of_nat (y * 365)"
    using ucast_of_nat [OF A] ucast_of_nat [of "y * 365"] assms(1) by simp_all
  moreover have "int A = int (y div 4) - int (y div 100) + int (y div 400) + int (367 * m div 12) + int (d + 1)"
    unfolding A_def using le by (simp add: of_nat_diff)
  moreover have "(of_nat A + of_nat (y * 365) - 719499 :: u64) = word_of_int (int A + int (y * 365) - 719499)" by simp
  ultimately show ?thesis by (simp only:)
qed

lemma month_shift:
  assumes "k < 12"
  shows "(of_nat k + 1 - 2 :: cint) \<le>s 0 \<longleftrightarrow> k \<le> 1"
  by (cases rule: twelve_cases [OF assms]) (simp_all add: word_sle_eq)

lemma mktime_eq:
  fixes y k d :: nat
  assumes "y < 300" "k < 12" "d < 31"
    and "days_before y + int (month_before (leap y) k + d) = int (D + 25567)"
    and "tm_year t = of_nat y" "tm_mon t = of_nat k" "tm_mday t = of_nat d + 1"
  shows "mktime t = ucast ((((of_nat D * 24 + ucast (tm_hour t)) * 60 + ucast (tm_min t)) * 60
      + ucast (tm_sec t)) - tm_gmtoff t :: u64)"
proof (cases "k \<le> 1")
  case True
  have y: "(of_nat y + 1900 - 1 :: cint) = of_nat (y + 1899)" by simp
  have m: "(of_nat k + 1 - 2 + 12 :: cint) = of_nat (k + 11)" by simp
  have "int ((y + 1899) div 4) - int ((y + 1899) div 100) + int ((y + 1899) div 400) + int (367 * (k + 11) div 12)
     + int (d + 1) + int ((y + 1899) * 365) - 719499 = int D"
    using days_civil_early [OF True, where y = y and d = d and b = "leap y"] assms(4) by simp
  moreover have "y + 1899 < 5000" "k + 11 \<le> 12" using assms(1) True by simp_all
  ultimately show ?thesis
    using mktime_days [of "y + 1899" "k + 11" d] assms(3) True month_shift [OF assms(2)]
    unfolding mktime_def Let_def assms(5-7) by (simp only: if_True prod.case y m of_int_of_nat_eq)
next
  case False
  have y: "(of_nat y + 1900 :: cint) = of_nat (y + 1900)" by simp
  have m: "(of_nat k + 1 - 2 :: cint) = of_nat (k - 1)" using False by (simp add: of_nat_diff)
  have "int ((y + 1900) div 4) - int ((y + 1900) div 100) + int ((y + 1900) div 400) + int (367 * (k - 1) div 12)
     + int (d + 1) + int ((y + 1900) * 365) - 719499 = int D"
    using days_civil_late [of k y d] False assms(2,4) by simp
  moreover have "y + 1900 < 5000" "k - 1 \<le> 12" using assms(1,2) by simp_all
  moreover have "\<not> (of_nat (k - 1) :: cint) \<le>s 0" using month_shift [OF assms(2)] False unfolding m by simp
  ultimately show ?thesis
    using mktime_days [of "y + 1900" "k - 1" d] assms(3) False
    unfolding mktime_def Let_def assms(5-7) by (simp only: m y if_False prod.case of_int_of_nat_eq)
qed

lemma seconds_recombine:
  fixes n :: nat
  shows "((n div 86400 * 24 + n div 60 div 60 mod 24) * 60 + n div 60 mod 60) * 60 + n mod 60 = n"
proof -
  have d: "n div 86400 = n div 60 div 60 div 24" by (simp flip: div_mult2_eq)
  show ?thesis
    unfolding d by (simp add: div_mult_mod_eq)
qed

lemma month_length_le: "k < 12 \<Longrightarrow> month_length b k \<le> 31"
  by (erule twelve_cases) (simp_all add: month_length_def month_table_def)

lemma gmtime_at_inverse:
  "\<exists>t'. gmtime_at ts t = Some t' \<and> mktime t' = ts \<and> tm_sec t' < 60 \<and> tm_min t' < 60 \<and> tm_hour t' < 24 \<and>
     tm_wday t' < 7 \<and> tm_mon t' < 12 \<and> 1 \<le> tm_mday t' \<and> tm_mday t' \<le> 31 \<and> tm_yday t' < 366 \<and> tm_year t' < 300"
proof -
  define secs where "secs = (ucast (ucast ts + tm_gmtoff t) :: u32)"
  obtain y k d w yd where g: "gmtime_at ts t = Some (t\<lparr>tm_sec := secs mod 60, tm_min := secs div 60 mod 60,
      tm_hour := secs div 60 div 60 mod 24, tm_wday := w, tm_year := of_nat y, tm_yday := of_nat yd,
      tm_mon := of_nat k, tm_mday := of_nat d + 1\<rparr>)"
    and b: "w < 7" "y < 300" "yd < 366" "k < 12" "d < month_length (leap y) k" "yd = month_before (leap y) k + d"
      "days_before y + int yd = int (unat secs div 86400 + 25567)"
    using gmtime_at_fields [of ts t] unfolding secs_def [symmetric] by blast
  have d: "d < 31" using b(4,5) month_length_le [of k "leap y"] by simp
  have u: "(ucast x :: u64) = of_nat (unat x)" for x :: u32 by (rule of_nat_unat [symmetric])
  let ?n = "unat secs"
  have "((of_nat (?n div 86400) * 24 + ucast (secs div 60 div 60 mod 24)) * 60 + ucast (secs div 60 mod 60)) * 60
      + ucast (secs mod 60) = (of_nat (((?n div 86400 * 24 + ?n div 60 div 60 mod 24) * 60 + ?n div 60 mod 60) * 60 + ?n mod 60) :: u64)"
    unfolding u by (simp add: unat_div unat_mod)
  also have "\<dots> = ucast secs" unfolding seconds_recombine u ..
  finally have n: "((of_nat (?n div 86400) * 24 + ucast (secs div 60 div 60 mod 24)) * 60 + ucast (secs div 60 mod 60)) * 60
      + ucast (secs mod 60) = (ucast secs :: u64)" .
  let ?t = "t\<lparr>tm_sec := secs mod 60, tm_min := secs div 60 mod 60,
      tm_hour := secs div 60 div 60 mod 24, tm_wday := w, tm_year := of_nat y, tm_yday := of_nat yd,
      tm_mon := of_nat k, tm_mday := of_nat d + 1\<rparr>"
  have "mktime ?t = ucast ((((of_nat (?n div 86400) * 24 + ucast (tm_hour ?t)) * 60 + ucast (tm_min ?t)) * 60
      + ucast (tm_sec ?t)) - tm_gmtoff ?t :: u64)"
    by (rule mktime_eq [OF b(2,4) d b(7) [unfolded b(6)]]) simp_all
  also have "\<dots> = ucast (ucast secs - tm_gmtoff t :: u64)" unfolding n [symmetric] by simp
  also have "\<dots> = ts"
    by (simp add: ucast_down_sub ucast_up_down) (simp add: secs_def ucast_down_add ucast_up_down)
  finally show ?thesis
    using b d unfolding g
    by (auto simp: word_less_nat_alt word_le_nat_alt unat_mod unat_of_nat unat_word_ariths)
qed

section \<open>What strftime writes\<close>

lemma store_bytes_app: "store_bytes m p (xs @ ys) = store_bytes (store_bytes m p xs) (p + of_nat (length xs)) ys"
  by (induction xs arbitrary: m p) (simp_all add: algebra_simps)

lemma store_bytes_over: "store_bytes (store_bytes m p (xs @ [b])) (p + of_nat (length xs)) (y # ys) = store_bytes m p (xs @ y # ys)"
  by (simp add: store_bytes_append store_bytes_app)

definition field_text :: "int \<Rightarrow> cint \<Rightarrow> u8 list" where
  "field_text w v = map ucast (number_text 10 (unat v) w 48)"

lemma fold_text_putch: "fold text_putch cs out = out @ cs"
  by (induction cs arbitrary: out) (simp_all add: text_putch_def)

lemma nonneg_ucast: "\<not> (ucast v :: u64) <s 0" for v :: cint
proof -
  have "bit (ucast v :: u64) 63 \<longleftrightarrow> False" using bit_imp_le_length [of v 63] by (auto simp: bit_ucast_iff)
  then show ?thesis using bit_last_iff [of "ucast v :: u64"] by (simp add: word_sless_alt)
qed

lemma field_print:
  fixes w v :: cint
  assumes "0 \<le> sint w"
  shows "vprintf_text ''%0*d'' [VWord (ucast w), VWord (ucast v)] = Some (number_text 10 (unat v) (sint w) 48)"
proof -
  let ?e = "\<lparr>e_padc = 48, e_width = w, e_prec = -1, e_lflag = 0, e_altflag = False\<rparr>"
  have scan: "scan_escape escape_init ''0*d'' [VWord (ucast w), VWord (ucast v)] = Some (?e, CHR ''d'', [], [VWord (ucast v)])"
    by (simp add: escape_init_def process_precision_def uch_def word_sless_alt ucast_up_down)
  have num: "va_num (if CHR ''d'' = CHR ''p'' then 3 else e_lflag ?e) [VWord (ucast v)] = Some (ucast v, [])"
    by (simp add: va_num_def ucast_up_down)
  have len: "int (length (digits (unat (10 :: u64)) (unat (ucast v :: u64)))) - 2 ^ 31 \<le> sint w"
    using digits_u64_length [of 10 "ucast v"] assms by simp
  have v: "unat (ucast v :: u64) = unat v"
    using unsigned_less [of v, where ?'a = nat] by (simp add: unsigned_ucast_eq take_bit_nat_eq_self)
  have "format_number text_putch ?e True 10 (ucast v) [] = Some (number_text 10 (unat v) (sint w) 48)"
    using printnum_eq [OF _ len, of text_putch "[]" 48]
    by (simp add: format_number_def nonneg_ucast fold_text_putch v)
  then show ?thesis
    unfolding vprintf_text_def using vprintfmt_number [OF scan _ num, of text_putch "[]"]
    by (simp add: conversion_base_def)
qed

lemma number_text_length:
  assumes "k \<le> nat w" "n < 10 ^ k" "0 < k"
  shows "length (number_text 10 n w c) = nat w"
proof -
  have "length (digits 10 n) \<le> k" using assms(2,3)
  proof (induction k arbitrary: n)
    case (Suc k)
    then show ?case
    proof (cases "n < 10")
      case False
      then have "0 < k" "n div 10 < 10 ^ k" using Suc.prems(1) by (cases k; simp)+
      then have "length (digits 10 (n div 10)) \<le> k" by (rule Suc.IH [rotated])
      then show ?thesis by (subst digits.simps) simp
    qed (subst digits.simps, simp)
  qed simp
  then show ?thesis using assms(1) by (simp add: number_text_def)
qed

lemma year_text_length:
  assumes "1000 \<le> n" "n < 10000"
  shows "length (number_text 10 n 0 c) = 4"
proof -
  have d: "digits 10 n = digits 10 (n div 10 div 10 div 10) @ [n div 10 div 10 mod 10, n div 10 mod 10, n mod 10]"
    using div_le_mono [of 1000 n 10] div_le_mono [of 1000 n 100] assms
    by (simp add: digits.simps [of 10 n] digits.simps [of 10 "n div 10"] digits.simps [of 10 "n div 10 div 10"])
      (simp flip: div_mult2_eq)
  have "n div 10 div 10 div 10 < 10" using assms by (simp flip: div_mult2_eq)
  then show ?thesis by (simp add: number_text_def d digits.simps [of 10 "n div 10 div 10 div 10"])
qed

lemma snprintf_field:
  fixes w v n :: cint
  assumes "0 \<le> sint w" "p \<noteq> 0" "1 \<le> sint n" "unat p + unat n \<le> 2 ^ 64"
    and "length (number_text 10 (unat v) (sint w) 48) < unat n"
  shows "snprintf m p n ''%0*d'' [VWord (ucast w), VWord (ucast v)] =
    Some (store_bytes m p (field_text (sint w) v @ [0]), of_nat (length (field_text (sint w) v)))"
  using vsnprintf_writes [OF assms(2-4) field_print [OF assms(1)], of m v] assms(5)
  by (simp add: snprintf_def field_text_def)

lemma store_bytes_tail:
  assumes "z = [] \<or> z = [b]" "ys \<noteq> []"
  shows "store_bytes (store_bytes m p (xs @ z)) (p + of_nat (length xs)) ys = store_bytes m p (xs @ ys)"
  using assms by (cases ys) (auto simp: store_bytes_over store_bytes_app)

lemma strftime_literal:
  assumes "z = [] \<or> z = [b]" "c \<noteq> CHR ''%''"
  shows "strftime_loop (store_bytes m s (xs @ z)) s n (s + of_nat (length xs)) (c # fmt) t =
    strftime_loop (store_bytes m s ((xs @ [of_char c]) @ [])) s n (s + of_nat (length (xs @ [of_char c]))) fmt t"
  using store_bytes_tail [OF assms(1), of "[of_char c]" m s xs] assms(2) by (simp add: add.commute add.left_commute)

lemma ucast_down_of_nat: "(ucast (of_nat j :: u64) :: u32) = of_nat j"
  by transfer (simp add: take_bit_take_bit)

lemma unat_nonneg: "0 \<le> sint n \<Longrightarrow> unat n = nat (sint n)" for n :: cint
  by (drule nonneg_int) (simp only: nat_int)

lemma unat_small: "0 \<le> sint n \<Longrightarrow> unat n < 2 ^ 31" for n :: cint
  using sint_lt [of n] by (simp add: unat_nonneg nat_less_iff)

lemma room_left:
  fixes n :: cint
  assumes "0 \<le> sint n" "k < unat n"
  shows "ucast (scast n - of_nat k :: addr_t) = (of_nat (unat n - k) :: cint)"
    and "sint (of_nat (unat n - k) :: cint) = int (unat n - k)" "unat (of_nat (unat n - k) :: cint) = unat n - k"
proof -
  have n: "sint n = int (unat n)" by (rule nonneg_int [OF assms(1)])
  have lt: "unat n < 2 ^ 31" by (rule unat_small [OF assms(1)])
  have "scast n = (word_of_int (int (unat n)) :: addr_t)" by (simp only: scast_eq n)
  then have "scast n - of_nat k = (of_nat (unat n - k) :: addr_t)"
    using assms(2) by (simp only: of_nat_diff less_imp_le of_int_of_nat_eq)
  then show "ucast (scast n - of_nat k :: addr_t) = (of_nat (unat n - k) :: cint)"
    by (simp only: ucast_down_of_nat)
  have small: "unat n - k < 2 ^ 31" using lt by linarith
  show "sint (of_nat (unat n - k) :: cint) = int (unat n - k)" using small by (rule sint_of_nat)
  show "unat (of_nat (unat n - k) :: cint) = unat n - k" using small by (simp add: unat_of_nat)
qed

lemma strftime_field_step:
  assumes "z = [] \<or> z = [b]" "strftime_field c t = Some (w, v)" "0 \<le> sint w" "c \<noteq> CHR ''%''"
    and "s \<noteq> 0" "0 \<le> sint n" "unat s + unat n \<le> 2 ^ 64"
    and "length xs + length (field_text (sint w) v) < unat n"
  shows "strftime_loop (store_bytes m s (xs @ z)) s n (s + of_nat (length xs)) (CHR ''%'' # c # fmt) t =
    strftime_loop (store_bytes m s ((xs @ field_text (sint w) v) @ [0])) s n
      (s + of_nat (length (xs @ field_text (sint w) v))) fmt t"
proof -
  let ?k = "length xs" and ?f = "field_text (sint w) v"
  have k: "?k < unat n" using assms(8) by simp
  note room = room_left [OF assms(6) k]
  have p: "unat (s + of_nat ?k) = unat s + ?k"
    using k assms(7) by (simp add: unat_word_ariths unat_of_nat)
  have "s + of_nat ?k \<noteq> 0" using p assms(5) by (metis add_is_0 unat_0 unat_eq_zero)
  then have "snprintf (store_bytes m s (xs @ z)) (s + of_nat ?k) (of_nat (unat n - ?k)) ''%0*d'' [VWord (ucast w), VWord (ucast v)]
      = Some (store_bytes (store_bytes m s (xs @ z)) (s + of_nat ?k) (?f @ [0]), of_nat (length ?f))"
    using k p assms(7,8)
    by (intro snprintf_field assms(3); simp only: room(2,3) p) (simp_all add: field_text_def)
  moreover have "store_bytes (store_bytes m s (xs @ z)) (s + of_nat ?k) (?f @ [0]) = store_bytes m s ((xs @ ?f) @ [0])"
    using store_bytes_tail [OF assms(1), of "?f @ [0]" m s xs] by simp
  moreover have "length ?f < 2 ^ 31"
    using assms(8) unat_small [OF assms(6)] by linarith
  then have "(scast (of_nat (length ?f) :: cint) :: addr_t) = of_nat (length ?f)"
    by (simp add: scast_eq sint_of_nat)
  ultimately show ?thesis
    using assms(2,4) by (simp add: room(1) add.assoc)
qed

definition time_text :: "tm \<Rightarrow> u8 list" where
  "time_text t =
     field_text 0 (tm_year t + 1900) @ of_char (CHR ''-'') # field_text 2 (tm_mon t + 1) @ of_char (CHR ''-'') # field_text 2 (tm_mday t)
     @ of_char (CHR '':'') # field_text 2 (tm_hour t) @ of_char (CHR '':'') # field_text 2 (tm_min t)
     @ of_char (CHR '':'') # field_text 2 (tm_sec t)"

lemma field_text_two: "v < 100 \<Longrightarrow> length (field_text 2 v) = 2"
  using number_text_length [of 2 2 "unat v"] by (simp add: field_text_def word_less_nat_alt)

lemma field_text_year: "1000 \<le> v \<Longrightarrow> v < 10000 \<Longrightarrow> length (field_text 0 v) = 4"
  using year_text_length [of "unat v"] by (simp add: field_text_def word_less_nat_alt word_le_nat_alt)

lemma strftime_field_literal:
  assumes "strftime_field c t = Some (w, v)" "c \<noteq> CHR ''%''" "d \<noteq> CHR ''%''" "sint w = i" "0 \<le> i"
    and "length xs + length (field_text i v) < unat n"
    and "s \<noteq> 0" "0 \<le> sint n" "unat s + unat n \<le> 2 ^ 64"
  shows "strftime_loop (store_bytes m s (xs @ [])) s n (s + of_nat (length xs)) (CHR ''%'' # c # d # fmt) t =
    strftime_loop (store_bytes m s ((xs @ field_text i v @ [of_char d]) @ [])) s n
      (s + of_nat (length (xs @ field_text i v @ [of_char d]))) fmt t"
  unfolding strftime_field_step [OF disjI1 [OF refl] assms(1) _ assms(2,7,8,9), unfolded assms(4), OF assms(5,6)] strftime_literal [OF disjI2 [OF refl] assms(3)]
  by (simp only: append_assoc)

lemma strftime_time:
  assumes "s \<noteq> 0" "20 \<le> sint n" "unat s + unat n \<le> 2 ^ 64"
    and "tm_sec t < 60" "tm_min t < 60" "tm_hour t < 24" "tm_mday t < 32" "tm_mon t < 12" "tm_year t < 300"
  shows "strftime m s n ''%Y-%m-%d:%H:%M:%S'' t = Some (store_bytes m s (time_text t @ [0]), 19)"
proof -
  have year: "1000 \<le> tm_year t + 1900" "tm_year t + 1900 < 10000" and mon: "tm_mon t + 1 < 100"
    using assms(8,9) by (auto simp: word_less_nat_alt word_le_nat_alt unat_word_ariths)
  have len: "length (field_text 0 (tm_year t + 1900)) = 4" "length (field_text 2 (tm_mon t + 1)) = 2"
      "length (field_text 2 (tm_mday t)) = 2" "length (field_text 2 (tm_hour t)) = 2"
      "length (field_text 2 (tm_min t)) = 2" "length (field_text 2 (tm_sec t)) = 2"
    using field_text_year [OF year] field_text_two mon assms(4-7) by (auto intro!: field_text_two elim: less_trans)
  have n0: "0 \<le> sint n" using assms(2) by simp
  have n: "20 \<le> unat n" using assms(2) unat_nonneg [OF n0] by simp
  let ?at = "\<lambda>xs f. strftime_loop (store_bytes m s (xs @ [])) s n (s + of_nat (length xs)) f t"
  note step = strftime_field_literal [OF _ _ _ _ _ _ assms(1) n0 assms(3)]
  let ?Y = "field_text 0 (tm_year t + 1900) @ [of_char (CHR ''-'')]"
  let ?Ym = "?Y @ field_text 2 (tm_mon t + 1) @ [of_char (CHR ''-'')]"
  let ?Ymd = "?Ym @ field_text 2 (tm_mday t) @ [of_char (CHR '':'')]"
  let ?H = "?Ymd @ field_text 2 (tm_hour t) @ [of_char (CHR '':'')]"
  let ?HM = "?H @ field_text 2 (tm_min t) @ [of_char (CHR '':'')]"
  have "?at [] ''%Y-%m-%d:%H:%M:%S'' = ?at ([] @ ?Y) ''%m-%d:%H:%M:%S''"
    by (rule step [where w = 0]) (use n in \<open>simp_all add: strftime_field_def len\<close>)
  also have "\<dots> = ?at ?Ym ''%d:%H:%M:%S''"
    unfolding append_Nil by (rule step [where w = 2]) (use n in \<open>simp_all add: strftime_field_def len\<close>)
  also have "\<dots> = ?at ?Ymd ''%H:%M:%S''"
    by (rule step [where w = 2]) (use n in \<open>simp_all add: strftime_field_def len\<close>)
  also have "\<dots> = ?at ?H ''%M:%S''"
    by (rule step [where w = 2]) (use n in \<open>simp_all add: strftime_field_def len\<close>)
  also have "\<dots> = ?at ?HM ''%S''"
    by (rule step [where w = 2]) (use n in \<open>simp_all add: strftime_field_def len\<close>)
  also have "\<dots> = strftime_loop (store_bytes m s ((?HM @ field_text (sint (2 :: cint)) (tm_sec t)) @ [0])) s n
      (s + of_nat (length (?HM @ field_text (sint (2 :: cint)) (tm_sec t)))) [] t"
    by (rule strftime_field_step [OF disjI1 [OF refl] _ _ _ assms(1) n0 assms(3)])
      (use n in \<open>simp_all add: strftime_field_def len\<close>)
  also have "\<dots> = Some (store_bytes m s (time_text t @ [0]), s + 19)"
    by (simp add: time_text_def len)
  finally show ?thesis by (simp add: strftime_def)
qed

section \<open>Properties of calendar time\<close>

text \<open>C24: gmtime and localtime always succeed, with every field in its range, and mktime gives back the
  time stamp they started from, for all 32-bit time stamps.\<close>

theorem mktime_inverts_gmtime:
  "\<exists>g l. gmtime ts t = Some g \<and> localtime ts t = Some l \<and> mktime g = ts \<and> mktime l = ts \<and>
    tm_sec g < 60 \<and> tm_min g < 60 \<and> tm_hour g < 24 \<and> tm_wday g < 7 \<and> 1 \<le> tm_mday g \<and> tm_mday g \<le> 31 \<and>
    tm_mon g < 12 \<and> tm_yday g < 366 \<and>
    tm_sec l < 60 \<and> tm_min l < 60 \<and> tm_hour l < 24 \<and> tm_wday l < 7 \<and> 1 \<le> tm_mday l \<and> tm_mday l \<le> 31 \<and>
    tm_mon l < 12 \<and> tm_yday l < 366"
  using gmtime_at_inverse [of ts "t\<lparr>tm_gmtoff := 0\<rparr>"] gmtime_at_inverse [of ts "t\<lparr>tm_gmtoff := LOCAL_TIMEZONE * 3600\<rparr>"]
  unfolding gmtime_def localtime_def by auto

lemma localtime_ex: "\<exists>l. localtime ts t = Some l"
  using gmtime_at_inverse unfolding localtime_def by blast

lemma localtime_text:
  assumes "localtime ts t = Some l" "s \<noteq> 0" "20 \<le> sint n" "unat s + unat n \<le> 2 ^ 64"
  shows "strftime m s n ''%Y-%m-%d:%H:%M:%S'' l = Some (store_bytes m s (time_text l @ [0]), 19)"
    and "length (time_text l) = 19"
proof -
  have l: "tm_sec l < 60" "tm_min l < 60" "tm_hour l < 24" "tm_mday l < 32" "tm_mon l < 12" "tm_year l < 300"
    using gmtime_at_inverse [of ts "t\<lparr>tm_gmtoff := LOCAL_TIMEZONE * 3600\<rparr>"] assms(1)
    by (auto simp: localtime_def intro: le_less_trans)
  show "strftime m s n ''%Y-%m-%d:%H:%M:%S'' l = Some (store_bytes m s (time_text l @ [0]), 19)"
    by (rule strftime_time [OF assms(2-4) l])
  show "length (time_text l) = 19"
    using l field_text_year [of "tm_year l + 1900"]
    by (auto simp: time_text_def field_text_two word_less_nat_alt word_le_nat_alt unat_word_ariths)
qed

text \<open>C25: the time of day that localtime computes is printed in the format of the clock as exactly
  nineteen characters and a terminator, and no other byte changes.\<close>

theorem strftime_local_time:
  assumes "localtime ts t = Some l" "s \<noteq> 0" "20 \<le> sint n" "unat s + unat n \<le> 2 ^ 64"
  shows "\<exists>text. strftime m s n ''%Y-%m-%d:%H:%M:%S'' l = Some (store_bytes m s (text @ [0]), 19) \<and>
    length text = 19 \<and> text = time_text l"
  using localtime_text [OF assms] by simp

definition sample_tm :: tm where
  "sample_tm = \<lparr>tm_sec = 0, tm_min = 0, tm_hour = 0, tm_mday = 0, tm_mon = 0, tm_year = 0, tm_wday = 0,
     tm_yday = 0, tm_isdst = 0, tm_gmtoff = 0, tm_zone = 0\<rparr>"

theorem strftime_local_time_witness:
  "\<exists>l text. localtime 0 sample_tm = Some l \<and>
    strftime (\<lambda>_. 7) 4096 24 ''%Y-%m-%d:%H:%M:%S'' l = Some (store_bytes (\<lambda>_. 7) 4096 (text @ [0]), 19) \<and> length text = 19"
proof -
  obtain l where l: "localtime 0 sample_tm = Some l" using localtime_ex by blast
  show ?thesis using strftime_local_time [OF l, of 4096 24 "\<lambda>_. 7"] l by auto
qed

end
