(* ===== verification/Clock.thy ===== *)
theory Clock
  imports Calendar
begin

text \<open>
  The kernel clock: \<open>src/kernel/clock.c\<close>, with the real-time clock and the interval timer of
  \<open>src/arch/x86/clock.c\<close>.  The loops that wait for an interrupt handler to change \<open>ticks\<close> or a flag
  read them from a stream: \<open>obs i\<close> is the value of \<open>ticks\<close> at the i-th read.
\<close>

section \<open>The clock interrupt\<close>

record kclock =
  ticks :: u64
  current_timestamp :: u32

definition HZ :: u64 where "HZ = 100"

text \<open>The result holds the clock, the memory with the text of the time at \<open>buf\<close>, the local variable
  \<open>strtime\<close>, and whether the text is logged.  \<open>tm0\<close> is what \<open>tm_time\<close> holds before.\<close>

definition clock_handler :: "addr_t \<Rightarrow> tm \<Rightarrow> kclock \<Rightarrow> mem \<Rightarrow> (kclock \<times> mem \<times> bool) option" where
  "clock_handler buf tm0 c m =
     (let c = c\<lparr>ticks := ticks c + 1\<rparr>
      in if ticks c mod HZ = 0
         then let c = c\<lparr>current_timestamp := current_timestamp c + 1\<rparr>
              in case localtime (current_timestamp c) tm0 of
                   None \<Rightarrow> None
                 | Some t \<Rightarrow>
                     (case strftime m buf 24 ''%Y-%m-%d:%H:%M:%S'' t of
                        None \<Rightarrow> None
                      | Some (m', _) \<Rightarrow> Some (c, m', c_mod (tm_sec t) 5 = 0))
         else Some (c, m, False))"

fun clock_interrupts :: "nat \<Rightarrow> addr_t \<Rightarrow> tm \<Rightarrow> kclock \<Rightarrow> mem \<Rightarrow> (kclock \<times> mem) option" where
  "clock_interrupts 0 buf tm0 c m = Some (c, m)"
| "clock_interrupts (Suc n) buf tm0 c m =
     (case clock_interrupts n buf tm0 c m of
        None \<Rightarrow> None
      | Some (c', m') \<Rightarrow> map_option (\<lambda>(c2, m2, logged). (c2, m2)) (clock_handler buf tm0 c' m'))"

section \<open>Waiting\<close>

partial_function (option) sleep_loop :: "(nat \<Rightarrow> u64) \<Rightarrow> u64 \<Rightarrow> nat \<Rightarrow> nat option" where
  [code]: "sleep_loop obs deadline i = (if obs i \<noteq> deadline then sleep_loop obs deadline (i + 1) else Some i)"

definition clock_sleep :: "(nat \<Rightarrow> u64) \<Rightarrow> u64 \<Rightarrow> nat option" where
  "clock_sleep obs sleep_tick = sleep_loop obs (obs 0 + sleep_tick) 1"

partial_function (option) watch_loop ::
  "(nat \<Rightarrow> u64) \<Rightarrow> (nat \<Rightarrow> cint) \<Rightarrow> u64 \<Rightarrow> cint \<Rightarrow> cint \<Rightarrow> nat \<Rightarrow> cint option" where
  [code]: "watch_loop obs flag deadline target change i =
     (if obs i \<noteq> deadline
      then if change \<noteq> 0
           then if flag i \<noteq> target then Some 1 else watch_loop obs flag deadline target change (i + 1)
           else if flag i = target then Some 1 else watch_loop obs flag deadline target change (i + 1)
      else Some 0)"

definition clock_sleep_watch_flag :: "(nat \<Rightarrow> u64) \<Rightarrow> (nat \<Rightarrow> cint) \<Rightarrow> u64 \<Rightarrow> cint \<Rightarrow> cint \<Rightarrow> cint option" where
  "clock_sleep_watch_flag obs flag sleep_tick target change =
     watch_loop obs flag (obs 0 + sleep_tick) target change 1"

section \<open>The real-time clock and the interval timer\<close>

definition bcd2byte :: "u8 \<Rightarrow> cint" where
  "bcd2byte x = ucast (drop_bit 4 x AND 0xF) * 10 + ucast (x AND 0xF)"

text \<open>\<open>rtc i reg\<close> is what the i-th read from the real-time clock finds in register \<open>reg\<close>.  The loop
  reads until the seconds did not change while it read.\<close>

partial_function (option) rtc_read_loop :: "(nat \<Rightarrow> nat \<Rightarrow> u8) \<Rightarrow> nat \<Rightarrow> ((u8 \<times> u8 \<times> u8 \<times> u8 \<times> u8 \<times> u8) \<times> nat) option" where
  [code]: "rtc_read_loop rtc i =
     (if rtc (i + 5) 0 \<noteq> rtc (i + 6) 0 then rtc_read_loop rtc (i + 7)
      else Some ((rtc i 9, rtc (i + 1) 8, rtc (i + 2) 7, rtc (i + 3) 4, rtc (i + 4) 2, rtc (i + 5) 0), i + 7))"

definition rtc_get_datetime :: "(nat \<Rightarrow> nat \<Rightarrow> u8) \<Rightarrow> tm \<Rightarrow> tm option" where
  "rtc_get_datetime rtc time =
     (case rtc_read_loop rtc 0 of
        None \<Rightarrow> None
      | Some ((year, mon, day, hour, minute, sec), i) \<Rightarrow>
          let conv = (if rtc i 0xB AND 4 = 0 then bcd2byte else ucast);
              year = conv year + 1900;
              year = (if year <s 1970 then year + 100 else year)
          in Some (time\<lparr>tm_year := year - 1900, tm_mon := conv mon - 1, tm_mday := conv day, tm_hour := conv hour,
                     tm_min := conv minute, tm_sec := conv sec, tm_gmtoff := 0\<rparr>))"

definition tm_zero :: tm where
  "tm_zero = \<lparr>tm_sec = 0, tm_min = 0, tm_hour = 0, tm_mday = 0, tm_mon = 0, tm_year = 0, tm_wday = 0,
     tm_yday = 0, tm_isdst = 0, tm_gmtoff = 0, tm_zone = 0\<rparr>"

definition arch_get_hw_timestamp :: "(nat \<Rightarrow> nat \<Rightarrow> u8) \<Rightarrow> u32 option" where
  "arch_get_hw_timestamp rtc = map_option mktime (rtc_get_datetime rtc tm_zero)"

definition TIMER_FREQ :: u64 where "TIMER_FREQ = 1193182"

definition pit_start :: "(nat \<times> u8) list" where
  "pit_start = [(0x43, 0x34), (0x40, ucast (TIMER_FREQ div HZ)), (0x40, ucast (drop_bit 8 (TIMER_FREQ div HZ)))]"

section \<open>The clock counts\<close>

lemma clock_handler_step:
  assumes "buf \<noteq> 0" "unat buf + 24 \<le> 2 ^ 64"
  shows "\<exists>m' logged. clock_handler buf tm0 c m =
      Some (\<lparr>ticks = ticks c + 1, current_timestamp = current_timestamp c + (if (ticks c + 1) mod HZ = 0 then 1 else 0)\<rparr>, m', logged) \<and>
    (\<forall>a. 20 \<le> unat (a - buf) \<longrightarrow> m' a = m a)"
proof (cases "(ticks c + 1) mod HZ = 0")
  case True
  obtain t where t: "localtime (current_timestamp c + 1) tm0 = Some t"
    using localtime_ex by blast
  have "strftime m buf 24 ''%Y-%m-%d:%H:%M:%S'' t = Some (store_bytes m buf (time_text t @ [0]), 19)"
      and "length (time_text t) = 19"
    using localtime_text(1) [OF t assms(1), of 24 m] localtime_text(2) [OF t assms(1), of 24] assms(2) by simp_all
  then show ?thesis
    using True t by (auto simp: clock_handler_def Let_def intro!: store_bytes_beyond)
next
  case False
  then show ?thesis by (auto simp: clock_handler_def Let_def)
qed

lemma Suc_div_of_nat:
  assumes "Suc n < 2 ^ 64"
  shows "(of_nat n + 1 :: u64) mod HZ = 0 \<longleftrightarrow> Suc n mod 100 = 0"
    and "Suc n div 100 = n div 100 + (if Suc n mod 100 = 0 then 1 else 0)"
proof -
  have "unat ((of_nat n + 1 :: u64) mod HZ) = Suc n mod 100"
    using assms by (simp add: HZ_def unat_mod unat_of_nat unat_word_ariths)
  then show "(of_nat n + 1 :: u64) mod HZ = 0 \<longleftrightarrow> Suc n mod 100 = 0" by (metis unat_eq_zero)
  show "Suc n div 100 = n div 100 + (if Suc n mod 100 = 0 then 1 else 0)" by (simp add: div_Suc)
qed

lemma clock_interrupts_count:
  assumes "buf \<noteq> 0" "unat buf + 24 \<le> 2 ^ 64" "n < 2 ^ 64"
  shows "\<exists>m'. clock_interrupts n buf tm0 \<lparr>ticks = 0, current_timestamp = ts\<rparr> m =
      Some (\<lparr>ticks = of_nat n, current_timestamp = ts + of_nat (n div 100)\<rparr>, m') \<and>
    (\<forall>a. 20 \<le> unat (a - buf) \<longrightarrow> m' a = m a)"
  using assms(3)
proof (induction n)
  case (Suc n)
  let ?c = "\<lparr>ticks = of_nat n, current_timestamp = ts + of_nat (n div 100)\<rparr>"
  obtain m1 where m1: "clock_interrupts n buf tm0 \<lparr>ticks = 0, current_timestamp = ts\<rparr> m = Some (?c, m1)"
      "\<forall>a. 20 \<le> unat (a - buf) \<longrightarrow> m1 a = m a"
    using Suc by auto
  obtain m2 logged where m2: "clock_handler buf tm0 ?c m1 = Some (\<lparr>ticks = ticks ?c + 1,
        current_timestamp = current_timestamp ?c + (if (ticks ?c + 1) mod HZ = 0 then 1 else 0)\<rparr>, m2, logged)"
      "\<forall>a. 20 \<le> unat (a - buf) \<longrightarrow> m2 a = m1 a"
    using clock_handler_step [OF assms(1,2)] by blast
  show ?case
    using m1 m2 Suc_div_of_nat [OF Suc.prems] by (auto simp: add.commute add.left_commute)
qed simp

section \<open>Waiting for the clock\<close>

lemma sleep_loop_found:
  assumes "i \<le> j" "obs j = deadline" "\<And>k. i \<le> k \<Longrightarrow> k < j \<Longrightarrow> obs k \<noteq> deadline"
  shows "sleep_loop obs deadline i = Some j"
  using assms
proof (induction "j - i" arbitrary: i)
  case 0
  then show ?case by (subst sleep_loop.simps) simp
next
  case (Suc d)
  then have "sleep_loop obs deadline (i + 1) = Some j" by (intro Suc.hyps(1)) auto
  then show ?case using Suc by (subst sleep_loop.simps) auto
qed

lemma sleep_loop_missed:
  assumes "sleep_loop obs deadline i = Some j"
  shows "i \<le> j \<and> obs j = deadline"
proof (rule sleep_loop.raw_induct [where P = "\<lambda>obs d i j. i \<le> j \<and> obs j = d", OF _ assms])
  fix f and obs :: "nat \<Rightarrow> u64" and d i j
  assume "\<And>(obs :: nat \<Rightarrow> u64) d i j. f obs d i = Some j \<Longrightarrow> i \<le> j \<and> obs j = d"
    and "(if obs i \<noteq> d then f obs d (i + 1) else Some i) = Some j"
  then show "i \<le> j \<and> obs j = d" by (cases "obs i = d") (fastforce dest: Suc_leD)+
qed

lemma watch_loop_result:
  fixes obs :: "nat \<Rightarrow> u64" and flag :: "nat \<Rightarrow> cint" and target change :: cint
  defines "trig k \<equiv> (if change \<noteq> 0 then flag k \<noteq> target else flag k = target)"
  assumes "i \<le> j" "obs j = deadline" "\<And>k. i \<le> k \<Longrightarrow> k < j \<Longrightarrow> obs k \<noteq> deadline"
  shows "watch_loop obs flag deadline target change i = Some (if \<exists>k. i \<le> k \<and> k < j \<and> trig k then 1 else 0)"
  using assms(2-4)
proof (induction "j - i" arbitrary: i)
  case 0
  then show ?case by (subst watch_loop.simps) auto
next
  case (Suc d)
  then have IH: "watch_loop obs flag deadline target change (i + 1) =
      Some (if \<exists>k. i + 1 \<le> k \<and> k < j \<and> trig k then 1 else 0)"
    by (intro Suc.hyps(1)) auto
  have "(\<exists>k. i \<le> k \<and> k < j \<and> trig k) \<longleftrightarrow> trig i \<or> (\<exists>k. i + 1 \<le> k \<and> k < j \<and> trig k)"
    using Suc.hyps(2) by (auto simp: Suc_le_eq intro: less_imp_le) (metis le_neq_implies_less)
  moreover have "watch_loop obs flag deadline target change i =
      (if trig i then Some 1 else watch_loop obs flag deadline target change (i + 1))"
    using Suc.prems(3) [of i] Suc.hyps(2) by (subst watch_loop.simps) (simp add: trig_def)
  ultimately show ?case using IH by (simp split: if_splits)
qed

section \<open>Properties of the clock\<close>

text \<open>C29: after n clock interrupts the tick counter is n and the time stamp has advanced by n / 100, the
  handler never faults, and it writes at most twenty bytes of its buffer of twenty-four.\<close>

theorem clock_counts_seconds:
  assumes "buf \<noteq> 0" "unat buf + 24 \<le> 2 ^ 64" "n < 2 ^ 64"
  shows "\<exists>m'. clock_interrupts n buf tm0 \<lparr>ticks = 0, current_timestamp = ts\<rparr> m =
      Some (\<lparr>ticks = of_nat n, current_timestamp = ts + of_nat (n div 100)\<rparr>, m') \<and>
    (\<forall>a. 20 \<le> unat (a - buf) \<longrightarrow> m' a = m a)"
  by (rule clock_interrupts_count [OF assms])

theorem clock_counts_seconds_witness:
  "\<exists>m'. clock_interrupts 250 4096 tm_zero \<lparr>ticks = 0, current_timestamp = 7\<rparr> (\<lambda>_. 0) =
      Some (\<lparr>ticks = 250, current_timestamp = 9\<rparr>, m')"
  using clock_counts_seconds [of 4096 250 tm_zero 7 "\<lambda>_. 0"] by auto

text \<open>C30: clock_sleep ends exactly when some read finds ticks equal to the deadline, so a read that
  comes after it misses it; with a flag, the result tells whether the flag was seen before the deadline.\<close>

theorem clock_sleep_ends:
  "((\<exists>j. clock_sleep obs n = Some j) \<longleftrightarrow> (\<exists>j\<ge>1. obs j = obs 0 + n)) \<and>
   ((\<exists>j\<ge>1. obs j = obs 0 + n) \<longrightarrow>
      (let j = (LEAST j. 1 \<le> j \<and> obs j = obs 0 + n)
       in clock_sleep obs n = Some j \<and>
          clock_sleep_watch_flag obs flag n target change =
            Some (if \<exists>k. 1 \<le> k \<and> k < j \<and> (if change \<noteq> 0 then flag k \<noteq> target else flag k = target) then 1 else 0)))"
proof -
  let ?P = "\<lambda>j. 1 \<le> j \<and> obs j = obs 0 + n"
  have missed: "\<exists>j\<ge>1. obs j = obs 0 + n" if "clock_sleep obs n = Some j" for j
    using sleep_loop_missed [OF that [unfolded clock_sleep_def]] by blast
  have found: "clock_sleep obs n = Some (Least ?P) \<and>
      clock_sleep_watch_flag obs flag n target change =
        Some (if \<exists>k. 1 \<le> k \<and> k < Least ?P \<and> (if change \<noteq> 0 then flag k \<noteq> target else flag k = target) then 1 else 0)"
    if "\<exists>j\<ge>1. obs j = obs 0 + n"
  proof -
    have P: "?P (Least ?P)" using that by (rule LeastI_ex)
    have before: "obs k \<noteq> obs 0 + n" if "1 \<le> k" "k < Least ?P" for k
      using not_less_Least [OF that(2)] that(1) by blast
    show ?thesis
      unfolding clock_sleep_def clock_sleep_watch_flag_def
      using sleep_loop_found [of 1 "Least ?P" obs "obs 0 + n"] watch_loop_result [where i = 1 and j = "Least ?P" and obs = obs and deadline = "obs 0 + n"
          and flag = flag and target = target and change = change]
        P before by blast
  qed
  show ?thesis unfolding Let_def using missed found by blast
qed

theorem clock_sleep_ends_witness: "\<exists>j. clock_sleep (\<lambda>i. of_nat i) 3 = Some j"
  using clock_sleep_ends [of "\<lambda>i. of_nat i" 3 "\<lambda>_. 0" 0 0] by (auto intro: exI [of _ "3 :: nat"])

section \<open>The time stamp from the real-time clock\<close>

definition bcd :: "nat \<Rightarrow> u8" where
  "bcd n = of_nat (n div 10 * 16 + n mod 10)"

lemma nibble: "x AND 0xF = take_bit 4 x" for x :: u8
  by (simp add: take_bit_eq_mask mask_eq_exp_minus_1)

lemma bcd2byte_bcd:
  assumes "n < 100"
  shows "bcd2byte (bcd n) = of_nat n"
proof -
  have a: "n div 10 < 10" using assms by linarith
  have b: "n mod 10 < 10" by simp
  have u: "unat (bcd n) = n div 10 * 16 + n mod 10"
    unfolding bcd_def unat_of_nat using a b by simp
  have hi: "unat (drop_bit 4 (bcd n) AND 0xF) = n div 10"
    unfolding nibble by (simp add: unat_drop_bit_eq unsigned_take_bit_eq u drop_bit_eq_div [where 'a = nat] take_bit_eq_mod [where 'a = nat])
      (use a b in simp)
  have lo: "unat (bcd n AND 0xF) = n mod 10"
    unfolding nibble unsigned_take_bit_eq u take_bit_eq_mod [where 'a = nat]
    using mod_mult_self3 [of "n div 10" 16 "n mod 10"] mod_less [of "n mod 10" 16] b by simp
  have "bcd2byte (bcd n) = of_nat (unat (drop_bit 4 (bcd n) AND 0xF)) * 10 + of_nat (unat (bcd n AND 0xF))"
    unfolding bcd2byte_def by (simp only: of_nat_unat)
  also have "\<dots> = of_nat (n div 10 * 10 + n mod 10)" unfolding hi lo by (simp only: of_nat_add of_nat_mult of_nat_numeral)
  also have "n div 10 * 10 + n mod 10 = n" by simp
  finally show ?thesis .
qed

definition rtc_regs :: "tm \<Rightarrow> nat \<Rightarrow> u8" where
  "rtc_regs t r =
     (if r = 9 then bcd (unat (tm_year t) mod 100) else if r = 8 then bcd (unat (tm_mon t) + 1)
      else if r = 7 then bcd (unat (tm_mday t)) else if r = 4 then bcd (unat (tm_hour t))
      else if r = 2 then bcd (unat (tm_min t)) else if r = 0 then bcd (unat (tm_sec t)) else 0)"

lemma bcd_field: "w < 100 \<Longrightarrow> bcd2byte (bcd (unat w)) = w" for w :: cint
  using bcd2byte_bcd [of "unat w"] by (simp add: word_less_nat_alt)

lemma rtc_datetime_eq:
  assumes "70 \<le> tm_year t" "tm_year t < 170" "tm_mon t < 12" "tm_mday t < 100" "tm_hour t < 100" "tm_min t < 100" "tm_sec t < 100"
  shows "rtc_get_datetime (\<lambda>_. rtc_regs t) z =
    Some (z\<lparr>tm_year := tm_year t, tm_mon := tm_mon t, tm_mday := tm_mday t, tm_hour := tm_hour t,
      tm_min := tm_min t, tm_sec := tm_sec t, tm_gmtoff := 0\<rparr>)"
proof -
  have loop: "rtc_read_loop (\<lambda>_. rtc_regs t) 0 =
      Some ((rtc_regs t 9, rtc_regs t 8, rtc_regs t 7, rtc_regs t 4, rtc_regs t 2, rtc_regs t 0), 7)"
    by (subst rtc_read_loop.simps) simp
  have mon: "bcd2byte (bcd (unat (tm_mon t) + 1)) = tm_mon t + 1"
    using bcd2byte_bcd [of "unat (tm_mon t) + 1"] assms(3) by (simp add: word_less_nat_alt)
  define y where "y = unat (tm_year t)"
  have y: "70 \<le> y" "y < 170" "tm_year t = of_nat y"
    using assms(1,2) by (auto simp: y_def word_less_nat_alt word_le_nat_alt)
  have "y mod 100 = (if 100 \<le> y then y - 100 else y)" using y by (simp add: le_mod_geq)
  moreover from this have "(of_nat (y mod 100) + 1900 <s (1970 :: cint)) \<longleftrightarrow> 100 \<le> y"
    using y sint_of_nat [of "y mod 100 + 1900"] by (auto simp: word_sless_alt)
  moreover have "bcd2byte (bcd (y mod 100)) = of_nat (y mod 100)" by (rule bcd2byte_bcd) simp
  ultimately have year: "(let year = bcd2byte (bcd (y mod 100)) + 1900 in (if year <s 1970 then year + 100 else year) - 1900) = tm_year t"
    unfolding y(3) by (simp add: of_nat_diff)
  have regs: "rtc_regs t 9 = bcd (y mod 100)" "rtc_regs t 8 = bcd (unat (tm_mon t) + 1)" "rtc_regs t 7 = bcd (unat (tm_mday t))"
      "rtc_regs t 4 = bcd (unat (tm_hour t))" "rtc_regs t 2 = bcd (unat (tm_min t))" "rtc_regs t 0 = bcd (unat (tm_sec t))"
      "(rtc_regs t 0xB AND 4 = 0) = True"
    by (simp_all add: rtc_regs_def y_def)
  show ?thesis
    unfolding rtc_get_datetime_def loop option.case prod.case regs if_True Let_def mon
      bcd_field [OF assms(4)] bcd_field [OF assms(5)] bcd_field [OF assms(6)] bcd_field [OF assms(7)]
      year [unfolded Let_def]
    by simp
qed

lemma gmtime_gmtoff: "gmtime ts t = Some g \<Longrightarrow> tm_gmtoff g = 0"
  by (auto simp: gmtime_def gmtime_at_def Let_def split: prod.splits option.splits)

lemma rtc_timestamp_eq:
  assumes "gmtime ts t = Some g" "70 \<le> tm_year g" "tm_year g < 170"
  shows "arch_get_hw_timestamp (\<lambda>_. rtc_regs g) = Some ts"
proof -
  have f: "mktime g = ts" "tm_mon g < 12" "tm_mday g < 100" "tm_hour g < 100" "tm_min g < 100" "tm_sec g < 100"
    using gmtime_at_inverse [of ts "t\<lparr>tm_gmtoff := 0\<rparr>"] assms(1)
    by (auto simp: gmtime_def intro: less_trans le_less_trans)
  show ?thesis
    using f(1) gmtime_gmtoff [OF assms(1)]
    by (simp add: arch_get_hw_timestamp_def rtc_datetime_eq [OF assms(2,3) f(2-6)] mktime_def)
qed

end
