(* ===== verification/Apic.thy ===== *)
theory Apic
  imports Acpi Clock
begin

text \<open>
  The interrupt controllers: \<open>src/arch/x86/apic.c\<close> and \<open>include/arch/x86/apic.h\<close>.

  The registers of the controllers are memory-mapped: the accesses form a history, the latest first, and a
  device is a function from the history so far and the address to the value a read finds there.  The records
  of the table \<open>MADT\<close> are read from the memory of the kernel; \<open>override_list\<close> and \<open>nmi_list\<close> hold the
  addresses of such records, as in the code.  The arrays of fixed size are lists of the entries in use.
  Messages are left out; \<open>None\<close> is a panic, a null pointer that is followed, or a loop that does not end.
\<close>

section \<open>Register accesses\<close>

datatype mmio_event = RegWrite addr_t u32 | RegRead addr_t

type_synonym mmio = "mmio_event list"
type_synonym mmio_device = "mmio \<Rightarrow> addr_t \<Rightarrow> u32"

definition reg_write :: "addr_t \<Rightarrow> u32 \<Rightarrow> mmio \<Rightarrow> mmio" where "reg_write a v h = RegWrite a v # h"
definition reg_read :: "mmio_device \<Rightarrow> addr_t \<Rightarrow> mmio \<Rightarrow> u32 \<times> mmio" where "reg_read dev a h = (dev h a, RegRead a # h)"

section \<open>State\<close>

record lapic_info =
  li_id :: u8
  li_acpi_id :: u8
  li_present :: bool
  ticks_per_10ms :: u32

record ioapic_info =
  io_id :: u8
  gsi_base :: u32
  io_base :: addr_t

record apic =
  lapic_list :: "lapic_info list"
  ioapic_list :: "ioapic_info list"
  override_list :: "addr_t list"
  nmi_list :: "addr_t list"
  lapic_base :: addr_t
  msrs :: "u32 \<Rightarrow> u64"
  regs :: mmio

definition MAX_LAPICS :: nat where "MAX_LAPICS = 32"
definition MAX_IOAPICS :: nat where "MAX_IOAPICS = 16"
definition MAX_NMIS :: nat where "MAX_NMIS = 2 * MAX_LAPICS"
definition MAX_OVERRIDES :: nat where "MAX_OVERRIDES = 48"

definition madt_lapic_address :: "mem \<Rightarrow> addr_t \<Rightarrow> u32" where "madt_lapic_address m t = load_u32 m (t + 36)"
definition madt_entries :: "addr_t \<Rightarrow> addr_t" where "madt_entries t = t + 44"

definition entry_type :: "mem \<Rightarrow> addr_t \<Rightarrow> u8" where "entry_type m e = m e"
definition entry_length :: "mem \<Rightarrow> addr_t \<Rightarrow> u8" where "entry_length m e = m (e + 1)"

definition MADT_LAPIC :: u8 where "MADT_LAPIC = 0"
definition lapic_acpi_id :: "mem \<Rightarrow> addr_t \<Rightarrow> u8" where "lapic_acpi_id m e = m (e + 2)"
definition lapic_apic_id :: "mem \<Rightarrow> addr_t \<Rightarrow> u8" where "lapic_apic_id m e = m (e + 3)"
definition lapic_flags :: "mem \<Rightarrow> addr_t \<Rightarrow> u32" where "lapic_flags m e = load_u32 m (e + 4)"

definition MADT_IOAPIC :: u8 where "MADT_IOAPIC = 1"
definition ioapic_apic_id :: "mem \<Rightarrow> addr_t \<Rightarrow> u8" where "ioapic_apic_id m e = m (e + 2)"
definition ioapic_phys_addr :: "mem \<Rightarrow> addr_t \<Rightarrow> u32" where "ioapic_phys_addr m e = load_u32 m (e + 4)"
definition ioapic_gsi_base :: "mem \<Rightarrow> addr_t \<Rightarrow> u32" where "ioapic_gsi_base m e = load_u32 m (e + 8)"

definition MADT_OVERRIDE :: u8 where "MADT_OVERRIDE = 2"
definition override_source :: "mem \<Rightarrow> addr_t \<Rightarrow> u8" where "override_source m e = m (e + 3)"
definition override_gsi :: "mem \<Rightarrow> addr_t \<Rightarrow> u32" where "override_gsi m e = load_u32 m (e + 4)"
definition override_flags :: "mem \<Rightarrow> addr_t \<Rightarrow> u16" where "override_flags m e = load_u16 m (e + 8)"

definition MADT_NMI :: u8 where "MADT_NMI = 4"
definition nmi_acpi_id :: "mem \<Rightarrow> addr_t \<Rightarrow> u8" where "nmi_acpi_id m e = m (e + 2)"
definition nmi_flags :: "mem \<Rightarrow> addr_t \<Rightarrow> u16" where "nmi_flags m e = load_u16 m (e + 3)"
definition nmi_lint_num :: "mem \<Rightarrow> addr_t \<Rightarrow> u8" where "nmi_lint_num m e = m (e + 5)"

definition MADT_LAPIC_ADDR :: u8 where "MADT_LAPIC_ADDR = 5"
definition entry_lapic_addr :: "mem \<Rightarrow> addr_t \<Rightarrow> u64" where "entry_lapic_addr m e = load_u64 m (e + 4)"

lemmas madt_types = MADT_LAPIC_def MADT_IOAPIC_def MADT_OVERRIDE_def MADT_NMI_def MADT_LAPIC_ADDR_def

section \<open>Reading the table\<close>

definition add_lapic :: "mem \<Rightarrow> addr_t \<Rightarrow> apic \<Rightarrow> apic" where
  "add_lapic m e a =
     (if lapic_flags m e = 0 then a
      else if length (lapic_list a) \<ge> MAX_LAPICS then a
      else a\<lparr>lapic_list := lapic_list a @
        [\<lparr>li_id = lapic_apic_id m e, li_acpi_id = lapic_acpi_id m e, li_present = (lapic_flags m e = 1), ticks_per_10ms = 0\<rparr>]\<rparr>)"

definition add_ioapic :: "acpi \<Rightarrow> addr_t \<Rightarrow> apic \<Rightarrow> pmm \<Rightarrow> (apic \<times> pmm) option" where
  "add_ioapic c e a s =
     (if length (ioapic_list a) \<ge> MAX_IOAPICS then Some (a, s)
      else do {
        (s1, base) \<leftarrow> kmap c (ucast (ioapic_phys_addr (pm_mem s) e)) PGSIZE s;
        Some (a\<lparr>ioapic_list := ioapic_list a @
          [\<lparr>io_id = ioapic_apic_id (pm_mem s) e, gsi_base = ioapic_gsi_base (pm_mem s) e, io_base = base\<rparr>]\<rparr>, s1) })"

definition add_override :: "addr_t \<Rightarrow> apic \<Rightarrow> apic" where
  "add_override e a =
     (if length (override_list a) \<ge> MAX_OVERRIDES then a else a\<lparr>override_list := override_list a @ [e]\<rparr>)"

definition add_nmi :: "addr_t \<Rightarrow> apic \<Rightarrow> apic" where
  "add_nmi e a = (if length (nmi_list a) \<ge> MAX_NMIS then a else a\<lparr>nmi_list := nmi_list a @ [e]\<rparr>)"

text \<open>One turn of the loop of \<open>parse_madt\<close>; the first component is \<open>tmp_lapic_base\<close>.\<close>

definition parse_entry :: "acpi \<Rightarrow> addr_t \<Rightarrow> addr_t \<times> apic \<times> pmm \<Rightarrow> (addr_t \<times> apic \<times> pmm) option" where
  "parse_entry c hdr = (\<lambda>(tmp, a, s).
     let m = pm_mem s; ty = entry_type m hdr
     in if ty = MADT_LAPIC then Some (tmp, add_lapic m hdr a, s)
        else if ty = MADT_IOAPIC then map_option (Pair tmp) (add_ioapic c hdr a s)
        else if ty = MADT_OVERRIDE then Some (tmp, add_override hdr a, s)
        else if ty = MADT_NMI then Some (tmp, add_nmi hdr a, s)
        else if ty = MADT_LAPIC_ADDR then Some (entry_lapic_addr m hdr, a, s)
        else Some (tmp, a, s))"

partial_function (option) parse_entries ::
  "acpi \<Rightarrow> addr_t \<Rightarrow> addr_t \<Rightarrow> addr_t \<times> apic \<times> pmm \<Rightarrow> (addr_t \<times> apic \<times> pmm) option" where
  [code]: "parse_entries c hdr table_end st =
     (if hdr < table_end
      then Option.bind (parse_entry c hdr st)
             (\<lambda>r. parse_entries c (hdr + ucast (entry_length (pm_mem (snd (snd r))) hdr)) table_end r)
      else Some st)"

definition parse_madt :: "acpi \<Rightarrow> addr_t \<Rightarrow> apic \<Rightarrow> pmm \<Rightarrow> (apic \<times> pmm) option" where
  "parse_madt c madt a s = do {
     (tmp, a, s) \<leftarrow> parse_entries c (madt_entries madt) (madt + ucast (acpi_length (pm_mem s) madt))
       (ucast (madt_lapic_address (pm_mem s) madt), a, s);
     (s, base) \<leftarrow> kmap c tmp PGSIZE s;
     Some (a\<lparr>lapic_base := base\<rparr>, s) }"

section \<open>The local controller\<close>

definition APIC_REG_ID :: u32 where "APIC_REG_ID = 0x20"
definition APIC_REG_EOI :: u32 where "APIC_REG_EOI = 0xB0"
definition APIC_REG_SPURIOUS :: u32 where "APIC_REG_SPURIOUS = 0xF0"
definition APIC_REG_LINT0 :: u32 where "APIC_REG_LINT0 = 0x350"
definition APIC_REG_LINT1 :: u32 where "APIC_REG_LINT1 = 0x360"
definition APIC_REG_ICR0 :: u32 where "APIC_REG_ICR0 = 0x300"
definition APIC_REG_ICR1 :: u32 where "APIC_REG_ICR1 = 0x310"
definition APIC_REG_TIMER_LVT :: u32 where "APIC_REG_TIMER_LVT = 0x320"
definition APIC_REG_TIMER_INITIAL :: u32 where "APIC_REG_TIMER_INITIAL = 0x380"
definition APIC_REG_TIMER_CURRENT :: u32 where "APIC_REG_TIMER_CURRENT = 0x390"
definition APIC_REG_TIMER_DIVIDE :: u32 where "APIC_REG_TIMER_DIVIDE = 0x3E0"
definition APIC_REG_ISR_BASE :: u32 where "APIC_REG_ISR_BASE = 0x100"
definition APIC_TIMER_PERIODIC :: u32 where "APIC_TIMER_PERIODIC = 0x20000"
definition APIC_DISABLE :: u32 where "APIC_DISABLE = 0x10000"
definition APIC_MSR :: u32 where "APIC_MSR = 0x1B"
definition APIC_MSR_ENABLE :: u64 where "APIC_MSR_ENABLE = 0x800"
definition IPI_BROADCAST :: u32 where "IPI_BROADCAST = 0xC0000"
definition IRQ_BASE :: "'a::len word" where "IRQ_BASE = 32"
definition IRQ_SPURIOUS :: "'a::len word" where "IRQ_SPURIOUS = 0xFF"
definition IRQ_LINT_TIMER :: "'a::len word" where "IRQ_LINT_TIMER = 254"
definition IRQ_NMI :: u8 where "IRQ_NMI = 251"

definition lapic_write :: "u32 \<Rightarrow> u32 \<Rightarrow> apic \<Rightarrow> apic" where
  "lapic_write reg_offset data a = a\<lparr>regs := reg_write (lapic_base a + ucast reg_offset) data (regs a)\<rparr>"

definition lapic_read :: "mmio_device \<Rightarrow> u32 \<Rightarrow> apic \<Rightarrow> u32 \<times> apic" where
  "lapic_read dev reg_offset a =
     (let (v, h) = reg_read dev (lapic_base a + ucast reg_offset) (regs a) in (v, a\<lparr>regs := h\<rparr>))"

text \<open>The index of the first local controller with an identifier, \<open>None\<close> for the null pointer.\<close>

fun find_lapic_from :: "u8 \<Rightarrow> nat \<Rightarrow> lapic_info list \<Rightarrow> nat option" where
  "find_lapic_from i n [] = None"
| "find_lapic_from i n (l # ls) = (if li_id l = i then Some n else find_lapic_from i (Suc n) ls)"

definition find_lapic :: "u8 \<Rightarrow> apic \<Rightarrow> nat option" where
  "find_lapic i a = find_lapic_from i 0 (lapic_list a)"

definition lapic_nmi :: "u8 \<Rightarrow> u16 \<Rightarrow> u32" where
  "lapic_nmi vec flags =
     (let nmi = 800 OR ucast vec;
          nmi = (if flags AND 2 \<noteq> 0 then nmi OR push_bit 13 1 else nmi)
      in if flags AND 8 \<noteq> 0 then nmi OR push_bit 15 1 else nmi)"

definition lapic_set_nmi :: "mem \<Rightarrow> u8 \<Rightarrow> addr_t \<Rightarrow> apic \<Rightarrow> apic" where
  "lapic_set_nmi m vec nmi_info a =
     (let nmi = lapic_nmi vec (nmi_flags m nmi_info)
      in if nmi_lint_num m nmi_info = 0 then lapic_write APIC_REG_LINT0 nmi a
         else if nmi_lint_num m nmi_info = 1 then lapic_write APIC_REG_LINT1 nmi a
         else a)"

definition lapic_id :: "mmio_device \<Rightarrow> apic \<Rightarrow> u8 \<times> apic" where
  "lapic_id dev a = (let (v, a) = lapic_read dev APIC_REG_ID a in (ucast (drop_bit 24 v), a))"

definition lapic_num :: "apic \<Rightarrow> u8" where "lapic_num a = of_nat (length (lapic_list a))"

text \<open>The two calls of \<open>clock_sleep\<close> read the ticks from the streams \<open>obs1\<close> and \<open>obs2\<close>.\<close>

definition lapic_timer_prepare :: "mmio_device \<Rightarrow> (nat \<Rightarrow> u64) \<Rightarrow> (nat \<Rightarrow> u64) \<Rightarrow> apic \<Rightarrow> (u32 \<times> apic) option" where
  "lapic_timer_prepare dev obs1 obs2 a = do {
     _ \<leftarrow> clock_sleep obs1 1;
     let a = lapic_write APIC_REG_TIMER_INITIAL 0xFFFFFFFF (lapic_write APIC_REG_TIMER_DIVIDE 0x3 a);
     _ \<leftarrow> clock_sleep obs2 (100 * HZ div 1000);
     let (current, a) = lapic_read dev APIC_REG_TIMER_CURRENT (lapic_write APIC_REG_TIMER_LVT APIC_DISABLE a);
     Some ((0xFFFFFFFF - current) div (100 div 10), a) }"

definition lapic_timer_enable :: "mmio_device \<Rightarrow> (nat \<Rightarrow> u64) \<Rightarrow> (nat \<Rightarrow> u64) \<Rightarrow> apic \<Rightarrow> apic option" where
  "lapic_timer_enable dev obs1 obs2 a = do {
     let (i, a) = lapic_id dev a;
     (period, a) \<leftarrow> lapic_timer_prepare dev obs1 obs2 a;
     k \<leftarrow> find_lapic i a;
     let a = a\<lparr>lapic_list := (lapic_list a)[k := (lapic_list a ! k)\<lparr>ticks_per_10ms := period\<rparr>]\<rparr>;
     let a = lapic_write APIC_REG_TIMER_DIVIDE 0x3 a;
     let a = lapic_write APIC_REG_TIMER_LVT (IRQ_LINT_TIMER OR APIC_TIMER_PERIODIC) a;
     Some (lapic_write APIC_REG_TIMER_INITIAL period a) }"

fun lapic_nmis :: "mem \<Rightarrow> u8 option \<Rightarrow> addr_t list \<Rightarrow> apic \<Rightarrow> apic option" where
  "lapic_nmis m acpi_id [] a = Some a"
| "lapic_nmis m None (n # ns) a = None"
| "lapic_nmis m (Some i) (n # ns) a =
     lapic_nmis m (Some i) ns
       (if nmi_acpi_id m n = i \<or> nmi_acpi_id m n = 0xFF then lapic_set_nmi m IRQ_NMI n a else a)"

text \<open>\<open>lapic_enable\<close> also tells whether the handler of the timer is to be registered, which the interrupt core does.\<close>

definition lapic_enable :: "mmio_device \<Rightarrow> mem \<Rightarrow> apic \<Rightarrow> (bool \<times> apic) option" where
  "lapic_enable dev m a = do {
     let a = a\<lparr>msrs := (msrs a)(APIC_MSR := paddr (lapic_base a) OR APIC_MSR_ENABLE)\<rparr>;
     let (i, a) = lapic_id dev a;
     a \<leftarrow> lapic_nmis m (map_option (\<lambda>k. li_acpi_id (lapic_list a ! k)) (find_lapic i a)) (nmi_list a) a;
     let (v, a) = lapic_read dev APIC_REG_SPURIOUS a;
     let a = lapic_write APIC_REG_SPURIOUS (v OR push_bit 8 1 OR IRQ_SPURIOUS) a;
     Some (i = 0, lapic_write APIC_REG_EOI 0 a) }"

definition lapic_eoi :: "mmio_device \<Rightarrow> u8 \<Rightarrow> apic \<Rightarrow> apic" where
  "lapic_eoi dev vec a =
     (let (v, a) = lapic_read dev (APIC_REG_ISR_BASE + 0x10 * (ucast vec div 32)) a
      in if v AND push_bit (unat (vec mod 32)) 1 \<noteq> 0 then lapic_write APIC_REG_EOI 0 a else a)"

definition lapic_send_ipi :: "u8 \<Rightarrow> u32 \<Rightarrow> apic \<Rightarrow> apic option" where
  "lapic_send_ipi target flags a =
     (if lapic_base a = 0 then None
      else Some (lapic_write APIC_REG_ICR0 flags
        (if flags AND IPI_BROADCAST = 0 then lapic_write APIC_REG_ICR1 (push_bit 24 (ucast target)) a else a)))"

section \<open>The I/O controller\<close>

definition IOAPIC_REG_VER :: u8 where "IOAPIC_REG_VER = 1"
definition IOAPIC_REG_REDTBL :: u32 where "IOAPIC_REG_REDTBL = 16"
definition APIC_IRQ_MASK :: u64 where "APIC_IRQ_MASK = 0x10000"

definition ioapic_read :: "mmio_device \<Rightarrow> addr_t \<Rightarrow> u8 \<Rightarrow> mmio \<Rightarrow> u32 \<times> mmio" where
  "ioapic_read dev ioapic reg h = reg_read dev (ioapic + 16) (reg_write ioapic (ucast reg AND 0xFF) h)"

definition ioapic_write :: "addr_t \<Rightarrow> u8 \<Rightarrow> u32 \<Rightarrow> mmio \<Rightarrow> mmio" where
  "ioapic_write ioapic reg data h = reg_write (ioapic + 16) data (reg_write ioapic (ucast reg AND 0xFF) h)"

definition get_max_redirs :: "mmio_device \<Rightarrow> ioapic_info \<Rightarrow> mmio \<Rightarrow> u32 \<times> mmio" where
  "get_max_redirs dev io h =
     (let (v, h) = ioapic_read dev (io_base io) IOAPIC_REG_VER h in (drop_bit 16 (v AND 0xFF0000), h))"

fun gsi_search :: "mmio_device \<Rightarrow> u32 \<Rightarrow> ioapic_info list \<Rightarrow> mmio \<Rightarrow> (ioapic_info \<times> mmio) option" where
  "gsi_search dev gsi [] h = None"
| "gsi_search dev gsi (io # ios) h =
     (let (max_redirs, h) = get_max_redirs dev io h
      in if gsi_base io \<le> gsi \<and> gsi_base io + max_redirs > gsi then Some (io, h) else gsi_search dev gsi ios h)"

definition gsi_to_ioapic :: "mmio_device \<Rightarrow> u32 \<Rightarrow> apic \<Rightarrow> (ioapic_info \<times> apic) option" where
  "gsi_to_ioapic dev gsi a = map_option (\<lambda>(io, h). (io, a\<lparr>regs := h\<rparr>)) (gsi_search dev gsi (ioapic_list a) (regs a))"

definition ioapic_redtbl_read :: "mmio_device \<Rightarrow> addr_t \<Rightarrow> u8 \<Rightarrow> mmio \<Rightarrow> u64 \<times> mmio" where
  "ioapic_redtbl_read dev ioapic irq_line h =
     (let ioredtbl = ucast irq_line * 2 + IOAPIC_REG_REDTBL;
          (low, h) = ioapic_read dev ioapic (ucast ioredtbl) h;
          (high, h) = ioapic_read dev ioapic (ucast (ioredtbl + 1)) h
      in (ucast low OR push_bit 32 (ucast high), h))"

definition ioapic_redtbl_write :: "addr_t \<Rightarrow> u8 \<Rightarrow> u64 \<Rightarrow> mmio \<Rightarrow> mmio" where
  "ioapic_redtbl_write ioapic irq_line value h =
     (let ioredtbl = ucast irq_line * 2 + IOAPIC_REG_REDTBL
      in ioapic_write ioapic (ucast (ioredtbl + 1)) (ucast (drop_bit 32 value))
           (ioapic_write ioapic (ucast (ioredtbl + 0)) (ucast value) h))"

text \<open>\<open>lapic_list[i].id\<close>: entries that were never written hold 0.\<close>

definition lapic_list_id :: "apic \<Rightarrow> u8 \<Rightarrow> u8 option" where
  "lapic_list_id a i =
     (if unat i < length (lapic_list a) then Some (li_id (lapic_list a ! unat i))
      else if unat i < MAX_LAPICS then Some 0 else None)"

definition redirection :: "u32 \<Rightarrow> u16 \<Rightarrow> u8 \<Rightarrow> u64" where
  "redirection gsi flags target_id =
     (let r = ucast (gsi + IRQ_BASE);
          r = (if flags AND 2 \<noteq> 0 then r OR push_bit 13 1 else r);
          r = (if flags AND 8 \<noteq> 0 then r OR push_bit 15 1 else r)
      in r OR push_bit 56 (ucast target_id))"

definition ioapic_redirect :: "mmio_device \<Rightarrow> u32 \<Rightarrow> u8 \<Rightarrow> u16 \<Rightarrow> u8 \<Rightarrow> apic \<Rightarrow> apic option" where
  "ioapic_redirect dev gsi source flags target_apic a = do {
     target_apic_id \<leftarrow> lapic_list_id a target_apic;
     (io, a) \<leftarrow> gsi_to_ioapic dev gsi a;
     Some (a\<lparr>regs := ioapic_redtbl_write (io_base io) (ucast (gsi - gsi_base io)) (redirection gsi flags target_apic_id) (regs a)\<rparr>) }"

definition ioapic_update :: "(u64 \<Rightarrow> u64) \<Rightarrow> mmio_device \<Rightarrow> u32 \<Rightarrow> apic \<Rightarrow> apic option" where
  "ioapic_update f dev gsi a = do {
     (io, a) \<leftarrow> gsi_to_ioapic dev gsi a;
     let irq_line = ucast (gsi - gsi_base io);
     let (prev, h) = ioapic_redtbl_read dev (io_base io) irq_line (regs a);
     Some (a\<lparr>regs := ioapic_redtbl_write (io_base io) irq_line (f prev) h\<rparr>) }"

definition ioapic_mask :: "mmio_device \<Rightarrow> u32 \<Rightarrow> apic \<Rightarrow> apic option" where
  "ioapic_mask = ioapic_update (\<lambda>prev. prev OR APIC_IRQ_MASK)"

definition ioapic_unmask :: "mmio_device \<Rightarrow> u32 \<Rightarrow> apic \<Rightarrow> apic option" where
  "ioapic_unmask = ioapic_update (\<lambda>prev. prev AND NOT APIC_IRQ_MASK)"

fun isa_to_gsi_in :: "mem \<Rightarrow> addr_t list \<Rightarrow> u8 \<Rightarrow> u8" where
  "isa_to_gsi_in m [] isa = isa"
| "isa_to_gsi_in m (e # es) isa = (if override_source m e = isa then ucast (override_gsi m e) else isa_to_gsi_in m es isa)"

definition ioapic_isa_to_gsi :: "mem \<Rightarrow> apic \<Rightarrow> u8 \<Rightarrow> u8" where
  "ioapic_isa_to_gsi m a isa = isa_to_gsi_in m (override_list a) isa"

fun gsi_to_isa_in :: "mem \<Rightarrow> addr_t list \<Rightarrow> u8 \<Rightarrow> u8" where
  "gsi_to_isa_in m [] gsi = gsi"
| "gsi_to_isa_in m (e # es) gsi = (if override_gsi m e = ucast gsi then override_source m e else gsi_to_isa_in m es gsi)"

definition ioapic_gsi_to_isa :: "mem \<Rightarrow> apic \<Rightarrow> u8 \<Rightarrow> u8" where
  "ioapic_gsi_to_isa m a gsi = gsi_to_isa_in m (override_list a) gsi"

text \<open>The two loops of \<open>ioapic_init\<close>: each redirects a line and masks it.\<close>

fun route_lines :: "mmio_device \<Rightarrow> (u32 \<times> u8 \<times> u16) list \<Rightarrow> apic \<Rightarrow> apic option" where
  "route_lines dev [] a = Some a"
| "route_lines dev ((gsi, source, flags) # ls) a = do {
     a \<leftarrow> ioapic_redirect dev gsi source flags 0 a;
     a \<leftarrow> ioapic_mask dev gsi a;
     route_lines dev ls a }"

definition ioapic_lines :: "mem \<Rightarrow> apic \<Rightarrow> (u32 \<times> u8 \<times> u16) list" where
  "ioapic_lines m a =
     map (\<lambda>i. (of_nat i, of_nat i, 0)) [0..<16] @
     map (\<lambda>e. (override_gsi m e, override_source m e, override_flags m e)) (override_list a)"

definition ioapic_init :: "mmio_device \<Rightarrow> mem \<Rightarrow> apic \<Rightarrow> apic option" where
  "ioapic_init dev m a = route_lines dev (ioapic_lines m a) a"

definition apic_init :: "mmio_device \<Rightarrow> cpu_feature \<Rightarrow> acpi \<Rightarrow> addr_t \<Rightarrow> apic \<Rightarrow> pmm \<Rightarrow> (apic \<times> pmm \<times> cint) option" where
  "apic_init dev features c apic_string a s =
     (if check_cpu_feature features (feature_number FEAT_X86_APIC) = 0 then Some (a, s, 0)
      else do {
        (s, madt) \<leftarrow> acpi_find_table c apic_string s;
        if madt = 0 then Some (a, s, 0)
        else do {
          (a, s) \<leftarrow> parse_madt c madt a s;
          a \<leftarrow> ioapic_init dev (pm_mem s) a;
          Some (a, s, 1) } })"

section \<open>The registers of an I/O controller\<close>

text \<open>What the two windows of an I/O controller do, as its data sheet has it: the register that was selected
  last is the one the data window reads and writes.  \<open>reset\<close> holds the values after reset.\<close>

fun selected :: "addr_t \<Rightarrow> mmio \<Rightarrow> u32" where
  "selected base [] = 0"
| "selected base (RegWrite a v # h) = (if a = base then v else selected base h)"
| "selected base (RegRead a # h) = selected base h"

fun io_register :: "(u32 \<Rightarrow> u32) \<Rightarrow> addr_t \<Rightarrow> mmio \<Rightarrow> u32 \<Rightarrow> u32" where
  "io_register reset base [] r = reset r"
| "io_register reset base (RegWrite a v # h) r =
     (if a = base + 16 \<and> selected base h = r then v else io_register reset base h r)"
| "io_register reset base (RegRead a # h) r = io_register reset base h r"

text \<open>Bits 12 (delivery status) and 14 (remote IRR) of a redirection entry belong to the controller: reading
  them gives anything.  The version register holds the number of the last entry.\<close>

definition ioapic_device :: "mmio_device \<Rightarrow> addr_t \<Rightarrow> u32 \<Rightarrow> (u32 \<Rightarrow> u32) \<Rightarrow> bool" where
  "ioapic_device dev base last_entry reset \<longleftrightarrow>
     (\<forall>h. (selected base h = 1 \<longrightarrow> drop_bit 16 (dev h (base + 16) AND 0xFF0000) = last_entry) \<and>
          (selected base h \<ge> 16 \<longrightarrow>
            dev h (base + 16) AND NOT 0x5000 = io_register reset base h (selected base h) AND NOT 0x5000))"

definition ioapic_owned :: u64 where "ioapic_owned = 0x500000005000"

definition redtbl :: "(u32 \<Rightarrow> u32) \<Rightarrow> addr_t \<Rightarrow> mmio \<Rightarrow> u8 \<Rightarrow> u64" where
  "redtbl reset base h line =
     ucast (io_register reset base h (ucast line * 2 + 16)) OR
     push_bit 32 (ucast (io_register reset base h (ucast line * 2 + 17)))"

definition same_registers :: "addr_t \<Rightarrow> mmio \<Rightarrow> mmio \<Rightarrow> bool" where
  "same_registers base h h' \<longleftrightarrow> (\<forall>reset r. io_register reset base h' r = io_register reset base h r)"

lemma window_apart [simp]: "base \<noteq> base + 16" "base + 16 \<noteq> base" for base :: addr_t
  by simp_all

lemma register_number:
  fixes line :: u8
  assumes "line < 120"
  shows "unat (ucast line * 2 + 16 :: u32) = 2 * unat line + 16"
    and "ucast (ucast (ucast line * 2 + 16 :: u32) :: u8) AND 0xFF = (ucast line * 2 + 16 :: u32)"
    and "ucast (ucast (ucast line * 2 + 17 :: u32) :: u8) AND 0xFF = (ucast line * 2 + 17 :: u32)"
proof -
  have l: "unat line < 120" using assms by (simp add: word_less_nat_alt)
  have u: "unat (ucast line * 2 + k :: u32) = 2 * unat line + unat k" if "unat k < 18" for k :: u32
    using l that by (simp add: unat_word_ariths unsigned_ucast_eq take_bit_eq_mod [where 'a = nat])
  have w: "ucast (ucast (x :: u32) :: u8) AND 0xFF = x" if "unat x < 256" for x
  proof -
    have "x = take_bit 8 x" using that by (simp add: word_unat_eq_iff unsigned_take_bit_eq take_bit_eq_mod [where 'a = nat])
    then have "bit x k \<Longrightarrow> k < 8" for k by (metis bit_take_bit_iff)
    moreover have m: "(0xFF :: u32) = mask 8" by (simp add: mask_eq_exp_minus_1)
    ultimately show ?thesis unfolding m by (intro bit_word_eqI) (auto simp: bit_simps simp del: mask_numeral)
  qed
  show "unat (ucast line * 2 + 16 :: u32) = 2 * unat line + 16" using u [of 16] by simp
  show "ucast (ucast (ucast line * 2 + 16 :: u32) :: u8) AND 0xFF = (ucast line * 2 + 16 :: u32)"
    by (rule w) (use u [of 16] l in simp)
  show "ucast (ucast (ucast line * 2 + 17 :: u32) :: u8) AND 0xFF = (ucast line * 2 + 17 :: u32)"
    by (rule w) (use u [of 17] l in simp)
qed

lemma register_unat:
  fixes line :: u8
  assumes "line < 120"
  shows "unat (ucast line * 2 + 17 :: u32) = 2 * unat line + 17"
proof -
  have "unat line < 120" using assms by (simp add: word_less_nat_alt)
  then show ?thesis by (simp add: unat_word_ariths unsigned_ucast_eq take_bit_eq_mod [where 'a = nat])
qed

lemma register_apart:
  fixes line j :: u8
  assumes "line < 120" "j < 120"
  shows "(ucast line * 2 + 16 :: u32) = ucast j * 2 + 16 \<longleftrightarrow> line = j" "(ucast line * 2 + 17 :: u32) = ucast j * 2 + 17 \<longleftrightarrow> line = j"
    "(ucast line * 2 + 16 :: u32) \<noteq> ucast j * 2 + 17" "(ucast line * 2 + 17 :: u32) \<noteq> ucast j * 2 + 16"
proof -
  note u = register_number(1) [OF assms(1)] register_number(1) [OF assms(2)] register_unat [OF assms(1)] register_unat [OF assms(2)]
  show "(ucast line * 2 + 16 :: u32) = ucast j * 2 + 16 \<longleftrightarrow> line = j" "(ucast line * 2 + 17 :: u32) = ucast j * 2 + 17 \<longleftrightarrow> line = j"
    by (auto simp only: word_unat_eq_iff u)
  show "(ucast line * 2 + 16 :: u32) \<noteq> ucast j * 2 + 17" "(ucast line * 2 + 17 :: u32) \<noteq> ucast j * 2 + 16"
    unfolding word_unat_eq_iff u by presburger+
qed

lemma split_u64: "ucast (ucast v :: u32) OR push_bit 32 (ucast (ucast (drop_bit 32 v) :: u32)) = v" for v :: u64
  by (rule bit_word_eqI) (auto simp: bit_simps)

lemma redtbl_write:
  assumes "line < 120" "j < 120"
  shows "redtbl reset base (ioapic_redtbl_write base line v h) j = (if j = line then v else redtbl reset base h j)"
  using register_apart [OF assms] register_number(2,3) [OF assms(1)]
  by (auto simp: redtbl_def ioapic_redtbl_write_def ioapic_write_def reg_write_def IOAPIC_REG_REDTBL_def Let_def split_u64 add.assoc)

lemma same_registers_refl [simp]: "same_registers base h h"
  by (simp add: same_registers_def)

lemma same_registers_redtbl: "same_registers base h h' \<Longrightarrow> redtbl reset base h' = redtbl reset base h"
  by (rule ext) (simp add: same_registers_def redtbl_def)

lemma ioapic_read_same: "same_registers base h (snd (ioapic_read dev base reg h))"
  by (simp add: same_registers_def ioapic_read_def reg_read_def reg_write_def)

lemma redtbl_read:
  assumes "ioapic_device dev base n reset" "line < 120"
  shows "fst (ioapic_redtbl_read dev base line h) AND NOT ioapic_owned = redtbl reset base h line AND NOT ioapic_owned"
    and "same_registers base h (snd (ioapic_redtbl_read dev base line h))"
proof -
  have data: "dev h (base + 16) AND NOT 0x5000 = io_register reset base h (selected base h) AND NOT 0x5000"
    if "selected base h \<ge> 16" for h using assms(1) that by (simp add: ioapic_device_def)
  note n = register_number [OF assms(2)] register_unat [OF assms(2)]
  have ge: "(ucast line * 2 + 16 :: u32) \<ge> 16" "(ucast line * 2 + 17 :: u32) \<ge> 16"
    by (simp_all add: word_le_nat_alt n)
  let ?l = "ucast line * 2 + 16 :: u32" and ?u = "ucast line * 2 + 17 :: u32"
  let ?h1 = "RegWrite base ?l # h" and ?h2 = "RegWrite base ?u # RegRead (base + 16) # RegWrite base ?l # h"
  have r: "ioapic_redtbl_read dev base line h =
      (ucast (dev ?h1 (base + 16)) OR push_bit 32 (ucast (dev ?h2 (base + 16))), RegRead (base + 16) # ?h2)"
    by (simp add: ioapic_redtbl_read_def ioapic_read_def reg_read_def reg_write_def IOAPIC_REG_REDTBL_def Let_def n add.assoc)
  have m: "(ucast (x :: u32) OR push_bit 32 (ucast (y :: u32)) :: u64) AND NOT 0x500000005000 =
      ucast (x AND NOT 0x5000) OR push_bit 32 (ucast (y AND NOT 0x5000))" for x y
  proof -
    have "(ucast x OR push_bit 32 (ucast y) :: u64) AND NOT (ucast c OR push_bit 32 (ucast c)) =
        ucast (x AND NOT c) OR push_bit 32 (ucast (y AND NOT c))" for c :: u32
      by (rule bit_word_eqI) (auto simp: bit_simps dest: bit_imp_le_length)
    from this [of "0x5000"] show ?thesis by (simp add: push_bit_eq_mult)
  qed
  show "fst (ioapic_redtbl_read dev base line h) AND NOT ioapic_owned = redtbl reset base h line AND NOT ioapic_owned"
    using data [of ?h1] data [of ?h2] ge unfolding ioapic_owned_def r redtbl_def fst_conv m by simp
  show "same_registers base h (snd (ioapic_redtbl_read dev base line h))"
    by (simp add: r same_registers_def)
qed

lemma gsi_search_one:
  assumes "ioapic_device dev (io_base io) n reset"
  shows "gsi_search dev gsi [io] h =
    (if gsi_base io \<le> gsi \<and> gsi < gsi_base io + n
     then Some (io, RegRead (io_base io + 16) # RegWrite (io_base io) 1 # h) else None)"
proof -
  have "drop_bit 16 (dev (RegWrite (io_base io) 1 # h) (io_base io + 16) AND 0xFF0000) = n"
    using assms unfolding ioapic_device_def by (metis selected.simps(2))
  then show ?thesis
    by (simp add: get_max_redirs_def ioapic_read_def reg_read_def reg_write_def IOAPIC_REG_VER_def)
qed

end
