(* ===== verification/Routing.thy ===== *)
theory Routing
  imports Apic
begin

text \<open>
  The routing of interrupts by the controllers of \<open>Apic\<close>: masking and unmasking a line, the vectors of the ISA
  interrupts, the table \<open>APIC\<close> and the start-up \<open>apic_init\<close> that joins the ACPI search, the table and the controller.
\<close>

section \<open>One I/O controller\<close>

text \<open>A machine with a single I/O controller that obeys its data sheet.\<close>

definition one_ioapic :: "mmio_device \<Rightarrow> u32 \<Rightarrow> (u32 \<Rightarrow> u32) \<Rightarrow> ioapic_info \<Rightarrow> apic \<Rightarrow> bool" where
  "one_ioapic dev n reset io a \<longleftrightarrow>
     ioapic_list a = [io] \<and> ioapic_device dev (io_base io) n reset \<and> n \<le> 120 \<and> unat (gsi_base io) + unat n < 2 ^ 32"

definition in_range :: "ioapic_info \<Rightarrow> u32 \<Rightarrow> u32 \<Rightarrow> bool" where
  "in_range io n gsi \<longleftrightarrow> unat (gsi_base io) \<le> unat gsi \<and> unat gsi < unat (gsi_base io) + unat n"

definition line_of :: "ioapic_info \<Rightarrow> u32 \<Rightarrow> u8" where "line_of io gsi = ucast (gsi - gsi_base io)"

abbreviation entry_of :: "(u32 \<Rightarrow> u32) \<Rightarrow> ioapic_info \<Rightarrow> apic \<Rightarrow> u32 \<Rightarrow> u64" where
  "entry_of reset io a gsi \<equiv> redtbl reset (io_base io) (regs a) (line_of io gsi)"

lemma in_range_word:
  assumes "one_ioapic dev n reset io a"
  shows "gsi_base io \<le> gsi \<and> gsi < gsi_base io + n \<longleftrightarrow> in_range io n gsi"
  using assms by (simp add: one_ioapic_def in_range_def word_le_nat_alt word_less_nat_alt unat_add_lem [THEN iffD1])

lemma line_unat:
  assumes "one_ioapic dev n reset io a" "in_range io n gsi"
  shows "unat (line_of io gsi) = unat gsi - unat (gsi_base io)" "line_of io gsi < 120"
proof -
  have n: "unat n \<le> 120" using assms(1) by (simp add: one_ioapic_def word_le_nat_alt)
  have "unat (gsi - gsi_base io) = unat gsi - unat (gsi_base io)"
    using assms(2) by (intro unat_sub) (simp add: in_range_def word_le_nat_alt)
  moreover have "unat gsi - unat (gsi_base io) < 256"
    using assms(2) n unfolding in_range_def by linarith
  ultimately show "unat (line_of io gsi) = unat gsi - unat (gsi_base io)"
    by (simp add: line_of_def unsigned_ucast_eq take_bit_eq_mod [where 'a = nat])
  then show "line_of io gsi < 120" using assms(2) n unfolding in_range_def word_less_nat_alt by simp linarith
qed

lemma line_inj:
  assumes "one_ioapic dev n reset io a" "in_range io n g" "in_range io n g'"
  shows "line_of io g = line_of io g' \<longleftrightarrow> g = g'"
  using line_unat(1) [OF assms(1,2)] line_unat(1) [OF assms(1,3)] assms(2,3)
  by (auto simp: in_range_def word_unat_eq_iff)

lemma one_ioapic_regs [simp]: "one_ioapic dev n reset io (a\<lparr>regs := h\<rparr>) = one_ioapic dev n reset io a"
  by (simp add: one_ioapic_def)

lemma gsi_to_ioapic_one:
  assumes "one_ioapic dev n reset io a"
  shows "gsi_to_ioapic dev gsi a = (if in_range io n gsi
    then Some (io, a\<lparr>regs := RegRead (io_base io + 16) # RegWrite (io_base io) 1 # regs a\<rparr>) else None)"
  using assms gsi_search_one [of dev io n reset gsi "regs a"] in_range_word [OF assms, of gsi]
  by (auto simp: gsi_to_ioapic_def one_ioapic_def)

lemma probe_same: "redtbl reset base (RegRead (base + 16) # RegWrite base r # h) = redtbl reset base h"
  by (rule same_registers_redtbl) (simp add: same_registers_def)

lemma ioapic_update_one:
  assumes "one_ioapic dev n reset io a" "in_range io n gsi"
  shows "\<exists>v h. ioapic_update f dev gsi a = Some (a\<lparr>regs := h\<rparr>) \<and>
    v AND NOT ioapic_owned = entry_of reset io a gsi AND NOT ioapic_owned \<and>
    entry_of reset io (a\<lparr>regs := h\<rparr>) gsi = f v \<and>
    (\<forall>j. j < 120 \<and> j \<noteq> line_of io gsi \<longrightarrow> redtbl reset (io_base io) h j = redtbl reset (io_base io) (regs a) j)"
proof -
  let ?b = "io_base io" and ?l = "line_of io gsi"
  let ?h1 = "RegRead (?b + 16) # RegWrite ?b 1 # regs a"
  obtain v h2 where r: "ioapic_redtbl_read dev ?b ?l ?h1 = (v, h2)" by fastforce
  have d: "ioapic_device dev ?b n reset" using assms(1) by (simp add: one_ioapic_def)
  note l = line_unat(2) [OF assms]
  have s: "redtbl reset ?b h2 = redtbl reset ?b (regs a)"
    using same_registers_redtbl [OF redtbl_read(2) [OF d l, of ?h1]] by (simp add: r probe_same)
  show ?thesis
  proof (intro exI conjI allI impI)
    show "ioapic_update f dev gsi a = Some (a\<lparr>regs := ioapic_redtbl_write ?b ?l (f v) h2\<rparr>)"
      using r by (simp add: ioapic_update_def gsi_to_ioapic_one [OF assms(1)] assms(2) line_of_def)
    show "v AND NOT ioapic_owned = entry_of reset io a gsi AND NOT ioapic_owned"
      using redtbl_read(1) [OF d l, of ?h1] by (simp add: r probe_same)
  qed (simp_all add: redtbl_write [OF l] l s)
qed

lemma ioapic_update_refused:
  assumes "one_ioapic dev n reset io a" "\<not> in_range io n gsi"
  shows "ioapic_update f dev gsi a = None"
  using assms by (simp add: ioapic_update_def gsi_to_ioapic_one)

section \<open>Masking\<close>

lemma bit_owned: "bit ioapic_owned b \<longleftrightarrow> b \<in> {12, 14, 44, 46}"
proof -
  have e: "ioapic_owned = push_bit 12 1 OR push_bit 14 1 OR push_bit 44 1 OR push_bit 46 1"
    by (simp add: ioapic_owned_def push_bit_eq_mult)
  show ?thesis unfolding e by (auto simp: bit_simps simp del: push_bit_of_1)
qed

lemma bit_irq_mask: "bit APIC_IRQ_MASK b \<longleftrightarrow> b = 16"
proof -
  have e: "APIC_IRQ_MASK = push_bit 16 1" by (simp add: APIC_IRQ_MASK_def push_bit_eq_mult)
  show ?thesis unfolding e by (auto simp: bit_simps simp del: push_bit_of_1)
qed

lemma writable_bit:
  assumes "v AND NOT ioapic_owned = e AND NOT ioapic_owned" "b \<notin> {12, 14, 44, 46}"
  shows "bit v b = bit e b"
proof -
  have "bit (v AND NOT ioapic_owned) b = bit (e AND NOT ioapic_owned) b" by (simp only: assms(1))
  then show ?thesis using assms(2) by (auto simp: bit_and_iff bit_not_iff bit_owned dest: bit_imp_le_length)
qed

text \<open>C38: \<open>ioapic_unmask\<close> and \<open>ioapic_mask\<close> clear and set the mask bit of their own line, keep every other bit
  of its entry that software owns, and do not touch the other lines; masking after unmasking gives back the
  entry of a masked line.  This holds for every controller that obeys its data sheet.\<close>

theorem ioapic_mask_unmask:
  assumes "one_ioapic dev n reset io a" "in_range io n gsi"
  shows "\<exists>a1 a2. ioapic_unmask dev gsi a = Some a1 \<and> ioapic_mask dev gsi a1 = Some a2 \<and>
    \<not> bit (entry_of reset io a1 gsi) 16 \<and> bit (entry_of reset io a2 gsi) 16 \<and>
    (\<forall>b. b \<notin> {12, 14, 44, 46, 16} \<longrightarrow> bit (entry_of reset io a1 gsi) b = bit (entry_of reset io a gsi) b \<and>
      bit (entry_of reset io a2 gsi) b = bit (entry_of reset io a gsi) b) \<and>
    (\<forall>g. in_range io n g \<and> g \<noteq> gsi \<longrightarrow> entry_of reset io a2 g = entry_of reset io a g)"
proof -
  obtain v1 h1 where 1: "ioapic_unmask dev gsi a = Some (a\<lparr>regs := h1\<rparr>)"
      "v1 AND NOT ioapic_owned = entry_of reset io a gsi AND NOT ioapic_owned"
      "entry_of reset io (a\<lparr>regs := h1\<rparr>) gsi = v1 AND NOT APIC_IRQ_MASK"
      "\<forall>j. j < 120 \<and> j \<noteq> line_of io gsi \<longrightarrow> redtbl reset (io_base io) h1 j = redtbl reset (io_base io) (regs a) j"
    using ioapic_update_one [OF assms, of "\<lambda>prev. prev AND NOT APIC_IRQ_MASK"] unfolding ioapic_unmask_def by blast
  let ?a1 = "a\<lparr>regs := h1\<rparr>"
  have one: "one_ioapic dev n reset io ?a1" using assms(1) by simp
  obtain v2 h2 where 2: "ioapic_mask dev gsi ?a1 = Some (?a1\<lparr>regs := h2\<rparr>)"
      "v2 AND NOT ioapic_owned = entry_of reset io ?a1 gsi AND NOT ioapic_owned"
      "entry_of reset io (?a1\<lparr>regs := h2\<rparr>) gsi = v2 OR APIC_IRQ_MASK"
      "\<forall>j. j < 120 \<and> j \<noteq> line_of io gsi \<longrightarrow> redtbl reset (io_base io) h2 j = redtbl reset (io_base io) (regs ?a1) j"
    using ioapic_update_one [OF one assms(2), of "\<lambda>prev. prev OR APIC_IRQ_MASK"] unfolding ioapic_mask_def by blast
  let ?a2 = "?a1\<lparr>regs := h2\<rparr>"
  have b1: "bit (entry_of reset io ?a1 gsi) b = (b \<noteq> 16 \<and> bit (entry_of reset io a gsi) b)" if "b \<notin> {12, 14, 44, 46}" for b
    using writable_bit [OF 1(2) that] unfolding 1(3)
    by (auto simp: bit_and_iff bit_not_iff bit_irq_mask dest: bit_imp_le_length)
  have b2: "bit (entry_of reset io ?a2 gsi) b = (b = 16 \<or> bit (entry_of reset io ?a1 gsi) b)" if "b \<notin> {12, 14, 44, 46}" for b
    using writable_bit [OF 2(2) that] unfolding 2(3) by (auto simp: bit_or_iff bit_irq_mask)
  have frame: "entry_of reset io ?a2 g = entry_of reset io a g" if "in_range io n g" "g \<noteq> gsi" for g
    using 1(4) [rule_format, of "line_of io g"] 2(4) [rule_format, of "line_of io g"] line_unat(2) [OF assms(1) that(1)]
      line_inj [OF assms(1) that(1) assms(2)] that(2) by simp
  show ?thesis
    using 1(1) 2(1) b1 b2 frame by (intro exI [of _ ?a1] exI [of _ ?a2]) simp
qed

definition sample_ioapic :: ioapic_info where
  "sample_ioapic = \<lparr>io_id = 2, gsi_base = 0, io_base = 0xFFFF8000FEC00000\<rparr>"

definition sample_reset :: "u32 \<Rightarrow> u32" where "sample_reset r = 0x10000"

definition sample_device :: mmio_device where
  "sample_device h p =
     (let base = 0xFFFF8000FEC00000; r = selected base h
      in if p \<noteq> base + 16 then 0 else if r = 1 then 0x170020 else io_register sample_reset base h r)"

definition sample_apic :: apic where
  "sample_apic = \<lparr>lapic_list = [], ioapic_list = [sample_ioapic], override_list = [], nmi_list = [],
     lapic_base = 0xFFFF8000FEE00000, msrs = (\<lambda>_. 0), regs = []\<rparr>"

lemma sample_device_ok: "ioapic_device sample_device 0xFFFF8000FEC00000 23 sample_reset"
  by (auto simp: ioapic_device_def sample_device_def Let_def word_le_nat_alt)

lemma sample_one: "one_ioapic sample_device 23 sample_reset sample_ioapic sample_apic"
  using sample_device_ok by (simp add: one_ioapic_def sample_apic_def sample_ioapic_def)

theorem ioapic_mask_unmask_witness:
  "\<exists>a1. ioapic_unmask sample_device 2 sample_apic = Some a1 \<and> entry_of sample_reset sample_ioapic a1 2 AND 0x10000 = 0"
proof -
  have "in_range sample_ioapic 23 2" by (simp add: in_range_def sample_ioapic_def)
  from ioapic_mask_unmask [OF sample_one this] obtain a1 where
    a: "ioapic_unmask sample_device 2 sample_apic = Some a1" "\<not> bit (entry_of sample_reset sample_ioapic a1 2) 16" by blast
  have "entry_of sample_reset sample_ioapic a1 2 AND APIC_IRQ_MASK = 0"
    by (rule bit_word_eqI) (use a(2) in \<open>auto simp: bit_and_iff bit_irq_mask\<close>)
  then show ?thesis using a(1) by (simp add: APIC_IRQ_MASK_def)
qed

text \<open>The version register holds the number of the last entry, and \<open>gsi_to_ioapic\<close> takes it for the
  number of entries: the last line of a controller can neither be routed, nor masked or unmasked; every
  attempt panics.\<close>

theorem ioapic_last_line_refused:
  assumes "one_ioapic dev n reset io a"
  shows "ioapic_mask dev (gsi_base io + n) a = None \<and> ioapic_unmask dev (gsi_base io + n) a = None \<and>
    ioapic_redirect dev (gsi_base io + n) source flags target a = None"
proof -
  have r: "\<not> in_range io n (gsi_base io + n)"
    using assms by (simp add: one_ioapic_def in_range_def unat_add_lem [THEN iffD1])
  show ?thesis
    using ioapic_update_refused [OF assms r] gsi_to_ioapic_one [OF assms, of "gsi_base io + n"] r
    by (simp add: ioapic_mask_def ioapic_unmask_def ioapic_redirect_def)
qed

theorem ioapic_last_line_refused_witness:
  "ioapic_mask sample_device 23 sample_apic = None"
  using ioapic_last_line_refused [OF sample_one] by (simp add: sample_ioapic_def)

section \<open>Routing\<close>

text \<open>The vector an interrupt line is given, and the macro \<open>IRQ_TO_INT\<close>.\<close>

definition irq_to_int :: "mem \<Rightarrow> apic \<Rightarrow> u8 \<Rightarrow> u8" where
  "irq_to_int m a irq = ioapic_isa_to_gsi m a irq + IRQ_BASE"

text \<open>A routed line: masked, delivered with its vector in fixed mode to the local controller \<open>t\<close>.\<close>

definition routed :: "u8 \<Rightarrow> u32 \<Rightarrow> u64 \<Rightarrow> bool" where
  "routed t gsi e \<longleftrightarrow> take_bit 12 e = ucast (gsi + IRQ_BASE) \<and> bit e 16 \<and> drop_bit 56 e = ucast t"

lemma redirection_bits:
  assumes "unat gsi < 200"
  shows "take_bit 12 (redirection gsi flags t) = ucast (gsi + IRQ_BASE)" "drop_bit 56 (redirection gsi flags t) = ucast t"
proof -
  have u: "unat (gsi + IRQ_BASE) = unat gsi + 32"
    using assms by (simp add: IRQ_BASE_def unat_add_lem [THEN iffD1])
  have s: "\<not> bit (gsi + IRQ_BASE) k" if "k \<ge> 12" for k
  proof -
    have "take_bit 12 (gsi + IRQ_BASE) = gsi + IRQ_BASE"
      using u assms by (simp add: word_unat_eq_iff unsigned_take_bit_eq take_bit_nat_eq_self)
    then show ?thesis using that by (metis bit_take_bit_iff linorder_not_less)
  qed
  show "take_bit 12 (redirection gsi flags t) = ucast (gsi + IRQ_BASE)"
    by (rule bit_word_eqI) (use s in \<open>auto simp: redirection_def Let_def bit_simps simp del: push_bit_of_1\<close>)
  show "drop_bit 56 (redirection gsi flags t) = ucast t"
    by (rule bit_word_eqI) (use s in \<open>auto simp: redirection_def Let_def bit_simps simp del: push_bit_of_1 dest: bit_imp_le_length\<close>)
qed

lemma routed_after_mask:
  assumes "unat gsi < 200" "v AND NOT ioapic_owned = redirection gsi flags t AND NOT ioapic_owned"
  shows "routed t gsi (v OR APIC_IRQ_MASK)"
  unfolding routed_def
proof (intro conjI)
  have b: "bit v k = bit (redirection gsi flags t) k" if "k \<notin> {12, 14, 44, 46}" for k by (rule writable_bit [OF assms(2) that])
  have "take_bit 12 (v OR APIC_IRQ_MASK) = take_bit 12 (redirection gsi flags t)"
    by (rule bit_word_eqI) (use b in \<open>auto simp: bit_take_bit_iff bit_or_iff bit_irq_mask\<close>)
  then show "take_bit 12 (v OR APIC_IRQ_MASK) = ucast (gsi + IRQ_BASE)" by (simp add: redirection_bits(1) [OF assms(1)])
  have "drop_bit 56 (v OR APIC_IRQ_MASK) = drop_bit 56 (redirection gsi flags t)"
    by (rule bit_word_eqI) (use b in \<open>auto simp: bit_drop_bit_eq bit_or_iff bit_irq_mask\<close>)
  then show "drop_bit 56 (v OR APIC_IRQ_MASK) = ucast t" by (simp add: redirection_bits(2) [OF assms(1)])
  show "bit (v OR APIC_IRQ_MASK) 16" by (simp add: bit_or_iff bit_irq_mask)
qed

lemma lapic_list_id_regs [simp]: "lapic_list_id (a\<lparr>regs := h\<rparr>) = lapic_list_id a"
  by (rule ext) (simp add: lapic_list_id_def)

lemma route_one:
  assumes "one_ioapic dev n reset io a" "in_range io n gsi" "unat gsi < 200" "lapic_list_id a 0 = Some t"
  shows "\<exists>h1 h. ioapic_redirect dev gsi source flags 0 a = Some (a\<lparr>regs := h1\<rparr>) \<and>
    ioapic_mask dev gsi (a\<lparr>regs := h1\<rparr>) = Some (a\<lparr>regs := h\<rparr>) \<and> routed t gsi (entry_of reset io (a\<lparr>regs := h\<rparr>) gsi) \<and>
    (\<forall>g. in_range io n g \<and> g \<noteq> gsi \<longrightarrow> entry_of reset io (a\<lparr>regs := h\<rparr>) g = entry_of reset io a g)"
proof -
  let ?b = "io_base io"
  define h1 where "h1 = ioapic_redtbl_write ?b (line_of io gsi) (redirection gsi flags t)
    (RegRead (?b + 16) # RegWrite ?b 1 # regs a)"
  have r: "ioapic_redirect dev gsi source flags 0 a = Some (a\<lparr>regs := h1\<rparr>)"
    by (simp add: ioapic_redirect_def assms(2,4) gsi_to_ioapic_one [OF assms(1)] h1_def line_of_def)
  have e1: "redtbl reset ?b h1 j = (if j = line_of io gsi then redirection gsi flags t else redtbl reset ?b (regs a) j)" if "j < 120" for j
    by (simp add: h1_def redtbl_write [OF line_unat(2) [OF assms(1,2)] that] probe_same)
  have "one_ioapic dev n reset io (a\<lparr>regs := h1\<rparr>)" using assms(1) by simp
  from ioapic_update_one [OF this assms(2), of "\<lambda>prev. prev OR APIC_IRQ_MASK"] obtain v h where
    m: "ioapic_mask dev gsi (a\<lparr>regs := h1\<rparr>) = Some (a\<lparr>regs := h1, regs := h\<rparr>)"
      "v AND NOT ioapic_owned = entry_of reset io (a\<lparr>regs := h1\<rparr>) gsi AND NOT ioapic_owned"
      "entry_of reset io (a\<lparr>regs := h1, regs := h\<rparr>) gsi = v OR APIC_IRQ_MASK"
      "\<forall>j. j < 120 \<and> j \<noteq> line_of io gsi \<longrightarrow> redtbl reset ?b h j = redtbl reset ?b (regs (a\<lparr>regs := h1\<rparr>)) j"
    unfolding ioapic_mask_def by blast
  have v: "v AND NOT ioapic_owned = redirection gsi flags t AND NOT ioapic_owned"
    using m(2) e1 [OF line_unat(2) [OF assms(1,2)]] by simp
  have "entry_of reset io (a\<lparr>regs := h\<rparr>) g = entry_of reset io a g" if "in_range io n g" "g \<noteq> gsi" for g
    using m(4) e1 [of "line_of io g"] line_unat(2) [OF assms(1) that(1)] line_inj [OF assms(1) that(1) assms(2)] that(2) by simp
  then show ?thesis
    using r m(1,3) routed_after_mask [OF assms(3) v] by (intro exI [of _ h1] exI [of _ h]) simp
qed

lemma route_lines_ok:
  assumes "one_ioapic dev n reset io a" "lapic_list_id a 0 = Some t"
    and "\<forall>g \<in> fst ` set ls. in_range io n g \<and> unat g < 200"
  shows "\<exists>h. route_lines dev ls a = Some (a\<lparr>regs := h\<rparr>) \<and>
    (\<forall>g \<in> fst ` set ls. routed t g (entry_of reset io (a\<lparr>regs := h\<rparr>) g)) \<and>
    (\<forall>g. in_range io n g \<and> g \<notin> fst ` set ls \<longrightarrow> entry_of reset io (a\<lparr>regs := h\<rparr>) g = entry_of reset io a g)"
  using assms
proof (induction ls arbitrary: a)
  case Nil
  then show ?case by (intro exI [of _ "regs a"]) simp
next
  case (Cons l ls)
  obtain gsi source flags where l: "l = (gsi, source, flags)" by (cases l)
  from Cons.prems l have g: "in_range io n gsi" "unat gsi < 200" by auto
  from route_one [OF Cons.prems(1) g Cons.prems(2), of source flags] obtain h1 h2 where
    1: "ioapic_redirect dev gsi source flags 0 a = Some (a\<lparr>regs := h1\<rparr>)" "ioapic_mask dev gsi (a\<lparr>regs := h1\<rparr>) = Some (a\<lparr>regs := h2\<rparr>)"
      "routed t gsi (entry_of reset io (a\<lparr>regs := h2\<rparr>) gsi)"
      "\<forall>g. in_range io n g \<and> g \<noteq> gsi \<longrightarrow> entry_of reset io (a\<lparr>regs := h2\<rparr>) g = entry_of reset io a g" by blast
  from Cons.IH [of "a\<lparr>regs := h2\<rparr>"] Cons.prems obtain h where
    2: "route_lines dev ls (a\<lparr>regs := h2\<rparr>) = Some (a\<lparr>regs := h\<rparr>)"
      "\<forall>g \<in> fst ` set ls. routed t g (entry_of reset io (a\<lparr>regs := h\<rparr>) g)"
      "\<forall>g. in_range io n g \<and> g \<notin> fst ` set ls \<longrightarrow> entry_of reset io (a\<lparr>regs := h\<rparr>) g = entry_of reset io (a\<lparr>regs := h2\<rparr>) g"
    by auto
  have "routed t gsi (entry_of reset io (a\<lparr>regs := h\<rparr>) gsi)"
    using 1(3) 2(2,3) g(1) by (cases "gsi \<in> fst ` set ls") auto
  then show ?case
    using 1 2 g(1) by (intro exI [of _ h]) (simp add: l)
qed

lemma isa_to_gsi_cases:
  "(isa_to_gsi_in m es isa = isa \<and> (\<forall>e \<in> set es. override_source m e \<noteq> isa)) \<or>
   (\<exists>e \<in> set es. override_source m e = isa \<and> isa_to_gsi_in m es isa = ucast (override_gsi m e))"
  by (induction es) auto

text \<open>An ISA interrupt is routed: its line is masked and delivered in fixed mode to the local controller \<open>t\<close>, with
  the vector \<open>IRQ_TO_INT\<close>.\<close>

definition isa_routed :: "(u32 \<Rightarrow> u32) \<Rightarrow> ioapic_info \<Rightarrow> mem \<Rightarrow> apic \<Rightarrow> u8 \<Rightarrow> u8 \<Rightarrow> bool" where
  "isa_routed reset io m a t isa \<longleftrightarrow>
     (let e = entry_of reset io a (ucast (ioapic_isa_to_gsi m a isa))
      in take_bit 12 e = ucast (irq_to_int m a isa) \<and> bit e 16 \<and> drop_bit 56 e = ucast t)"

lemma isa_to_gsi_regs [simp]: "ioapic_isa_to_gsi m (a\<lparr>regs := h\<rparr>) = ioapic_isa_to_gsi m a" "irq_to_int m (a\<lparr>regs := h\<rparr>) = irq_to_int m a"
  by (rule ext, simp add: ioapic_isa_to_gsi_def irq_to_int_def)+

lemma ioapic_init_ok:
  assumes "one_ioapic dev n reset io a" "gsi_base io = 0" "15 < n" "\<forall>e \<in> set (override_list a). override_gsi m e < n"
    and "lapic_list_id a 0 = Some t"
  shows "\<exists>h. ioapic_init dev m a = Some (a\<lparr>regs := h\<rparr>) \<and> (\<forall>isa<16. isa_routed reset io m (a\<lparr>regs := h\<rparr>) t isa)"
proof -
  let ?ls = "ioapic_lines m a"
  have n: "unat n \<le> 120" using assms(1) by (simp add: one_ioapic_def word_le_nat_alt)
  have small: "in_range io n g \<and> unat g < 200" if "g < n" for g
    using that n by (simp add: in_range_def assms(2) word_less_nat_alt)
  have ls: "fst ` set ?ls = of_nat ` {..<16} \<union> override_gsi m ` set (override_list a)"
    by (force simp: ioapic_lines_def image_Un image_image)
  have "\<forall>g \<in> fst ` set ?ls. g < n"
  proof -
    have "(of_nat i :: u32) < n" if "i < 16" for i
      using that assms(3) by (simp add: word_less_nat_alt unsigned_of_nat take_bit_nat_eq_self)
    then show ?thesis using assms(4) by (auto simp: ls)
  qed
  then have "\<forall>g \<in> fst ` set ?ls. in_range io n g \<and> unat g < 200" using small by blast
  from route_lines_ok [OF assms(1,5) this] obtain h where
    h: "route_lines dev ?ls a = Some (a\<lparr>regs := h\<rparr>)" "\<forall>g \<in> fst ` set ?ls. routed t g (entry_of reset io (a\<lparr>regs := h\<rparr>) g)" by blast
  have "isa_routed reset io m (a\<lparr>regs := h\<rparr>) t isa" if "isa < 16" for isa
  proof -
    have "\<exists>g \<in> fst ` set ?ls. g < n \<and> ioapic_isa_to_gsi m a isa = ucast g"
    proof (cases "ioapic_isa_to_gsi m a isa = isa")
      case True
      have "unat isa < 16" using that by (simp add: word_less_nat_alt)
      define x :: u32 where "x = of_nat (unat isa)"
      have "x \<in> fst ` set ?ls" unfolding ls x_def using \<open>unat isa < 16\<close> by blast
      moreover have u: "unat x = unat isa"
        using \<open>unat isa < 16\<close> by (simp add: x_def unsigned_ucast_eq take_bit_nat_eq_self)
      moreover have "isa = ucast x"
        using \<open>unat isa < 16\<close> u by (simp add: word_unat_eq_iff unsigned_ucast_eq take_bit_nat_eq_self)
      ultimately show ?thesis
        using True assms(3) \<open>unat isa < 16\<close> by (intro bexI [of _ x]) (auto simp: word_less_nat_alt)
    next
      case False
      then show ?thesis
        using isa_to_gsi_cases [of m "override_list a" isa] assms(4) by (auto simp: ioapic_isa_to_gsi_def ls)
    qed
    then obtain g where g: "g \<in> fst ` set ?ls" "g < n" "ioapic_isa_to_gsi m a isa = ucast g" by blast
    have g120: "unat g < 120" using g(2) n unfolding word_less_nat_alt by linarith
    have u: "unat (ucast g :: u8) = unat g" "(ucast (ucast g :: u8) :: u32) = g"
      using g120 by (simp_all add: word_unat_eq_iff unsigned_take_bit_eq unsigned_ucast_eq take_bit_nat_eq_self)
    have "(ucast (g + IRQ_BASE) :: u64) = ucast ((ucast g :: u8) + IRQ_BASE)"
      using g120 u(1) by (simp add: word_unat_eq_iff unsigned_ucast_eq take_bit_nat_eq_self IRQ_BASE_def unat_add_lem [THEN iffD1])
    moreover have "routed t g (entry_of reset io (a\<lparr>regs := h\<rparr>) g)" using h(2) g(1) by blast
    ultimately show ?thesis
      by (simp add: isa_routed_def g(3) u(2) irq_to_int_def routed_def Let_def)
  qed
  then show ?thesis using h(1) by (auto simp: ioapic_init_def)
qed

text \<open>\<open>ioapic_init\<close> succeeds and every line it wires is masked and goes, in fixed delivery mode, to the first
  local controller; the vector an ISA interrupt is delivered with is the one of the macro \<open>IRQ_TO_INT\<close>, under
  which the kernel registers the handler, whether or not the firmware overrides its wiring.\<close>

theorem ioapic_init_routes:
  assumes "one_ioapic dev n reset io a" "gsi_base io = 0" "15 < n" "\<forall>e \<in> set (override_list a). override_gsi m e < n"
    and "lapic_list_id a 0 = Some t"
  shows "\<exists>h. ioapic_init dev m a = Some (a\<lparr>regs := h\<rparr>) \<and> (\<forall>isa<16. isa_routed reset io m (a\<lparr>regs := h\<rparr>) t isa)"
  by (rule ioapic_init_ok [OF assms])

theorem ioapic_init_routes_witness:
  "\<exists>h. ioapic_init sample_device (\<lambda>_. 0) sample_apic = Some (sample_apic\<lparr>regs := h\<rparr>) \<and>
    take_bit 12 (entry_of sample_reset sample_ioapic (sample_apic\<lparr>regs := h\<rparr>) 1) = 33"
proof -
  have a: "gsi_base sample_ioapic = 0" "override_list sample_apic = []" "lapic_list_id sample_apic 0 = Some 0"
    by (simp_all add: sample_ioapic_def sample_apic_def lapic_list_id_def MAX_LAPICS_def)
  have "ioapic_isa_to_gsi (\<lambda>_. 0) sample_apic 1 = 1" "irq_to_int (\<lambda>_. 0) sample_apic 1 = 33"
    by (simp_all add: irq_to_int_def ioapic_isa_to_gsi_def a IRQ_BASE_def)
  then show ?thesis
    using ioapic_init_routes [OF sample_one, of "\<lambda>_. 0" 0] a
    by (fastforce simp: Let_def isa_routed_def dest: spec [of _ 1])
qed

section \<open>The entries of the table\<close>

inductive entries_at :: "mem \<Rightarrow> addr_t \<Rightarrow> addr_t \<Rightarrow> addr_t list \<Rightarrow> bool" for m table_end where
  entries_end: "\<not> e < table_end \<Longrightarrow> entries_at m table_end e []"
| entries_next: "e < table_end \<Longrightarrow> entries_at m table_end (e + ucast (entry_length m e)) es \<Longrightarrow> entries_at m table_end e (e # es)"

inductive_cases entries_consE: "entries_at m table_end e (x # xs)"

text \<open>What the lists hold after the table was read: the entries of each type in the order of the table.\<close>

definition madt_lapics :: "mem \<Rightarrow> addr_t list \<Rightarrow> lapic_info list" where
  "madt_lapics m es = map (\<lambda>e. \<lparr>li_id = lapic_apic_id m e, li_acpi_id = lapic_acpi_id m e,
     li_present = (lapic_flags m e = 1), ticks_per_10ms = 0\<rparr>) (filter (\<lambda>e. entry_type m e = 0 \<and> lapic_flags m e \<noteq> 0) es)"

definition madt_ioapics :: "mem \<Rightarrow> addr_t list \<Rightarrow> ioapic_info list" where
  "madt_ioapics m es = map (\<lambda>e. \<lparr>io_id = ioapic_apic_id m e, gsi_base = ioapic_gsi_base m e,
     io_base = kaddr (ucast (ioapic_phys_addr m e))\<rparr>) (filter (\<lambda>e. entry_type m e = 1) es)"

definition madt_base :: "mem \<Rightarrow> addr_t \<Rightarrow> addr_t list \<Rightarrow> addr_t" where
  "madt_base m tmp es = fold (\<lambda>e tmp. if entry_type m e = 5 then entry_lapic_addr m e else tmp) es tmp"

definition add_entries :: "mem \<Rightarrow> addr_t list \<Rightarrow> apic \<Rightarrow> apic" where
  "add_entries m es a = a\<lparr>
     lapic_list := take 32 (lapic_list a @ madt_lapics m es),
     ioapic_list := take 16 (ioapic_list a @ madt_ioapics m es),
     override_list := take 48 (override_list a @ filter (\<lambda>e. entry_type m e = 2) es),
     nmi_list := take 64 (nmi_list a @ filter (\<lambda>e. entry_type m e = 4) es)\<rparr>"

definition apic_bounded :: "apic \<Rightarrow> bool" where
  "apic_bounded a \<longleftrightarrow> length (lapic_list a) \<le> 32 \<and> length (ioapic_list a) \<le> 16 \<and>
     length (override_list a) \<le> 48 \<and> length (nmi_list a) \<le> 64"

lemmas apic_sizes = MAX_LAPICS_def MAX_IOAPICS_def MAX_NMIS_def MAX_OVERRIDES_def

lemma add_entries_bounded: "apic_bounded a \<Longrightarrow> apic_bounded (add_entries m es a)"
  by (simp add: apic_bounded_def add_entries_def del: take_append)

lemma add_entries_Nil: "apic_bounded a \<Longrightarrow> add_entries m [] a = a"
  by (simp add: apic_bounded_def add_entries_def madt_lapics_def madt_ioapics_def)

lemma take_take_append: "take n (take n xs @ ys) = take n (xs @ ys)"
  by (cases "n \<le> length xs") simp_all

lemma take_snoc: "length xs \<le> n \<Longrightarrow> take n (xs @ [x]) = (if n \<le> length xs then xs else xs @ [x])"
  by (cases "length xs = n") simp_all

lemma add_entries_Cons: "add_entries m es (add_entries m [e] a) = add_entries m (e # es) a"
  by (simp add: add_entries_def madt_lapics_def madt_ioapics_def take_take_append del: take_append)

lemma parse_entry_mapped:
  assumes "apic_bounded a" "entry_type (pm_mem s) e = 1 \<Longrightarrow> kernel_mapped c s (ucast (ioapic_phys_addr (pm_mem s) e))"
  shows "parse_entry c e (tmp, a, s) = Some (madt_base (pm_mem s) tmp [e], add_entries (pm_mem s) [e] a, s)"
proof -
  let ?t = "entry_type (pm_mem s) e"
  have k: "kmap c (ucast (ioapic_phys_addr (pm_mem s) e)) PGSIZE s = Some (s, kaddr (ucast (ioapic_phys_addr (pm_mem s) e)))"
    if "?t = 1" using assms(2) [OF that] by (rule kmap_mapped)
  note d = parse_entry_def madt_types madt_base_def add_entries_def madt_lapics_def madt_ioapics_def
    add_lapic_def add_ioapic_def add_override_def add_nmi_def apic_sizes
  note b = assms(1) [unfolded apic_bounded_def]
  consider "?t = 0" | "?t = 1" | "?t = 2" | "?t = 4" | "?t = 5" | "?t \<notin> {0, 1, 2, 4, 5}" by blast
  then show ?thesis
  proof cases
    case 1 then show ?thesis using b by (simp add: d Let_def take_snoc del: take_append)
  next
    case 2 then show ?thesis using b k by (simp add: d Let_def take_snoc del: take_append)
  next
    case 3 then show ?thesis using b by (simp add: d Let_def take_snoc del: take_append)
  next
    case 4 then show ?thesis using b by (simp add: d Let_def take_snoc del: take_append)
  next
    case 5 then show ?thesis using b by (simp add: d Let_def take_snoc del: take_append)
  next
    case 6 then show ?thesis using b by (simp add: d Let_def take_snoc del: take_append)
  qed
qed

lemma parse_entries_mapped:
  assumes "entries_at (pm_mem s) table_end e es" "apic_bounded a"
    and "\<forall>x \<in> set es. entry_type (pm_mem s) x = 1 \<longrightarrow> kernel_mapped c s (ucast (ioapic_phys_addr (pm_mem s) x))"
  shows "parse_entries c e table_end (tmp, a, s) = Some (madt_base (pm_mem s) tmp es, add_entries (pm_mem s) es a, s)"
  using assms
proof (induction arbitrary: a tmp)
  case (entries_end e)
  then show ?case by (subst parse_entries.simps) (simp add: add_entries_Nil madt_base_def)
next
  case (entries_next e es)
  have p: "parse_entry c e (tmp, a, s) = Some (madt_base (pm_mem s) tmp [e], add_entries (pm_mem s) [e] a, s)"
    by (rule parse_entry_mapped) (use entries_next.prems in auto)
  have "parse_entries c (e + ucast (entry_length (pm_mem s) e)) table_end (madt_base (pm_mem s) tmp [e], add_entries (pm_mem s) [e] a, s) =
      Some (madt_base (pm_mem s) (madt_base (pm_mem s) tmp [e]) es, add_entries (pm_mem s) es (add_entries (pm_mem s) [e] a), s)"
    using entries_next.IH [OF add_entries_bounded [OF entries_next.prems(1), of "pm_mem s" "[e]"]] entries_next.prems(2) by simp
  then show ?case
    using entries_next.hyps(1) p
    by (subst parse_entries.simps) (simp add: add_entries_Cons, simp add: madt_base_def)
qed

text \<open>An entry of length 0 is read again and again.\<close>

lemma parse_entries_stuck:
  assumes "parse_entries c e table_end st = Some r" "e < table_end" "entry_length (pm_mem (snd (snd st))) e = 0"
  shows "entry_type (pm_mem (snd (snd st))) e = 1"
  using assms
proof (induction rule: parse_entries.raw_induct [rotated 1, consumes 1, case_names step])
  case (step F c e table_end st r)
  show ?case
  proof (rule ccontr)
    assume a: "entry_type (pm_mem (snd (snd st))) e \<noteq> 1"
    obtain tmp a s where st: "st = (tmp, a, s)" by (cases st)
    have "\<exists>r'. parse_entry c e st = Some r' \<and> snd (snd r') = s"
      using a by (simp add: st parse_entry_def madt_types Let_def split: if_split)
    then obtain r' where r': "parse_entry c e st = Some r'" "snd (snd r') = s" by blast
    then have "F c e table_end r' = Some r" using step.hyps step.prems by (simp add: st)
    from step.IH [OF this] show False using step.prems a r' by (simp add: st)
  qed
qed


section \<open>Start-up\<close>

definition no_apic :: "addr_t \<Rightarrow> (u32 \<Rightarrow> u64) \<Rightarrow> mmio \<Rightarrow> apic" where
  "no_apic base ms h = \<lparr>lapic_list = [], ioapic_list = [], override_list = [], nmi_list = [], lapic_base = base, msrs = ms, regs = h\<rparr>"

lemma parse_madt_ok:
  assumes "entries_at (pm_mem s) (madt + ucast (acpi_length (pm_mem s) madt)) (madt + 44) es" "apic_bounded a"
    and "\<forall>x \<in> set es. entry_type (pm_mem s) x = 1 \<longrightarrow> kernel_mapped c s (ucast (ioapic_phys_addr (pm_mem s) x))"
    and "kernel_mapped c s (madt_base (pm_mem s) (ucast (madt_lapic_address (pm_mem s) madt)) es)"
  shows "parse_madt c madt a s = Some ((add_entries (pm_mem s) es a)\<lparr>lapic_base :=
    kaddr (madt_base (pm_mem s) (ucast (madt_lapic_address (pm_mem s) madt)) es)\<rparr>, s)"
  using parse_entries_mapped [OF assms(1-3)] kmap_mapped [OF assms(4)] by (simp add: parse_madt_def madt_entries_def)

text \<open>A well-formed table with the entries \<open>es\<close>, whose controllers are mapped.\<close>

definition madt_ok :: "acpi \<Rightarrow> pmm \<Rightarrow> addr_t \<Rightarrow> addr_t list \<Rightarrow> bool" where
  "madt_ok c s madt es \<longleftrightarrow> madt \<noteq> 0 \<and>
     entries_at (pm_mem s) (madt + ucast (acpi_length (pm_mem s) madt)) (madt + 44) es \<and>
     (\<forall>x \<in> set es. entry_type (pm_mem s) x = 1 \<longrightarrow> kernel_mapped c s (ucast (ioapic_phys_addr (pm_mem s) x))) \<and>
     kernel_mapped c s (madt_base (pm_mem s) (ucast (madt_lapic_address (pm_mem s) madt)) es)"

text \<open>C37: On a machine whose processor has a local controller, whose tables are mapped and whose table \<open>APIC\<close> is
  well formed and names one I/O controller, \<open>apic_init\<close> ends with success: the lists hold the records of the table
  in order, up to the sizes of the arrays, every ISA interrupt is routed to its vector and masked, and the
  memory manager is unchanged.\<close>

theorem apic_init_ready:
  assumes "bit (feature features) 9" "tables_ok c s k" "madt_ok c s (first_table c s k sig) es"
    and "madt_ioapics (pm_mem s) es = [io]" "ioapic_device dev (io_base io) n reset" "gsi_base io = 0" "15 < n" "n \<le> 120"
    and "\<forall>e \<in> set es. entry_type (pm_mem s) e = 2 \<longrightarrow> override_gsi (pm_mem s) e < n"
  shows "\<exists>a. apic_init dev features c sig (no_apic base ms h) s = Some (a, s, 1) \<and>
    lapic_list a = take 32 (madt_lapics (pm_mem s) es) \<and> override_list a = take 48 (filter (\<lambda>e. entry_type (pm_mem s) e = 2) es) \<and>
    nmi_list a = take 64 (filter (\<lambda>e. entry_type (pm_mem s) e = 4) es) \<and>
    (\<forall>isa<16. isa_routed reset io (pm_mem s) a (case madt_lapics (pm_mem s) es of [] \<Rightarrow> 0 | l # _ \<Rightarrow> li_id l) isa)"
proof -
  let ?m = "pm_mem s" and ?t = "first_table c s k sig"
  define a where "a = (add_entries ?m es (no_apic base ms h))\<lparr>lapic_base :=
    kaddr (madt_base ?m (ucast (madt_lapic_address ?m ?t)) es)\<rparr>"
  note ok = assms(3) [unfolded madt_ok_def]
  have f: "check_cpu_feature features (feature_number FEAT_X86_APIC) \<noteq> 0"
    using feature_nonzero [of "feature features" 9] assms(1) by (simp add: check_cpu_feature_def)
  have b: "apic_bounded (no_apic base ms h)" by (simp add: apic_bounded_def no_apic_def)
  have p: "parse_madt c ?t (no_apic base ms h) s = Some (a, s)"
    unfolding a_def by (rule parse_madt_ok) (use ok b in blast)+
  have l: "lapic_list a = take 32 (madt_lapics ?m es)" "override_list a = take 48 (filter (\<lambda>e. entry_type ?m e = 2) es)"
      "nmi_list a = take 64 (filter (\<lambda>e. entry_type ?m e = 4) es)" "ioapic_list a = [io]"
    using assms(4) by (simp_all add: a_def add_entries_def no_apic_def)
  have one: "one_ioapic dev n reset io a"
    using assms(5,6,8) l(4) unsigned_less [of n, where 'a = nat] by (simp add: one_ioapic_def)
  have t: "lapic_list_id a 0 = Some (case madt_lapics ?m es of [] \<Rightarrow> 0 | l # _ \<Rightarrow> li_id l)"
    by (cases "madt_lapics ?m es") (simp_all add: lapic_list_id_def l(1) MAX_LAPICS_def)
  have "\<forall>e \<in> set (override_list a). override_gsi ?m e < n"
    using assms(9) by (auto simp: l(2) dest: in_set_takeD)
  from ioapic_init_ok [OF one assms(6,7) this t] obtain h' where
    h': "ioapic_init dev ?m a = Some (a\<lparr>regs := h'\<rparr>)"
      "\<forall>isa<16. isa_routed reset io ?m (a\<lparr>regs := h'\<rparr>) (case madt_lapics ?m es of [] \<Rightarrow> 0 | l # _ \<Rightarrow> li_id l) isa" by blast
  have "apic_init dev features c sig (no_apic base ms h) s = Some (a\<lparr>regs := h'\<rparr>, s, 1)"
    using f acpi_find_table_ok [OF assms(2), of sig] ok p h'(1) by (simp add: apic_init_def)
  then show ?thesis using h'(2) l(1-3) by (intro exI [of _ "a\<lparr>regs := h'\<rparr>"]) simp
qed

definition madt_sample :: "addr_t list" where
  "madt_sample = map (\<lambda>off. 0xFFFF800000000000 + off) [0x10A4, 0x10AC, 0x10B4, 0x10C0, 0x10CA, 0x10D4]"

lemma sample_bytes:
  "pm_mem sample_pmm 0xFFFF8000000010A4 = 0" "pm_mem sample_pmm 0xFFFF8000000010A5 = 8"
  "pm_mem sample_pmm 0xFFFF8000000010AC = 0" "pm_mem sample_pmm 0xFFFF8000000010AD = 8"
  "pm_mem sample_pmm 0xFFFF8000000010B4 = 1" "pm_mem sample_pmm 0xFFFF8000000010B5 = 12"
  "pm_mem sample_pmm 0xFFFF8000000010C0 = 2" "pm_mem sample_pmm 0xFFFF8000000010C1 = 10"
  "pm_mem sample_pmm 0xFFFF8000000010CA = 2" "pm_mem sample_pmm 0xFFFF8000000010CB = 10"
  "pm_mem sample_pmm 0xFFFF8000000010D4 = 4" "pm_mem sample_pmm 0xFFFF8000000010D5 = 6"
  "pm_mem sample_pmm 0xFFFF8000000010C3 = 0" "pm_mem sample_pmm 0xFFFF8000000010CD = 9"
  "pm_mem sample_pmm 0xFFFF8000000010B6 = 2"
  by (simp_all add: sample_pmm_def mem_of_def sample_length kaddr_def KERN_BASE_def) (simp_all add: sample_tables_def)

lemma sample_words:
  "load_u32 (pm_mem sample_pmm) 0xFFFF8000000010A8 = 1" "load_u32 (pm_mem sample_pmm) 0xFFFF8000000010B0 = 1"
  "load_u32 (pm_mem sample_pmm) 0xFFFF8000000010B8 = 0xFEC00000" "load_u32 (pm_mem sample_pmm) 0xFFFF8000000010BC = 0"
  "load_u32 (pm_mem sample_pmm) 0xFFFF8000000010C4 = 2" "load_u32 (pm_mem sample_pmm) 0xFFFF8000000010CE = 9"
  "load_u32 (pm_mem sample_pmm) 0xFFFF80000000107C = 98" "load_u32 (pm_mem sample_pmm) 0xFFFF80000000109C = 0xFEE00000"
  by (simp_all add: sample_pmm_def loads_mem_of sample_length kaddr_def KERN_BASE_def) (simp_all add: sample_tables_def)

lemma madt_sample_at: "entries_at (pm_mem sample_pmm) 0xFFFF8000000010DA 0xFFFF8000000010A4 madt_sample"
  by (simp add: madt_sample_def) (rule entries_next entries_end; simp add: entry_length_def sample_bytes)+

lemma sample_madt:
  "madt_ok sample_acpi sample_pmm 0xFFFF800000001078 madt_sample"
  "madt_ioapics (pm_mem sample_pmm) madt_sample = [sample_ioapic]"
  "\<forall>e \<in> set madt_sample. entry_type (pm_mem sample_pmm) e = 2 \<longrightarrow> override_gsi (pm_mem sample_pmm) e < 23"
  "length (madt_lapics (pm_mem sample_pmm) madt_sample) = 2"
  "filter (\<lambda>e. entry_type (pm_mem sample_pmm) e = 2) madt_sample = [0xFFFF8000000010C0, 0xFFFF8000000010CA]"
proof -
  note e = madt_sample_def entry_type_def sample_bytes sample_words
  show "madt_ok sample_acpi sample_pmm 0xFFFF800000001078 madt_sample"
    using madt_sample_at sample_mapped(3,4)
    by (simp add: madt_ok_def acpi_length_def madt_lapic_address_def e madt_base_def ioapic_phys_addr_def)
  show "madt_ioapics (pm_mem sample_pmm) madt_sample = [sample_ioapic]"
    by (simp add: madt_ioapics_def e sample_ioapic_def ioapic_apic_id_def ioapic_gsi_base_def ioapic_phys_addr_def kaddr_def KERN_BASE_def)
  show "\<forall>e \<in> set madt_sample. entry_type (pm_mem sample_pmm) e = 2 \<longrightarrow> override_gsi (pm_mem sample_pmm) e < 23"
    by (simp add: e override_gsi_def)
  show "length (madt_lapics (pm_mem sample_pmm) madt_sample) = 2"
    by (simp add: madt_lapics_def e lapic_flags_def)
  show "filter (\<lambda>e. entry_type (pm_mem sample_pmm) e = 2) madt_sample = [0xFFFF8000000010C0, 0xFFFF8000000010CA]"
    by (simp add: e)
qed

theorem apic_init_ready_witness:
  "\<exists>a. apic_init sample_device \<lparr>feature = 0x200, extend_feature = 0\<rparr> sample_acpi (kaddr 0x10DA) (no_apic 0 (\<lambda>_. 0) []) sample_pmm =
      Some (a, sample_pmm, 1) \<and> length (lapic_list a) = 2 \<and> take_bit 12 (entry_of sample_reset sample_ioapic a 2) = 34"
proof -
  have f: "bit (0x200 :: u64) 9" using bit_push_bit_iff [of 9 "1 :: u64" 9] by (simp add: push_bit_eq_mult)
  have d: "ioapic_device sample_device (io_base sample_ioapic) 23 sample_reset" using sample_device_ok by (simp add: sample_ioapic_def)
  have t: "first_table sample_acpi sample_pmm 2 (kaddr 0x10DA) = 0xFFFF800000001078"
    using sample_first(2) by (simp add: kaddr_def KERN_BASE_def)
  from apic_init_ready [OF _ sample_first(1), of "\<lparr>feature = 0x200, extend_feature = 0\<rparr>" "kaddr 0x10DA" madt_sample sample_ioapic
      sample_device 23 sample_reset 0 "\<lambda>_. 0" "[]"]
  obtain a where a: "apic_init sample_device \<lparr>feature = 0x200, extend_feature = 0\<rparr> sample_acpi (kaddr 0x10DA) (no_apic 0 (\<lambda>_. 0) []) sample_pmm =
        Some (a, sample_pmm, 1)" "lapic_list a = take 32 (madt_lapics (pm_mem sample_pmm) madt_sample)"
      "override_list a = [0xFFFF8000000010C0, 0xFFFF8000000010CA]"
      "isa_routed sample_reset sample_ioapic (pm_mem sample_pmm) a (case madt_lapics (pm_mem sample_pmm) madt_sample of [] \<Rightarrow> 0 | l # _ \<Rightarrow> li_id l) 0"
    using f d t sample_madt by (auto simp: sample_ioapic_def)
  have "ioapic_isa_to_gsi (pm_mem sample_pmm) a 0 = 2"
    by (simp add: ioapic_isa_to_gsi_def a(3) override_source_def override_gsi_def sample_bytes sample_words)
  then have "take_bit 12 (entry_of sample_reset sample_ioapic a 2) = 34"
    using a(4) by (simp add: isa_routed_def irq_to_int_def IRQ_BASE_def Let_def)
  then show ?thesis using a(1,2) sample_madt(4) by auto
qed

section \<open>Faults of the table and of the local controller\<close>

text \<open>An entry of length 0 in the table \<open>APIC\<close> that does not describe an I/O controller makes
  \<open>parse_madt\<close> read the same entry for ever, whatever the entries before it were.\<close>

theorem parse_madt_zero_length_hangs:
  assumes "madt + 44 < madt + ucast (acpi_length (pm_mem s) madt)" "entry_length (pm_mem s) (madt + 44) = 0"
    and "entry_type (pm_mem s) (madt + 44) \<noteq> MADT_IOAPIC"
  shows "parse_madt c madt a s = None"
  using assms parse_entries_stuck [of c "madt + 44" "madt + ucast (acpi_length (pm_mem s) madt)"
    "(ucast (madt_lapic_address (pm_mem s) madt), a, s)"]
  by (cases "parse_entries c (madt + 44) (madt + ucast (acpi_length (pm_mem s) madt)) (ucast (madt_lapic_address (pm_mem s) madt), a, s)")
     (auto simp: parse_madt_def madt_entries_def madt_types)

theorem parse_madt_zero_length_hangs_witness:
  "parse_madt sample_acpi 0x1000 sample_apic ((ready_state 0)\<lparr>pm_mem := mem_of 0x1000 [65, 80, 73, 67, 60, 0, 0, 0]\<rparr>) = None"
  by (rule parse_madt_zero_length_hangs)
     (simp_all add: acpi_length_def loads_mem_of entry_length_def entry_type_def mem_of_def madt_types)

text \<open>\<open>lapic_set_nmi\<close> never asks for a non-maskable interrupt: the constant it starts from is the decimal
  800, so the delivery mode of the pin is the reserved value 3 and not 4, whatever the firmware asks for.\<close>

theorem lapic_nmi_delivery_mode: "take_bit 3 (drop_bit 8 (lapic_nmi vec flags)) = 3"
proof -
  have e: "(800 :: u32) = push_bit 5 1 OR push_bit 8 1 OR push_bit 9 1" by (simp add: push_bit_eq_mult)
  have t: "(3 :: u32) = mask 2" by (simp add: mask_eq_exp_minus_1)
  show ?thesis unfolding lapic_nmi_def e Let_def t
    by (rule bit_word_eqI) (auto simp: bit_simps simp del: push_bit_of_1 dest: bit_imp_le_length)
qed

end
