(* ===== verification/Video.thy ===== *)
theory Video
  imports Paging
begin

text \<open>
  The screen: \<open>src/drivers/video.c\<close> and \<open>include/drivers/video.h\<close>.  The driver draws in a buffer
  in memory, records the rectangle that changed, and copies it to the frame buffer that
  \<open>arch_kmap\<close> made visible at \<open>sc_base\<close>.

  \<open>None\<close> is a run that goes on for ever or leaves its objects: \<open>error\<close> on an impossible pixel size is
  called with \<open>console_lock\<close> held and waits for that lock, a shift count is outside the width of its
  operand, the translation table is indexed past its end, or the wrong member of the union of
  \<open>screen_info\<close> is read.
\<close>

section \<open>State of the driver\<close>

datatype screen_type = SCREEN_VGA | SCREEN_RGB | SCREEN_INDEX

record color_palette =
  cp_r :: u8
  cp_g :: u8
  cp_b :: u8

record color_bit =
  cb_pos :: u8
  cb_size :: u8

datatype palette_ref = VgaPalette | PaletteAt addr_t

text \<open>The union at the end of \<open>screen_info\<close>.\<close>

datatype screen_colors = Palette u16 palette_ref | Fields color_bit color_bit color_bit

datatype table_ref = NoTable | UnicodeTable

record screen_info =
  sc_base :: addr_t
  sc_buffer :: addr_t
  sc_width :: u32
  sc_height :: u32
  sc_pitch :: u32
  bytesperglyph :: u32
  sc_bpp :: u8
  sc_type :: screen_type
  font_width :: u8
  font_height :: u8
  sc_table :: table_ref
  sc_glyph :: addr_t
  font_header :: addr_t
  sc_colors :: screen_colors

text \<open>The static objects of the file, with the memory; \<open>font_start\<close> and \<open>font_end\<close> are the addresses of
  the linker's symbols \<open>_binary_font_psf_start\<close> and \<open>_binary_font_psf_end\<close>.\<close>

record video =
  vd_info :: screen_info
  dirty_xstart :: size_t
  dirty_xend :: size_t
  dirty_ystart :: size_t
  dirty_yend :: size_t
  buffer_dirty :: cint
  unicode_table :: "nat \<Rightarrow> u16"
  vd_pmm :: pmm
  font_start :: addr_t
  font_end :: addr_t

definition vd_mem :: "video \<Rightarrow> mem" where "vd_mem v = pm_mem (vd_pmm v)"
definition set_vd_mem :: "mem \<Rightarrow> video \<Rightarrow> video" where
  "set_vd_mem m v = v\<lparr>vd_pmm := (vd_pmm v)\<lparr>pm_mem := m\<rparr>\<rparr>"

section \<open>Colours\<close>

definition rgb_colors :: "u32 list" where
  "rgb_colors = [0x000000, 0x0000AA, 0x00AA00, 0x00AAAA, 0xAA0000, 0xAA00AA, 0xAA5500, 0xAAAAAA,
     0x555555, 0x5555FF, 0x55FF55, 0x55FFFF, 0xFF5555, 0xFF55FF, 0xFFFF55, 0xFFFFFF]"

definition make_palette :: "u32 \<Rightarrow> color_palette" where
  "make_palette color = \<lparr>cp_r = ucast (bit_part color 16 8), cp_g = ucast (bit_part color 8 8), cp_b = ucast (bit_part color 0 8)\<rparr>"

definition vga_palette :: "color_palette list" where
  "vga_palette = map make_palette rgb_colors"

definition palette_color :: "mem \<Rightarrow> palette_ref \<Rightarrow> nat \<Rightarrow> color_palette" where
  "palette_color m p i =
     (case p of
        VgaPalette \<Rightarrow> vga_palette ! i
      | PaletteAt a \<Rightarrow> \<lparr>cp_r = m (a + 3 * of_nat i), cp_g = m (a + 3 * of_nat i + 1), cp_b = m (a + 3 * of_nat i + 2)\<rparr>)"

definition color_distance :: "color_palette \<Rightarrow> color_palette \<Rightarrow> u32" where
  "color_distance c p =
     (let dr = ucast (cp_r c) - ucast (cp_r p); dg = ucast (cp_g c) - ucast (cp_g p); db = ucast (cp_b c) - ucast (cp_b p)
      in dr * dr + dg * dg + db * db)"

fun nearest_loop :: "color_palette \<Rightarrow> color_palette list \<Rightarrow> u32 \<Rightarrow> u32 \<Rightarrow> u32 \<Rightarrow> u32" where
  "nearest_loop c [] i pixel distance = pixel"
| "nearest_loop c (p # ps) i pixel distance =
     (if color_distance c p < distance then nearest_loop c ps (i + 1) i (color_distance c p)
      else nearest_loop c ps (i + 1) pixel distance)"

definition color_field :: "u8 \<Rightarrow> color_bit \<Rightarrow> u32 option" where
  "color_field x b =
     (if cb_pos b < 32 \<and> cb_size b < 32 then Some (bit_build (ucast x) (unat (cb_pos b)) (unat (cb_size b))) else None)"

definition trans_color2pixel :: "screen_info \<Rightarrow> mem \<Rightarrow> u32 \<Rightarrow> u32 option" where
  "trans_color2pixel si m color =
     (let c = make_palette color
      in if sc_type si = SCREEN_RGB
         then (case sc_colors si of
                 Fields r g b \<Rightarrow> do {
                   pr \<leftarrow> color_field (cp_r c) r;
                   pg \<leftarrow> color_field (cp_g c) g;
                   pb \<leftarrow> color_field (cp_b c) b;
                   Some (pr OR pg OR pb) }
               | Palette _ _ \<Rightarrow> None)
         else (case sc_colors si of
                 Palette n p \<Rightarrow> Some (nearest_loop c (map (palette_color m p) [0..<unat n]) 0 0 (3 * 256 * 256))
               | Fields _ _ _ \<Rightarrow> None))"

section \<open>Pixels\<close>

definition pixel_addr :: "screen_info \<Rightarrow> size_t \<Rightarrow> size_t \<Rightarrow> addr_t" where
  "pixel_addr si x y = sc_buffer si + y * ucast (sc_pitch si) + x * ucast (sc_bpp si)"

definition screen_put_pixel :: "screen_info \<Rightarrow> size_t \<Rightarrow> size_t \<Rightarrow> u32 \<Rightarrow> mem \<Rightarrow> mem option" where
  "screen_put_pixel si x y pixel m =
     (if x \<ge> ucast (sc_width si) \<or> y \<ge> ucast (sc_height si) then Some m
      else let psize = sc_bpp si; pptr = pixel_addr si x y
           in if psize = 1 then Some (m(pptr := ucast (pixel AND 0xFF)))
              else if psize = 2 then Some (store_u16 m pptr (ucast (pixel AND 0xFFFF)))
              else if psize = 3 then Some (store_u32 m pptr ((pixel AND 0xFFFFFF) OR (load_u32 m pptr AND 0xFF000000)))
              else if psize = 4 then Some (store_u32 m pptr pixel)
              else None)"

section \<open>From the buffer to the screen\<close>

function flush_lines :: "screen_info \<Rightarrow> size_t \<Rightarrow> size_t \<Rightarrow> size_t \<Rightarrow> size_t \<Rightarrow> mem \<Rightarrow> mem" where
  "flush_lines si xstart xend y yend m =
     (if y < yend
      then let offs = ucast (sc_pitch si) * y + xstart * ucast (sc_bpp si)
           in flush_lines si xstart xend (y + 1) yend
                (memcpy m (sc_base si + offs) (sc_buffer si + offs) ((xend - xstart) * ucast (sc_bpp si)))
      else m)"
  by pat_completeness auto
termination
  by (relation "measure (\<lambda>(si, xs, xe, y, ye, m). unat ye - unat y)") (auto simp: unat_inc word_less_nat_alt)

definition screen_flush_buffer :: "video \<Rightarrow> video" where
  "screen_flush_buffer v =
     (if buffer_dirty v \<noteq> 0
      then (set_vd_mem (flush_lines (vd_info v) (dirty_xstart v) (dirty_xend v) (dirty_ystart v) (dirty_yend v) (vd_mem v)) v)
             \<lparr>buffer_dirty := 0\<rparr>
      else v)"

definition screen_buffer_write :: "size_t \<Rightarrow> size_t \<Rightarrow> size_t \<Rightarrow> size_t \<Rightarrow> video \<Rightarrow> video" where
  "screen_buffer_write xstart xend ystart yend v =
     (if buffer_dirty v \<noteq> 0
      then v\<lparr>dirty_xstart := min (dirty_xstart v) xstart, dirty_xend := max (dirty_xend v) xend,
             dirty_ystart := min (dirty_ystart v) ystart, dirty_yend := max (dirty_yend v) yend\<rparr>
      else v\<lparr>dirty_xstart := xstart, dirty_xend := xend, dirty_ystart := ystart, dirty_yend := yend, buffer_dirty := 1\<rparr>)"

section \<open>The font\<close>

definition font_headersize :: "mem \<Rightarrow> addr_t \<Rightarrow> u32" where "font_headersize m f = load_u32 m (f + 8)"
definition font_flags :: "mem \<Rightarrow> addr_t \<Rightarrow> u32" where "font_flags m f = load_u32 m (f + 12)"
definition font_numglyph :: "mem \<Rightarrow> addr_t \<Rightarrow> u32" where "font_numglyph m f = load_u32 m (f + 16)"
definition font_bytesperglyph :: "mem \<Rightarrow> addr_t \<Rightarrow> u32" where "font_bytesperglyph m f = load_u32 m (f + 20)"
definition font_header_height :: "mem \<Rightarrow> addr_t \<Rightarrow> u32" where "font_header_height m f = load_u32 m (f + 24)"
definition font_header_width :: "mem \<Rightarrow> addr_t \<Rightarrow> u32" where "font_header_width m f = load_u32 m (f + 28)"

definition UINT16_MAX :: u32 where "UINT16_MAX = 65535"

text \<open>One entry of the font's table, its first byte being a signed \<open>char\<close>: the code point, cut to 16
  bits, and the address after the entry.\<close>

definition psf_code :: "mem \<Rightarrow> addr_t \<Rightarrow> u16 \<times> addr_t" where
  "psf_code m s =
     (let uc = (scast (m s) :: u16);
          b = (\<lambda>i mask. ucast (m (s + i) AND mask) :: cint)
      in if uc AND 128 = 0 then (uc, s + 1)
         else if uc AND 32 = 0 then (ucast (push_bit 6 (b 0 0x1F) + b 1 0x3F), s + 2)
         else if uc AND 16 = 0 then (ucast (push_bit 6 (push_bit 6 (b 0 0xF) + b 1 0x3F) + b 2 0x3F), s + 3)
         else if uc AND 8 = 0 then (ucast (push_bit 6 (push_bit 6 (push_bit 6 (b 0 0x7) + b 1 0x3F) + b 2 0x3F) + b 3 0x3F), s + 4)
         else (0, s + 1))"

partial_function (option) psf_table :: "mem \<Rightarrow> addr_t \<Rightarrow> addr_t \<Rightarrow> u16 \<Rightarrow> (nat \<Rightarrow> u16) \<Rightarrow> (nat \<Rightarrow> u16) option" where
  [code]: "psf_table m fend s glyph table =
     (if s > load_u64 m fend
      then if (scast (m s) :: u16) = 0xFF then psf_table m fend (s + 1) (glyph + 1) table
           else if unat (fst (psf_code m s)) < unat UINT16_MAX
           then psf_table m fend (snd (psf_code m s)) glyph (table(unat (fst (psf_code m s)) := glyph))
           else None
      else Some table)"

definition psf_init :: "video \<Rightarrow> video option" where
  "psf_init v =
     (let m = vd_mem v; font = font_start v;
          si = (vd_info v)\<lparr>font_height := ucast (font_header_height m font), font_width := ucast (font_header_width m font),
                 bytesperglyph := font_bytesperglyph m font, font_header := font,
                 sc_glyph := font + ucast (font_headersize m font)\<rparr>
      in if font_flags m font \<noteq> 0 then Some (v\<lparr>vd_info := si\<rparr>)
         else do {
           table \<leftarrow> psf_table m (font_end v) (sc_glyph si + ucast (font_numglyph m font * font_bytesperglyph m font)) 0 (unicode_table v);
           Some (v\<lparr>vd_info := si\<lparr>sc_table := UnicodeTable\<rparr>, unicode_table := table\<rparr>) })"

section \<open>Start-up\<close>

text \<open>The members of \<open>struct multiboot_tag_framebuffer\<close>.\<close>

definition fb_addr :: "mem \<Rightarrow> addr_t \<Rightarrow> u64" where "fb_addr m tag = load_u64 m (tag + 8)"
definition fb_pitch :: "mem \<Rightarrow> addr_t \<Rightarrow> u32" where "fb_pitch m tag = load_u32 m (tag + 16)"
definition fb_width :: "mem \<Rightarrow> addr_t \<Rightarrow> u32" where "fb_width m tag = load_u32 m (tag + 20)"
definition fb_height :: "mem \<Rightarrow> addr_t \<Rightarrow> u32" where "fb_height m tag = load_u32 m (tag + 24)"
definition fb_bpp :: "mem \<Rightarrow> addr_t \<Rightarrow> u8" where "fb_bpp m tag = m (tag + 28)"
definition fb_type :: "mem \<Rightarrow> addr_t \<Rightarrow> u8" where "fb_type m tag = m (tag + 29)"
definition fb_num_colors :: "mem \<Rightarrow> addr_t \<Rightarrow> u16" where "fb_num_colors m tag = load_u16 m (tag + 32)"
definition fb_palette :: "addr_t \<Rightarrow> addr_t" where "fb_palette tag = tag + 34"
definition fb_field :: "mem \<Rightarrow> addr_t \<Rightarrow> addr_t \<Rightarrow> color_bit" where
  "fb_field m tag i = \<lparr>cb_pos = m (tag + 32 + 2 * i), cb_size = m (tag + 33 + 2 * i)\<rparr>"

definition screen_colors_init :: "mem \<Rightarrow> addr_t \<Rightarrow> screen_info \<Rightarrow> screen_info" where
  "screen_colors_init m tag si =
     (if fb_type m tag = 1
      then si\<lparr>sc_type := SCREEN_RGB, sc_colors := Fields (fb_field m tag 0) (fb_field m tag 1) (fb_field m tag 2)\<rparr>
      else if fb_type m tag = 0
      then si\<lparr>sc_type := SCREEN_INDEX, sc_colors := Palette (fb_num_colors m tag) (PaletteAt (fb_palette tag))\<rparr>
      else if fb_type m tag = 2
      then si\<lparr>sc_type := SCREEN_VGA, sc_colors := Palette 16 VgaPalette\<rparr>
      else si)"

definition screen_init :: "bool \<Rightarrow> addr_t \<Rightarrow> video \<Rightarrow> (video \<times> cint) option" where
  "screen_init page_1gb kernel_pgd v = do {
     tag \<leftarrow> mboot_get_mboot_info (vd_mem v) (mboot_info (vd_pmm v)) MULTIBOOT_TAG_TYPE_FRAMEBUFFER;
     if tag = 0 then Some (v, 0)
     else do {
       let m = vd_mem v;
       let sz = align (fb_pitch m tag * fb_height m tag) (ucast PGSIZE);
       (p1, base) \<leftarrow> arch_kmap page_1gb kernel_pgd (fb_addr m tag) (ucast sz) (vd_pmm v);
       (p2, phy) \<leftarrow> mm_phy_page_zalloc p1 (ucast (sz div ucast PGSIZE));
       let si = screen_colors_init (pm_mem p2) tag
         ((vd_info v)\<lparr>sc_bpp := ucast (div_round_up (ucast (fb_bpp m tag) :: cint) 8), sc_height := fb_height m tag,
           sc_width := fb_width m tag, sc_pitch := fb_pitch m tag, sc_base := base, sc_buffer := kaddr phy\<rparr>);
       let v = v\<lparr>vd_pmm := p2, vd_info := si\<rparr>;
       if sc_type si = SCREEN_VGA
       then Some (v\<lparr>vd_info := si\<lparr>font_height := 1, font_width := 1, sc_table := NoTable, font_header := 0, sc_glyph := 0\<rparr>\<rparr>, 1)
       else map_option (\<lambda>v. (v, 1)) (psf_init v) } }"

section \<open>Drawing\<close>

function fill_row :: "screen_info \<Rightarrow> u32 \<Rightarrow> u32 \<Rightarrow> u32 \<Rightarrow> mem \<Rightarrow> mem option" where
  "fill_row si x y pixel m =
     (if x < sc_width si
      then do { m' \<leftarrow> screen_put_pixel si (ucast x) (ucast y) pixel m; fill_row si (x + 1) y pixel m' }
      else Some m)"
  by pat_completeness auto
termination
  by (relation "measure (\<lambda>(si, x, y, p, m). unat (sc_width si) - unat x)") (auto simp: unat_inc word_less_nat_alt)

function fill_rows :: "screen_info \<Rightarrow> u32 \<Rightarrow> u32 \<Rightarrow> u32 \<Rightarrow> mem \<Rightarrow> mem option" where
  "fill_rows si y yend pixel m =
     (if y < yend then do { m' \<leftarrow> fill_row si 0 y pixel m; fill_rows si (y + 1) yend pixel m' } else Some m)"
  by pat_completeness auto
termination
  by (relation "measure (\<lambda>(si, y, ye, p, m). unat ye - unat y)") (auto simp: unat_inc word_less_nat_alt)

definition screen_move :: "cint \<Rightarrow> u32 \<Rightarrow> video \<Rightarrow> video option" where
  "screen_move ystep fill_color v =
     (let si = vd_info v; m = vd_mem v in do {
        pixel \<leftarrow> trans_color2pixel si m fill_color;
        m' \<leftarrow> (if 0 \<le>s ystep
              then fill_rows si 0 ystep pixel
                     (memmove m (sc_buffer si + ucast (ystep * sc_pitch si)) (sc_buffer si) (ucast ((sc_height si - ystep) * sc_pitch si)))
              else fill_rows si (sc_height si - (- ystep)) (sc_height si) pixel
                     (memmove m (sc_buffer si) (sc_base si + ucast ((- ystep) * sc_pitch si)) (ucast ((sc_height si - (- ystep)) * sc_pitch si))));
        Some (screen_flush_buffer
               (screen_buffer_write 0 (ucast (sc_width si)) 0 (ucast (sc_height si)) (set_vd_mem m' v))) })"

declare flush_lines.simps [simp del] fill_row.simps [simp del] fill_rows.simps [simp del]

fun glyph_line :: "mem \<Rightarrow> addr_t \<Rightarrow> nat \<Rightarrow> u32 \<Rightarrow> u32" where
  "glyph_line m glyph 0 g = g"
| "glyph_line m glyph (Suc n) g = glyph_line m (glyph + 1) n (push_bit 8 g + ucast (m glyph))"

fun draw_line :: "screen_info \<Rightarrow> u32 \<Rightarrow> u32 \<Rightarrow> u32 \<Rightarrow> cint \<Rightarrow> u32 \<Rightarrow> u32 \<Rightarrow> nat \<Rightarrow> mem \<Rightarrow> mem option" where
  "draw_line si x y g mask_bit pixel pixel_back 0 m = Some m"
| "draw_line si x y g mask_bit pixel pixel_back (Suc n) m = do {
     m' \<leftarrow> screen_put_pixel si (ucast x) (ucast y) (if g AND mask_bit \<noteq> 0 then pixel else pixel_back) m;
     draw_line si (x + 1) y g (signed_drop_bit 1 mask_bit) pixel pixel_back n m' }"

fun draw_glyph :: "screen_info \<Rightarrow> u32 \<Rightarrow> u32 \<Rightarrow> addr_t \<Rightarrow> u32 \<Rightarrow> u32 \<Rightarrow> nat \<Rightarrow> mem \<Rightarrow> mem option" where
  "draw_glyph si x y glyph pixel pixel_back 0 m = Some m"
| "draw_glyph si x y glyph pixel pixel_back (Suc n) m =
     (let fwidth = unat (font_width si);
          bytesperline = (fwidth + 7) div 8
      in if fwidth = 0 \<or> 32 < fwidth then None
         else do {
           m' \<leftarrow> draw_line si x y (drop_bit (bytesperline * 8 - fwidth) (glyph_line m glyph bytesperline 0))
                  (push_bit (fwidth - 1) 1) pixel pixel_back fwidth m;
           draw_glyph si x (y + 1) (glyph + of_nat bytesperline) pixel pixel_back n m' })"

definition glyph_index :: "video \<Rightarrow> u32 \<Rightarrow> u32" where
  "glyph_index v chr =
     (let chr = (if sc_table (vd_info v) = UnicodeTable then ucast (unicode_table v (unat chr)) else chr)
      in if chr \<ge> font_numglyph (vd_mem v) (font_header (vd_info v)) then 0 else chr)"

definition screen_input_char :: "u32 \<Rightarrow> u32 \<Rightarrow> u32 \<Rightarrow> u32 \<Rightarrow> u32 \<Rightarrow> video \<Rightarrow> video option" where
  "screen_input_char x y front_color back_color chr v =
     (let si = vd_info v; m = vd_mem v in
      if sc_base si = 0 then Some v
      else do {
        pixel \<leftarrow> trans_color2pixel si m front_color;
        pixel_back \<leftarrow> trans_color2pixel si m back_color;
        if sc_type si = SCREEN_VGA
        then do {
          m' \<leftarrow> screen_put_pixel si (ucast x) (ucast y)
                 (push_bit 8 ((pixel AND 0xF) OR push_bit 4 (pixel_back AND 0xF)) OR (chr AND 0xFF)) m;
          Some (screen_flush_buffer
                 (screen_buffer_write (ucast x) (ucast (x + 1)) (ucast y) (ucast (y + 1)) (set_vd_mem m' v))) }
        else if chr \<ge> UINT16_MAX then Some v
        else do {
          m' \<leftarrow> draw_glyph si x y (sc_glyph si + ucast (glyph_index v chr * bytesperglyph si)) pixel pixel_back
                 (unat (font_height si)) m;
          Some (screen_flush_buffer
                 (screen_buffer_write (ucast x) (ucast (x + ucast (font_width si))) (ucast y) (ucast (y + ucast (font_height si)))
                   (set_vd_mem m' v))) } })"

section \<open>What one pixel stores\<close>

lemma digit_split: "x mod 256 ^ Suc n div 256 = x div 256 mod 256 ^ n" "x mod 256 ^ Suc n mod 256 = x mod 256" for x :: nat
  by (simp_all add: mod_mult2_eq)

lemma le_bytes_cong: "v mod 256 ^ n = w mod 256 ^ n \<Longrightarrow> le_bytes n v = le_bytes n w"
proof (induction n arbitrary: v w)
  case (Suc n)
  have "v mod 256 = w mod 256" "v div 256 mod 256 ^ n = w div 256 mod 256 ^ n"
    using arg_cong [OF Suc.prems, of "\<lambda>x. x mod 256"] arg_cong [OF Suc.prems, of "\<lambda>x. x div 256"]
    by (simp_all only: digit_split)
  moreover from this(1) have "(of_nat v :: u8) = of_nat w"
    by (simp add: word_unat_eq_iff unat_of_nat)
  ultimately show ?case using Suc.IH [of "v div 256" "w div 256"] by (simp only: le_bytes.simps)
qed simp

lemma le_bytes_Suc: "le_bytes (Suc n) v = le_bytes n v @ [of_nat (v div 256 ^ n)]"
  by (induction n arbitrary: v) (simp_all add: div_mult2_eq)

lemma load_le_Suc: "load_le m p (Suc n) = load_le m p n + 256 ^ n * unat (m (p + of_nat n))"
proof (induction n arbitrary: p)
  case (Suc n)
  show ?case unfolding load_le.simps(2) [of m p "Suc n"] Suc.IH [of "p + 1"] load_le.simps(2) [of m p n] by (simp add: algebra_simps)
qed simp

lemma load_le_less: "load_le m p n < 256 ^ n"
proof (induction n)
  case (Suc n)
  have "unat (m (p + of_nat n)) < 2 ^ LENGTH(8)" by (rule unsigned_less)
  then have "256 ^ n * unat (m (p + of_nat n)) \<le> 256 ^ n * 255" by (intro mult_le_mono2) simp
  then show ?case using Suc unfolding load_le_Suc power_Suc by linarith
qed simp

lemma unat_load_u32: "unat (load_u32 m p) = load_le m p 4"
  using load_le_less [of m p 4] by (simp add: load_u32_def unat_of_nat)

lemma mask_24: "(0xFFFFFF :: u32) = mask 24" "(0xFF000000 :: u32) = push_bit 24 (mask 8)"
  by (simp_all add: mask_eq_exp_minus_1 push_bit_eq_mult)

lemma merge_24:
  fixes pixel old :: u32
  shows "unat ((pixel AND 0xFFFFFF) OR (old AND 0xFF000000)) = unat pixel mod 2 ^ 24 + unat old div 2 ^ 24 * 2 ^ 24"
proof -
  have e: "(pixel AND 0xFFFFFF) OR (old AND 0xFF000000) = take_bit 24 pixel OR push_bit 24 (drop_bit 24 old)"
    by (rule bit_word_eqI) (auto simp: mask_24 bit_simps)
  have d: "take_bit 24 pixel AND push_bit 24 (drop_bit 24 old) = 0"
    by (rule bit_word_eqI) (auto simp: bit_simps)
  have lt: "unat (take_bit 24 pixel) + unat (push_bit 24 (drop_bit 24 old)) < 2 ^ 32"
  proof -
    have "unat old div 2 ^ 24 \<le> 255" using unsigned_less [of old, where 'a = nat] by simp
    then have "unat old div 2 ^ 24 * 2 ^ 24 \<le> 255 * 2 ^ 24" by (rule mult_le_mono1)
    moreover have "unat pixel mod 2 ^ 24 < 2 ^ 24" "(255 :: nat) * 2 ^ 24 + 2 ^ 24 = 2 ^ 32" by simp_all
    ultimately have "unat pixel mod 2 ^ 24 + unat old div 2 ^ 24 * 2 ^ 24 < 2 ^ 32" by linarith
    then show ?thesis unfolding unat_push_drop unsigned_take_bit_eq take_bit_eq_mod [where 'a = nat] .
  qed
  have "take_bit 24 pixel OR push_bit 24 (drop_bit 24 old) = take_bit 24 pixel + push_bit 24 (drop_bit 24 old)"
    using disjunctive_add_eq_or [OF d] by simp
  then show ?thesis
    unfolding e using lt by (simp add: unat_add_lem [THEN iffD1] unat_push_drop unsigned_take_bit_eq take_bit_eq_mod [where 'a = nat])
qed

lemma ucast_low: "LENGTH('a) \<le> n \<Longrightarrow> (ucast (w AND mask n) :: 'a::len word) = of_nat (unat w)" for w :: u32
  by (rule bit_word_eqI) (auto simp: bit_simps dest: bit_imp_le_length)

lemma mask_low: "(0xFF :: u32) = mask 8" "(0xFFFF :: u32) = mask 16"
  by (simp_all add: mask_eq_exp_minus_1)

lemma store_u32_low: 
  assumes "unat w = v mod 256 ^ 3 + unat (m (p + 3)) * 256 ^ 3"
  shows "store_u32 m p w = store_bytes m p (le_bytes 3 v)"
proof -
  have b: "le_bytes 4 (unat w) = le_bytes 3 v @ [m (p + 3)]"
  proof -
    have "unat w mod 256 ^ 3 = v mod 256 ^ 3" "unat w div 256 ^ 3 = unat (m (p + 3))" unfolding assms by simp_all
    then show ?thesis
      using le_bytes_Suc [of 3 "unat w"] le_bytes_cong [of "unat w" 3 v] by simp
  qed
  have o: "store_bytes m p (le_bytes 3 v) (p + 3) = m (p + 3)"
  proof (rule store_bytes_other)
    fix i assume "i < length (le_bytes 3 v)"
    then have "i < 3" by simp
    then show "p + 3 \<noteq> p + of_nat i" using of_nat_inj64 [of 3 i] by auto
  qed
  have "store_bytes m p (le_bytes 3 v @ [m (p + 3)]) = store_bytes m p (le_bytes 3 v)"
    unfolding store_bytes_append using fun_upd_triv [of "store_bytes m p (le_bytes 3 v)" "p + 3"]
    by (simp only: o length_le_bytes of_nat_numeral)
  then show ?thesis by (simp only: store_u32_def b)
qed

lemma put_pixel_store:
  assumes "x < ucast (sc_width si)" "y < ucast (sc_height si)" "1 \<le> sc_bpp si" "sc_bpp si \<le> 4"
  shows "screen_put_pixel si x y pixel m =
    Some (store_bytes m (pixel_addr si x y) (le_bytes (unat (sc_bpp si)) (unat pixel)))"
proof -
  let ?p = "pixel_addr si x y"
  have inside: "(x \<ge> ucast (sc_width si) \<or> y \<ge> ucast (sc_height si)) = False" using assms(1,2) by (simp add: not_le)
  have "unat (sc_bpp si) \<in> {1, 2, 3, 4}" using assms(3,4) by (auto simp: word_le_nat_alt)
  then consider "sc_bpp si = 1" | "sc_bpp si = 2" | "sc_bpp si = 3" | "sc_bpp si = 4"
    by (auto simp: unsigned_word_eqI word_unat_eq_iff)
  then show ?thesis
  proof cases
    case 1
    have "(ucast (pixel AND 0xFF) :: u8) = of_nat (unat pixel)"
      unfolding mask_low by (rule ucast_low) simp
    then show ?thesis unfolding screen_put_pixel_def inside Let_def using 1 by simp
  next
    case 2
    have "(ucast (pixel AND 0xFFFF) :: u16) = of_nat (unat pixel)"
      unfolding mask_low by (rule ucast_low) simp
    then have "unat (ucast (pixel AND 0xFFFF) :: u16) mod 256 ^ 2 = unat pixel mod 256 ^ 2"
      by (simp only: unat_of_nat) simp
    from le_bytes_cong [OF this] show ?thesis
      unfolding screen_put_pixel_def inside Let_def using 2 by (simp add: store_u16_def)
  next
    case 3
    have "unat (load_u32 m ?p) div 256 ^ 3 = unat (m (?p + 3))"
      using load_le_Suc [of m ?p 3] load_le_less [of m ?p 3] by (simp add: unat_load_u32)
    then have "unat ((pixel AND 0xFFFFFF) OR (load_u32 m ?p AND 0xFF000000)) = unat pixel mod 256 ^ 3 + unat (m (?p + 3)) * 256 ^ 3"
      by (simp add: merge_24)
    from store_u32_low [where m = m and p = ?p, OF this] show ?thesis
      unfolding screen_put_pixel_def inside Let_def using 3 by simp
  next
    case 4
    then show ?thesis unfolding screen_put_pixel_def inside Let_def by (simp add: store_u32_def)
  qed
qed

lemma put_pixel_clipped:
  "x \<ge> ucast (sc_width si) \<or> y \<ge> ucast (sc_height si) \<Longrightarrow> screen_put_pixel si x y pixel m = Some m"
  by (simp add: screen_put_pixel_def)

section \<open>Pixels in memory\<close>

definition pixel_off :: "screen_info \<Rightarrow> nat \<Rightarrow> nat \<Rightarrow> nat" where
  "pixel_off si x y = y * unat (sc_pitch si) + x * unat (sc_bpp si)"

definition screen_bytes :: "screen_info \<Rightarrow> nat" where
  "screen_bytes si = unat (sc_height si) * unat (sc_pitch si)"

text \<open>The picture in the buffer or in the frame buffer that starts at \<open>a\<close>.\<close>

definition frame :: "screen_info \<Rightarrow> addr_t \<Rightarrow> mem \<Rightarrow> nat \<Rightarrow> nat \<Rightarrow> nat" where
  "frame si a m x y = load_le m (a + of_nat (pixel_off si x y)) (unat (sc_bpp si))"

definition on_screen :: "screen_info \<Rightarrow> nat \<Rightarrow> nat \<Rightarrow> bool" where
  "on_screen si x y \<longleftrightarrow> x < unat (sc_width si) \<and> y < unat (sc_height si)"

definition good_screen :: "screen_info \<Rightarrow> bool" where
  "good_screen si \<longleftrightarrow> 1 \<le> sc_bpp si \<and> sc_bpp si \<le> 4 \<and>
     unat (sc_width si) * unat (sc_bpp si) \<le> unat (sc_pitch si) \<and> screen_bytes si + 8 \<le> 2 ^ 32 \<and>
     unat (sc_buffer si) + screen_bytes si + 8 \<le> 2 ^ 64 \<and> unat (sc_base si) + screen_bytes si + 8 \<le> 2 ^ 64 \<and>
     screen_bytes si + 8 \<le> unat (sc_base si - sc_buffer si) \<and> screen_bytes si + 8 \<le> unat (sc_buffer si - sc_base si)"

definition color_value :: "screen_info \<Rightarrow> u32 \<Rightarrow> nat" where
  "color_value si pixel = unat pixel mod 256 ^ unat (sc_bpp si)"

lemma unat_ucast64: "unat (ucast (w :: u32) :: size_t) = unat w" "unat (ucast (b :: u8) :: size_t) = unat b"
  using unsigned_less [of w, where 'a = nat] unsigned_less [of b, where 'a = nat]
  by (simp_all add: unsigned_ucast_eq take_bit_nat_eq_self)

lemma pixel_addr_off: "pixel_addr si (of_nat x) (of_nat y) = sc_buffer si + of_nat (pixel_off si x y)"
proof -
  have "ucast (sc_pitch si) = (of_nat (unat (sc_pitch si)) :: addr_t)" "ucast (sc_bpp si) = (of_nat (unat (sc_bpp si)) :: addr_t)"
    by simp_all
  then show ?thesis by (simp add: pixel_addr_def pixel_off_def algebra_simps)
qed

lemma row_bound: "x < w \<Longrightarrow> w * b \<le> p \<Longrightarrow> x * b + b \<le> p" for x w b p :: nat
  by (metis Suc_leI add.commute le_trans mult_Suc mult_le_mono1)

lemma cell_bound: "y < h \<Longrightarrow> c + b \<le> p \<Longrightarrow> y * p + c + b \<le> h * p" for y h p b c :: nat
  by (metis Suc_leI add.assoc add.commute add_le_mono1 le_trans mult_Suc mult_le_mono1 nat_add_left_cancel_le)

lemma pixel_off_bound:
  assumes "good_screen si" "on_screen si x y"
  shows "pixel_off si x y + unat (sc_bpp si) \<le> screen_bytes si"
  using assms row_bound [of x "unat (sc_width si)" "unat (sc_bpp si)" "unat (sc_pitch si)"]
    cell_bound [of y "unat (sc_height si)"]
  by (simp add: good_screen_def on_screen_def pixel_off_def screen_bytes_def)

lemma pixel_off_apart:
  assumes "good_screen si" "on_screen si x y" "on_screen si x' y'" "(x, y) \<noteq> (x', y')"
  shows "pixel_off si x y + unat (sc_bpp si) \<le> pixel_off si x' y' \<or> pixel_off si x' y' + unat (sc_bpp si) \<le> pixel_off si x y"
proof -
  let ?b = "unat (sc_bpp si)" and ?p = "unat (sc_pitch si)"
  have w: "unat (sc_width si) * ?b \<le> ?p" using assms(1) by (simp add: good_screen_def)
  have r: "x * ?b + ?b \<le> ?p" "x' * ?b + ?b \<le> ?p"
    using assms(2,3) row_bound [OF _ w] by (auto simp: on_screen_def)
  consider "y = y'" "x < x'" | "y = y'" "x' < x" | "y < y'" | "y' < y" using assms(4) by force
  then show ?thesis
  proof cases
    case 1
    then show ?thesis using row_bound [of x x' ?b "x' * ?b"] by (simp add: pixel_off_def)
  next
    case 2
    then show ?thesis using row_bound [of x' x ?b "x * ?b"] by (simp add: pixel_off_def)
  next
    case 3
    then show ?thesis using cell_bound [OF _ r(1), of y y'] by (simp add: pixel_off_def)
  next
    case 4
    then show ?thesis using cell_bound [OF _ r(2), of y' y] by (simp add: pixel_off_def)
  qed
qed

lemma bpp_le_8: "good_screen si \<Longrightarrow> unat (sc_bpp si) \<le> 8"
  by (simp add: good_screen_def word_le_nat_alt)

lemma small_of_nat: "k < 2 ^ 64 \<Longrightarrow> unat (of_nat k :: addr_t) = k"
  by (simp add: unat_of_nat)

text \<open>Stores into the buffer reach no address outside it.\<close>

definition outside :: "screen_info \<Rightarrow> addr_t \<Rightarrow> bool" where
  "outside si a \<longleftrightarrow> screen_bytes si \<le> unat (a - sc_buffer si)"

lemma store_in_buffer:
  assumes "good_screen si" "k + length bs \<le> screen_bytes si" "outside si a"
  shows "store_bytes m (sc_buffer si + of_nat k) bs a = m a"
proof (rule store_bytes_other)
  fix i assume i: "i < length bs"
  show "a \<noteq> sc_buffer si + of_nat k + of_nat i"
  proof
    assume "a = sc_buffer si + of_nat k + of_nat i"
    then have "a - sc_buffer si = of_nat (k + i)" by simp
    moreover have "unat (of_nat (k + i) :: addr_t) = k + i"
      by (rule small_of_nat) (use assms(1,2) i in \<open>simp add: good_screen_def\<close>)
    ultimately show False using assms(2,3) i by (simp add: outside_def)
  qed
qed

lemma load_off_other:
  assumes "k + length bs \<le> j \<or> j + n \<le> k" "k + length bs < 2 ^ 64" "j + n < 2 ^ 64"
  shows "load_le (store_bytes m (a + of_nat k) bs) (a + of_nat j) n = load_le m (a + of_nat j) n"
proof (rule load_le_cong, rule store_bytes_other)
  fix i i' assume i: "i < n" "i' < length bs"
  have "(of_nat (j + i) :: addr_t) \<noteq> of_nat (k + i')"
    using of_nat_inj64 [of "j + i" "k + i'"] assms i by auto
  then show "a + of_nat j + of_nat i \<noteq> a + of_nat k + of_nat i'" by (simp add: add.assoc)
qed

lemma put_pixel_frame:
  assumes g: "good_screen si" and xy: "on_screen si x y"
  shows "\<exists>m'. screen_put_pixel si (of_nat x) (of_nat y) pixel m = Some m' \<and>
    (\<forall>x' y'. on_screen si x' y' \<longrightarrow>
       frame si (sc_buffer si) m' x' y' = (if x' = x \<and> y' = y then color_value si pixel else frame si (sc_buffer si) m x' y')) \<and>
    (\<forall>a. outside si a \<longrightarrow> m' a = m a)"
proof -
  let ?bs = "le_bytes (unat (sc_bpp si)) (unat pixel)" and ?a = "sc_buffer si"
  let ?m = "store_bytes m (?a + of_nat (pixel_off si x y)) ?bs"
  have lt: "x < 2 ^ 64" "y < 2 ^ 64"
    using xy unsigned_less [of "sc_width si", where 'a = nat] unsigned_less [of "sc_height si", where 'a = nat] by (auto simp: on_screen_def)
  then have "(of_nat x :: size_t) < ucast (sc_width si)" "(of_nat y :: size_t) < ucast (sc_height si)"
    using xy by (simp_all add: word_less_nat_alt unat_ucast64 small_of_nat on_screen_def)
  then have run: "screen_put_pixel si (of_nat x) (of_nat y) pixel m = Some ?m"
    using put_pixel_store g unfolding pixel_addr_off [symmetric] by (simp add: good_screen_def)
  have b: "pixel_off si u v + unat (sc_bpp si) < 2 ^ 64" if "on_screen si u v" for u v
    using pixel_off_bound [OF g that] g by (simp add: good_screen_def)
  have "frame si ?a ?m x y = color_value si pixel"
    unfolding frame_def color_value_def by (rule load_le_store [OF bpp_le_8 [OF g]])
  moreover have "frame si ?a ?m x' y' = frame si ?a m x' y'" if "on_screen si x' y'" "\<not> (x' = x \<and> y' = y)" for x' y'
    unfolding frame_def
    by (rule load_off_other) (use b [OF xy] b [OF that(1)] pixel_off_apart [OF g xy that(1)] that(2) in auto)
  moreover have "?m a = m a" if "outside si a" for a
    by (rule store_in_buffer [OF g _ that]) (use pixel_off_bound [OF g xy] in simp)
  ultimately show ?thesis using run by (intro exI [of _ ?m]) simp
qed

section \<open>Pictures\<close>

text \<open>A run that ends in \<open>m'\<close> paints \<open>pic\<close> when the buffer shows the colours of \<open>pic\<close> where it has one and
  its old picture elsewhere, and nothing outside the buffer has changed.\<close>

type_synonym picture = "nat \<Rightarrow> nat \<Rightarrow> nat option"

definition paints :: "screen_info \<Rightarrow> mem \<Rightarrow> mem \<Rightarrow> picture \<Rightarrow> bool" where
  "paints si m m' pic \<longleftrightarrow>
     (\<forall>x y. on_screen si x y \<longrightarrow>
        frame si (sc_buffer si) m' x y = (case pic x y of Some c \<Rightarrow> c | None \<Rightarrow> frame si (sc_buffer si) m x y)) \<and>
     (\<forall>a. outside si a \<longrightarrow> m' a = m a)"

lemma paints_nothing: "paints si m m (\<lambda>_ _. None)"
  by (simp add: paints_def)

lemma paints_trans:
  "paints si m m1 p \<Longrightarrow> paints si m1 m2 q \<Longrightarrow> (\<And>x y. on_screen si x y \<Longrightarrow> r x y = (case q x y of Some c \<Rightarrow> Some c | None \<Rightarrow> p x y)) \<Longrightarrow>
     paints si m m2 r"
  by (auto simp: paints_def split: option.split)

definition dot :: "nat \<Rightarrow> nat \<Rightarrow> nat \<Rightarrow> picture" where
  "dot x y c x' y' = (if x' = x \<and> y' = y then Some c else None)"

lemma ucast_of_nat32: "x < 2 ^ 32 \<Longrightarrow> ucast (of_nat x :: u32) = (of_nat x :: size_t)"
  by (simp add: word_unat_eq_iff unat_of_nat unat_ucast64)

lemma on_screen_small: "on_screen si x y \<Longrightarrow> x < 2 ^ 32 \<and> y < 2 ^ 32"
  using unsigned_less [of "sc_width si", where 'a = nat] unsigned_less [of "sc_height si", where 'a = nat]
  by (auto simp: on_screen_def)

lemma put_pixel_paints:
  assumes "good_screen si" "on_screen si x y"
  shows "\<exists>m'. screen_put_pixel si (ucast (of_nat x :: u32)) (ucast (of_nat y :: u32)) pixel m = Some m' \<and>
    paints si m m' (dot x y (color_value si pixel))"
  using put_pixel_frame [OF assms, of pixel m] on_screen_small [OF assms(2)]
  by (fastforce simp: ucast_of_nat32 paints_def dot_def)

section \<open>A line of a glyph\<close>

definition line_picture :: "nat \<Rightarrow> nat \<Rightarrow> nat \<Rightarrow> (nat \<Rightarrow> nat) \<Rightarrow> picture" where
  "line_picture x y n f x' y' = (if y' = y \<and> x \<le> x' \<and> x' < x + n then Some (f (x' - x)) else None)"

lemma mask_bit: "g AND 2 ^ k \<noteq> 0 \<longleftrightarrow> bit g k" for g :: u32
  by (simp add: and_exp_eq_0_iff_not_bit)

lemma mask_step:
  assumes "k < 30"
  shows "signed_drop_bit (Suc 0) (2 * 2 ^ k :: cint) = 2 ^ k"
proof -
  have "signed_drop_bit 1 (push_bit (Suc k) 1 :: cint) = push_bit k 1"
    by (rule bit_word_eqI) (use assms in \<open>auto simp: bit_simps\<close>)
  then show ?thesis by (simp add: push_bit_of_1)
qed

lemma draw_line_paints:
  assumes g: "good_screen si"
  shows "k < 31 \<Longrightarrow> on_screen si (x + k) y \<Longrightarrow>
    \<exists>m'. draw_line si (of_nat x) (of_nat y) gl (2 ^ k) pixel bg (Suc k) m = Some m' \<and>
      paints si m m' (line_picture x y (Suc k) (\<lambda>i. color_value si (if bit gl (k - i) then pixel else bg)))"
proof (induction k arbitrary: x m)
  case 0
  obtain m' where m': "screen_put_pixel si (ucast (of_nat x :: u32)) (ucast (of_nat y :: u32)) (if bit gl 0 then pixel else bg) m = Some m'"
      "paints si m m' (dot x y (color_value si (if bit gl 0 then pixel else bg)))"
    using put_pixel_paints [OF g] 0 by (metis add.right_neutral)
  have "gl AND 1 \<noteq> 0 \<longleftrightarrow> bit gl 0" using mask_bit [of gl 0] by simp
  then have "draw_line si (of_nat x) (of_nat y) gl (2 ^ 0) pixel bg (Suc 0) m = Some m'"
    using m'(1) by simp
  moreover have "dot x y c = line_picture x y (Suc 0) (\<lambda>i. c)" for c
    by (auto simp: fun_eq_iff dot_def line_picture_def)
  ultimately show ?case using m'(2) by (auto simp: line_picture_def dot_def paints_def)
next
  case (Suc k)
  have on: "on_screen si x y" "on_screen si (Suc x + k) y" using Suc.prems(2) by (auto simp: on_screen_def)
  obtain m1 where m1: "screen_put_pixel si (ucast (of_nat x :: u32)) (ucast (of_nat y :: u32)) (if bit gl (Suc k) then pixel else bg) m = Some m1"
      "paints si m m1 (dot x y (color_value si (if bit gl (Suc k) then pixel else bg)))"
    using put_pixel_paints [OF g on(1)] by blast
  obtain m' where m': "draw_line si (of_nat (Suc x)) (of_nat y) gl (2 ^ k) pixel bg (Suc k) m1 = Some m'"
      "paints si m1 m' (line_picture (Suc x) y (Suc k) (\<lambda>i. color_value si (if bit gl (k - i) then pixel else bg)))"
    using Suc.IH [OF _ on(2)] Suc.prems(1) by (metis Suc_lessD)
  have "draw_line si (of_nat x) (of_nat y) gl (2 ^ Suc k) pixel bg (Suc (Suc k)) m = Some m'"
    using m1(1) m'(1) Suc.prems(1) mask_bit [of gl "Suc k"]
    by (simp add: mask_step add.commute)
  moreover have "paints si m m' (line_picture x y (Suc (Suc k)) (\<lambda>i. color_value si (if bit gl (Suc k - i) then pixel else bg)))"
    by (rule paints_trans [OF m1(2) m'(2)]) (auto simp: line_picture_def dot_def Suc_diff_le)
  ultimately show ?case by blast
qed

section \<open>The bits of a glyph\<close>

lemma glyph_line_bit:
  "n \<le> 4 \<Longrightarrow> k < 32 \<Longrightarrow>
    bit (glyph_line m p n g) k \<longleftrightarrow> (if k < 8 * n then bit (m (p + of_nat (n - 1 - k div 8))) (k mod 8) else bit g (k - 8 * n))"
proof (induction n arbitrary: p g)
  case (Suc n)
  have d: "push_bit 8 g AND ucast (m p) = 0"
    by (rule bit_word_eqI) (auto simp: bit_simps dest: bit_imp_le_length)
  have b: "bit (push_bit 8 g + ucast (m p)) j \<longleftrightarrow> (if j < 8 then bit (m p) j else bit g (j - 8))" if "j < 32" for j
    unfolding disjunctive_add_eq_or [OF d] using that by (auto simp: bit_simps dest: bit_imp_le_length)
  show ?case
  proof (cases "k < 8 * n")
    case True
    then have "Suc (n - 1 - k div 8) = n - k div 8" by auto
    then have "p + 1 + of_nat (n - 1 - k div 8) = p + of_nat (n - k div 8)" by (metis add.assoc of_nat_Suc)
    then show ?thesis using True Suc.IH Suc.prems by simp
  next
    case False
    then show ?thesis
    proof (cases "k < 8 * Suc n")
      case True
      then have "k div 8 = n" "k mod 8 = k - 8 * n" using False div_mult_self4 [of 8 n "k - 8 * n"] mod_mult_self4 [of 8 n "k - 8 * n"] by simp_all
      moreover have "k - 8 * n < 8" using True by simp
      ultimately show ?thesis using True False Suc by (simp add: b)
    next
      case False
      then have "\<not> k - 8 * n < 8" "k - 8 * n - 8 = k - 8 * Suc n" "\<not> k < 8 * n" by simp_all
      then show ?thesis using False Suc b [of "k - 8 * n"] by simp
    qed
  qed
qed simp

section \<open>A character\<close>

text \<open>The bit of a glyph at \<open>glyph\<close> for column \<open>i\<close> of row \<open>r\<close>: rows are whole bytes, the first column is the
  high bit of the first byte.\<close>

definition glyph_bit :: "screen_info \<Rightarrow> mem \<Rightarrow> addr_t \<Rightarrow> nat \<Rightarrow> nat \<Rightarrow> bool" where
  "glyph_bit si m glyph r i =
     bit (m (glyph + of_nat (r * ((unat (font_width si) + 7) div 8) + i div 8))) (7 - i mod 8)"

definition glyph_picture :: "screen_info \<Rightarrow> mem \<Rightarrow> addr_t \<Rightarrow> nat \<Rightarrow> nat \<Rightarrow> nat \<Rightarrow> u32 \<Rightarrow> u32 \<Rightarrow> picture" where
  "glyph_picture si m glyph x y h pixel bg x' y' =
     (if x \<le> x' \<and> x' < x + unat (font_width si) \<and> y \<le> y' \<and> y' < y + h
      then Some (color_value si (if glyph_bit si m glyph (y' - y) (x' - x) then pixel else bg)) else None)"

lemma row_bits:
  assumes "0 < w" "w \<le> 31" "i < w" "nb = (w + 7) div 8"
  shows "bit (drop_bit (nb * 8 - w) (glyph_line m p nb 0)) (w - 1 - i) \<longleftrightarrow> bit (m (p + of_nat (i div 8))) (7 - i mod 8)"
proof -
  define k where "k = nb * 8 - 1 - i"
  have nb: "nb \<le> 4" "w \<le> nb * 8" "nb * 8 < w + 8" using assms by presburger+
  have k: "nb * 8 - w + (w - 1 - i) = k" "k < 8 * nb" "k < 32" using nb assms(1,3) by (auto simp: k_def)
  have e: "k = 8 * (nb - 1 - i div 8) + (7 - i mod 8)"
  proof -
    have "i = 8 * (i div 8) + i mod 8" "i mod 8 \<le> 7" by simp_all
    moreover have "i div 8 < nb" using nb(2) assms(3) by (simp add: less_mult_imp_div_less)
    ultimately show ?thesis unfolding k_def by (simp add: algebra_simps)
  qed
  moreover have "7 - i mod 8 < 8" by simp
  ultimately have "k div 8 = nb - 1 - i div 8" "k mod 8 = 7 - i mod 8"
    by (simp_all only: div_mult_self4 mod_mult_self4 div_less mod_less add_0_right)
  moreover have "nb - 1 - (nb - 1 - i div 8) = i div 8"
    using less_mult_imp_div_less [of i nb 8] nb(2) assms(3) by simp
  ultimately show ?thesis
    using glyph_line_bit [OF nb(1) k(3), of m p 0] k by (simp add: bit_simps)
qed

lemma byte_in_row: "i < w \<Longrightarrow> i div 8 < (w + 7) div 8" for i w :: nat
proof -
  assume "i < w"
  then have "i < (w + 7) div 8 * 8" using div_mult_mod_eq [of "w + 7" 8] mod_less_divisor [of 8 "w + 7"] by linarith
  then show ?thesis by (rule less_mult_imp_div_less)
qed

lemma draw_glyph_paints:
  assumes g: "good_screen si" and w: "0 < unat (font_width si)" "unat (font_width si) \<le> 31"
  shows "(n = 0 \<or> on_screen si (x + unat (font_width si) - 1) (y + n - 1)) \<Longrightarrow>
    (\<And>i. i < n * ((unat (font_width si) + 7) div 8) \<Longrightarrow> outside si (glyph + of_nat i)) \<Longrightarrow>
    \<exists>m'. draw_glyph si (of_nat x) (of_nat y) glyph pixel bg n m = Some m' \<and>
      paints si m m' (glyph_picture si m glyph x y n pixel bg)"
proof (induction n arbitrary: y glyph m)
  case 0
  then show ?case by (simp add: paints_def glyph_picture_def)
next
  case (Suc n)
  let ?w = "unat (font_width si)" and ?nb = "(unat (font_width si) + 7) div 8"
  let ?gl = "drop_bit (?nb * 8 - ?w) (glyph_line m glyph ?nb 0)"
  have on: "on_screen si (x + (?w - 1)) y" "n = 0 \<or> on_screen si (x + ?w - 1) (Suc y + n - 1)"
    using Suc.prems(1) w(1) by (auto simp: on_screen_def)
  have lt: "?w - 1 < 31" "Suc (?w - 1) = ?w" using w by linarith+
  obtain m1 where m1: "draw_line si (of_nat x) (of_nat y) ?gl (2 ^ (?w - 1)) pixel bg ?w m = Some m1"
      "paints si m m1 (line_picture x y ?w (\<lambda>i. color_value si (if bit ?gl (?w - 1 - i) then pixel else bg)))"
    using draw_line_paints [OF g lt(1) on(1), of ?gl pixel bg m] unfolding lt(2) by blast
  have out: "outside si (glyph + of_nat ?nb + of_nat i)" if "i < n * ?nb" for i
    using Suc.prems(2) [of "?nb + i"] that by (simp add: add.assoc)
  obtain m' where m': "draw_glyph si (of_nat x) (of_nat (Suc y)) (glyph + of_nat ?nb) pixel bg n m1 = Some m'"
      "paints si m1 m' (glyph_picture si m1 (glyph + of_nat ?nb) x (Suc y) n pixel bg)"
    using Suc.IH [OF on(2) out] by blast
  have "draw_glyph si (of_nat x) (of_nat y) glyph pixel bg (Suc n) m = Some m'"
    using m1(1) m'(1) w by (simp add: Let_def push_bit_of_1 add.commute)
  moreover have "paints si m m' (glyph_picture si m glyph x y (Suc n) pixel bg)"
  proof (rule paints_trans [OF m1(2) m'(2)])
    fix x' y'
    have same: "glyph_bit si m1 (glyph + of_nat ?nb) (y' - Suc y) i = glyph_bit si m glyph (y' - y) i"
      if "i < ?w" "Suc y \<le> y'" "y' < Suc y + n" for i
    proof -
      have e: "?nb + ((y' - Suc y) * ?nb + i div 8) = (y' - y) * ?nb + i div 8"
        using that(2) by (metis Suc_diff_le add.assoc diff_Suc_Suc mult_Suc)
      have "y' - Suc y < n" "i div 8 + 1 \<le> ?nb" using that byte_in_row [of i ?w] by linarith+
      from cell_bound [OF this] have "(y' - Suc y) * ?nb + i div 8 < n * ?nb" by linarith
      then have "m1 (glyph + of_nat ?nb + of_nat ((y' - Suc y) * ?nb + i div 8)) = m (glyph + of_nat ?nb + of_nat ((y' - Suc y) * ?nb + i div 8))"
        using m1(2) out unfolding paints_def by blast
      then show ?thesis unfolding glyph_bit_def e [symmetric] by (simp only: of_nat_add add.assoc)
    qed
    have bits: "bit ?gl (?w - 1 - i) = glyph_bit si m glyph 0 i" if "i < ?w" for i
      using row_bits [OF w that refl, of m glyph] by (simp add: glyph_bit_def)
    consider "y' = y" | "Suc y \<le> y'" | "y' < y" by linarith
    then show "glyph_picture si m glyph x y (Suc n) pixel bg x' y' =
      (case glyph_picture si m1 (glyph + of_nat ?nb) x (Suc y) n pixel bg x' y' of Some c \<Rightarrow> Some c
       | None \<Rightarrow> line_picture x y ?w (\<lambda>i. color_value si (if bit ?gl (?w - 1 - i) then pixel else bg)) x' y')"
    proof cases
      case 1
      show ?thesis
      proof (cases "x \<le> x' \<and> x' < x + ?w")
        case True
        then have "x' - x < ?w" by auto
        show ?thesis unfolding line_picture_def bits [OF \<open>x' - x < ?w\<close>] using 1 True by (simp add: glyph_picture_def)
      qed (use 1 in \<open>auto simp: glyph_picture_def line_picture_def\<close>)
    next
      case 2
      show ?thesis
      proof (cases "x \<le> x' \<and> x' < x + ?w \<and> y' < Suc y + n")
        case True
        then have "x' - x < ?w" by auto
        from same [OF this 2] show ?thesis using 2 True by (simp add: glyph_picture_def line_picture_def)
      qed (use 2 in \<open>auto simp: glyph_picture_def line_picture_def\<close>)
    qed (simp add: glyph_picture_def line_picture_def)
  qed
  ultimately show ?case by blast
qed

end
