(* ===== verification/Screen.thy ===== *)
theory Screen
  imports Video
begin

text \<open>
  What the screen shows: the copy of the drawing buffer to the frame buffer by \<open>screen_flush_buffer\<close>, the
  scrolling of \<open>screen_move\<close>, and the properties of the driver of \<open>Video\<close>.
\<close>

section \<open>Copying to the frame buffer\<close>

lemma memcpy_apart:
  assumes n: "unat n < 2 ^ 62" "unat dst + unat n + 8 \<le> 2 ^ 64" "unat src + unat n + 8 \<le> 2 ^ 64"
    and ap: "unat n + 8 \<le> unat (dst - src)"
  shows "i < unat n \<Longrightarrow> memcpy m dst src n (dst + of_nat i) = m (src + of_nat i)"
    and "memcpy m dst src n (dst + of_nat i) \<in> {m (dst + of_nat i), m (src + of_nat i)}"
    and "(\<And>j. j < unat n + 8 \<Longrightarrow> a \<noteq> dst + of_nat j) \<Longrightarrow> memcpy m dst src n a = m a"
proof -
  let ?L = "memcpy_len dst src (unat n)"
  have L: "unat n \<le> ?L" "?L \<le> unat n + 7" using memcpy_len_bounds by simp_all
  have far: "dst = src \<or> ?L \<le> unat (dst - src)" using L ap by linarith
  have "(2 :: nat) ^ 62 + 7 \<le> 2 ^ 63" by simp
  then have far2: "?L \<le> 2 ^ 63" using L n(1) by linarith
  have copied: "\<forall>i<?L. fwd m dst src ?L (dst + of_nat i) = m (src + of_nat i)"
    by (rule fwd_correct [OF order.refl far2 far])
  show "memcpy m dst src n (dst + of_nat i) = m (src + of_nat i)" if "i < unat n"
    using that copied L(1) by (simp add: memcpy_fwd [OF n])
  show rest: "memcpy m dst src n a = m a" if "\<And>j. j < unat n + 8 \<Longrightarrow> a \<noteq> dst + of_nat j" for a
    unfolding memcpy_fwd [OF n] by (rule fwd_other) (use that L(2) in auto)
  show "memcpy m dst src n (dst + of_nat i) \<in> {m (dst + of_nat i), m (src + of_nat i)}"
  proof (cases "\<exists>j<?L. (of_nat i :: addr_t) = of_nat j")
    case True
    then show ?thesis using copied by (auto simp: memcpy_fwd [OF n])
  next
    case False
    then show ?thesis unfolding memcpy_fwd [OF n] by (subst fwd_other) auto
  qed
qed

text \<open>An address of the frame buffer, with the eight bytes behind it that \<open>memcpy\<close> may also write.\<close>

definition in_frame_buffer :: "screen_info \<Rightarrow> addr_t \<Rightarrow> bool" where
  "in_frame_buffer si a \<longleftrightarrow> (\<exists>j < screen_bytes si + 8. a = sc_base si + of_nat j)"

definition flushed :: "screen_info \<Rightarrow> mem \<Rightarrow> mem \<Rightarrow> (nat \<Rightarrow> bool) \<Rightarrow> bool" where
  "flushed si m m' D \<longleftrightarrow>
     (\<forall>a. \<not> in_frame_buffer si a \<longrightarrow> m' a = m a) \<and>
     (\<forall>k. m' (sc_base si + of_nat k) \<in> {m (sc_base si + of_nat k), m (sc_buffer si + of_nat k)}) \<and>
     (\<forall>k. D k \<longrightarrow> m' (sc_base si + of_nat k) = m (sc_buffer si + of_nat k))"

lemma buffer_not_frame_buffer:
  "good_screen si \<Longrightarrow> k < screen_bytes si + 8 \<Longrightarrow> \<not> in_frame_buffer si (sc_buffer si + of_nat k)"
  using offset_ne [of "screen_bytes si + 8" "sc_buffer si" "sc_base si" "screen_bytes si + 8"]
  by (auto simp: in_frame_buffer_def good_screen_def)

definition line_bytes :: "screen_info \<Rightarrow> nat \<Rightarrow> nat \<Rightarrow> nat \<Rightarrow> nat \<Rightarrow> bool" where
  "line_bytes si xs xe r k \<longleftrightarrow> r * unat (sc_pitch si) + xs * unat (sc_bpp si) \<le> k \<and>
     k < r * unat (sc_pitch si) + xe * unat (sc_bpp si)"

lemma row_le: "good_screen si \<Longrightarrow> xe \<le> unat (sc_width si) \<Longrightarrow> xe * unat (sc_bpp si) \<le> unat (sc_pitch si)"
  unfolding good_screen_def by (meson le_trans mult_le_mono1)

lemma flush_line:
  assumes g: "good_screen si" and x: "xs \<le> xe" "xe \<le> unat (sc_width si)" and r: "r < unat (sc_height si)"
  shows "flushed si m
      (let offs = ucast (sc_pitch si) * of_nat r + of_nat xs * ucast (sc_bpp si)
       in memcpy m (sc_base si + offs) (sc_buffer si + offs) ((of_nat xe - of_nat xs) * ucast (sc_bpp si)))
      (line_bytes si xs xe r)"
proof -
  let ?b = "unat (sc_bpp si)" and ?p = "unat (sc_pitch si)"
  define k0 where "k0 = r * ?p + xs * ?b"
  define n where "n = (xe - xs) * ?b"
  have kn: "k0 + n = r * ?p + xe * ?b" using x(1) by (simp add: k0_def n_def diff_mult_distrib)
  have "xe * ?b \<le> ?p" by (rule row_le [OF g x(2)])
  then have S: "k0 + n \<le> screen_bytes si"
    using cell_bound [OF r, of 0 "xe * ?b" ?p] by (simp add: kn screen_bytes_def)
  have w: "ucast (sc_pitch si) = (of_nat ?p :: addr_t)" "ucast (sc_bpp si) = (of_nat ?b :: addr_t)" by simp_all
  have offs: "ucast (sc_pitch si) * of_nat r + of_nat xs * ucast (sc_bpp si) = (of_nat k0 :: addr_t)"
    unfolding w k0_def by (simp add: algebra_simps)
  have len: "(of_nat xe - of_nat xs) * ucast (sc_bpp si) = (of_nat n :: addr_t)"
    unfolding w n_def using x(1) by (simp add: of_nat_diff)
  have lt: "screen_bytes si + 8 \<le> 2 ^ 32" using g by (simp add: good_screen_def)
  then have u: "unat (of_nat n :: addr_t) = n" "unat (of_nat k0 :: addr_t) = k0"
    using S by (simp_all add: small_of_nat)
  have ub: "unat (sc_base si + of_nat k0) = unat (sc_base si) + k0" "unat (sc_buffer si + of_nat k0) = unat (sc_buffer si) + k0"
    using g S u(2) by (simp_all add: good_screen_def unat_add_lem [THEN iffD1])
  have ne: "unat (of_nat n :: addr_t) < 2 ^ 62" "unat (sc_base si + of_nat k0) + unat (of_nat n :: addr_t) + 8 \<le> 2 ^ 64"
      "unat (sc_buffer si + of_nat k0) + unat (of_nat n :: addr_t) + 8 \<le> 2 ^ 64"
      "unat (of_nat n :: addr_t) + 8 \<le> unat (sc_base si + of_nat k0 - (sc_buffer si + of_nat k0))"
    unfolding u ub using S lt g by (auto simp: good_screen_def)
  note cp = memcpy_apart [OF ne, where m = m, unfolded u]
  have shift: "sc_base si + of_nat k = sc_base si + of_nat k0 + of_nat (k - k0)"
      "sc_buffer si + of_nat k = sc_buffer si + of_nat k0 + of_nat (k - k0)" if "k0 \<le> k" for k
    using that by (simp_all add: of_nat_diff)
  show ?thesis
    unfolding flushed_def Let_def offs len
  proof (intro conjI allI impI)
    fix a assume "\<not> in_frame_buffer si a"
    then have "a \<noteq> sc_base si + of_nat k0 + of_nat j" if "j < n + 8" for j
      using that S by (simp add: in_frame_buffer_def add.assoc flip: of_nat_add)
    then show "memcpy m (sc_base si + of_nat k0) (sc_buffer si + of_nat k0) (of_nat n) a = m a" by (rule cp(3))
  next
    fix k
    have "(of_nat (unat (of_nat k - of_nat k0 :: addr_t)) :: addr_t) = of_nat k - of_nat k0" by simp
    then show "memcpy m (sc_base si + of_nat k0) (sc_buffer si + of_nat k0) (of_nat n) (sc_base si + of_nat k) \<in>
        {m (sc_base si + of_nat k), m (sc_buffer si + of_nat k)}"
      using cp(2) [of "unat (of_nat k - of_nat k0 :: addr_t)"] by simp
  next
    fix k assume "line_bytes si xs xe r k"
    then have "k0 \<le> k" "k - k0 < n" using kn by (auto simp: line_bytes_def k0_def)
    then show "memcpy m (sc_base si + of_nat k0) (sc_buffer si + of_nat k0) (of_nat n) (sc_base si + of_nat k) = m (sc_buffer si + of_nat k)"
      using cp(1) shift by metis
  qed
qed

lemma flushed_trans:
  assumes g: "good_screen si" and 1: "flushed si m m1 D" and 2: "flushed si m1 m2 E"
    and "\<And>k. F k \<Longrightarrow> (D k \<or> E k) \<and> k < screen_bytes si"
  shows "flushed si m m2 F"
proof -
  have buf: "m1 (sc_buffer si + of_nat k) = m (sc_buffer si + of_nat k)" if "k < screen_bytes si + 8" for k
    using 1 buffer_not_frame_buffer [OF g that] by (simp add: flushed_def)
  have "m2 (sc_base si + of_nat k) \<in> {m (sc_base si + of_nat k), m (sc_buffer si + of_nat k)}" for k
  proof (cases "in_frame_buffer si (sc_base si + of_nat k)")
    case True
    then obtain j where j: "j < screen_bytes si + 8" "(of_nat k :: addr_t) = of_nat j" by (auto simp: in_frame_buffer_def)
    have "m2 (sc_base si + of_nat j) \<in> {m1 (sc_base si + of_nat j), m1 (sc_buffer si + of_nat j)}"
        "m1 (sc_base si + of_nat j) \<in> {m (sc_base si + of_nat j), m (sc_buffer si + of_nat j)}"
      using 1 2 by (simp_all add: flushed_def)
    then show ?thesis unfolding j(2) buf [OF j(1)] by auto
  next
    case False
    then show ?thesis using 1 2 by (simp add: flushed_def)
  qed
  moreover have "m2 (sc_base si + of_nat k) = m (sc_buffer si + of_nat k)" if F: "F k" for k
  proof -
    have k: "D k \<or> E k" "k < screen_bytes si" using assms(4) [OF F] by auto
    then have "m1 (sc_buffer si + of_nat k) = m (sc_buffer si + of_nat k)" by (intro buf) simp
    moreover have "m2 (sc_base si + of_nat k) \<in> {m1 (sc_base si + of_nat k), m1 (sc_buffer si + of_nat k)}"
      using 2 by (simp add: flushed_def)
    ultimately show ?thesis using 1 2 k(1) by (auto simp: flushed_def)
  qed
  ultimately show ?thesis using 1 2 by (simp add: flushed_def)
qed

lemma line_bytes_bound:
  assumes "good_screen si" "xe \<le> unat (sc_width si)" "r < unat (sc_height si)" "line_bytes si xs xe r k"
  shows "k < screen_bytes si"
proof -
  have "xe * unat (sc_bpp si) \<le> unat (sc_pitch si)" by (rule row_le [OF assms(1,2)])
  then show ?thesis
    using cell_bound [OF assms(3), of 0 "xe * unat (sc_bpp si)" "unat (sc_pitch si)"] assms(4)
    by (simp add: line_bytes_def screen_bytes_def)
qed

lemma flush_lines_spec:
  assumes g: "good_screen si" and x: "xs \<le> xe" "xe \<le> unat (sc_width si)" and ye: "ye \<le> unat (sc_height si)"
  shows "y \<le> ye \<Longrightarrow> flushed si m (flush_lines si (of_nat xs) (of_nat xe) (of_nat y) (of_nat ye) m)
    (\<lambda>k. \<exists>r. y \<le> r \<and> r < ye \<and> line_bytes si xs xe r k)"
proof (induction "ye - y" arbitrary: y m)
  case 0
  then show ?case by (subst flush_lines.simps) (auto simp: flushed_def)
next
  case (Suc n)
  have lt: "ye < 2 ^ 64" using ye unsigned_less [of "sc_height si", where 'a = nat] by simp
  have y: "y < ye" using Suc(2) by simp
  then have "(of_nat y :: size_t) < of_nat ye" using lt by (simp add: word_less_nat_alt small_of_nat)
  then have run: "flush_lines si (of_nat xs) (of_nat xe) (of_nat y) (of_nat ye) m =
      flush_lines si (of_nat xs) (of_nat xe) (of_nat (Suc y)) (of_nat ye)
        (let offs = ucast (sc_pitch si) * of_nat y + of_nat xs * ucast (sc_bpp si)
         in memcpy m (sc_base si + offs) (sc_buffer si + offs) ((of_nat xe - of_nat xs) * ucast (sc_bpp si)))"
    by (subst flush_lines.simps) (simp add: Let_def add.commute)
  have n: "n = ye - Suc y" "Suc y \<le> ye" using Suc(2) by simp_all
  show ?case
    unfolding run
  proof (rule flushed_trans [OF g flush_line [OF g x] Suc(1) [OF n]])
    show "y < unat (sc_height si)" using y ye by simp
    fix k assume "\<exists>r. y \<le> r \<and> r < ye \<and> line_bytes si xs xe r k"
    then obtain r where r: "y \<le> r" "r < ye" "line_bytes si xs xe r k" by blast
    then show "(line_bytes si xs xe y k \<or> (\<exists>r. Suc y \<le> r \<and> r < ye \<and> line_bytes si xs xe r k)) \<and> k < screen_bytes si"
      using line_bytes_bound [OF g x(2) _ r(3)] ye by (metis Suc_leI le_neq_implies_less less_le_trans)
  qed
qed

section \<open>What the screen shows\<close>

text \<open>The frame buffer shows what the buffer holds.\<close>

definition shown :: "screen_info \<Rightarrow> mem \<Rightarrow> bool" where
  "shown si m \<longleftrightarrow> (\<forall>x y. on_screen si x y \<longrightarrow> frame si (sc_base si) m x y = frame si (sc_buffer si) m x y)"

lemma load_le_inj: "load_le m p n = load_le m' q n \<Longrightarrow> i < n \<Longrightarrow> m (p + of_nat i) = m' (q + of_nat i)"
proof (induction n arbitrary: p q i)
  case (Suc n)
  have b: "unat (m p) < 256" "unat (m' q) < 256"
    using unsigned_less [of "m p", where 'a = nat] unsigned_less [of "m' q", where 'a = nat] by simp_all
  have eq: "unat (m p) + 256 * load_le m (p + 1) n = unat (m' q) + 256 * load_le m' (q + 1) n"
    using Suc.prems(1) by simp
  have "unat (m p) = unat (m' q)" using arg_cong [OF eq, of "\<lambda>x. x mod 256"] b by simp
  moreover from this have "m p = m' q" by (simp only: word_unat_eq_iff)
  moreover have "load_le m (p + 1) n = load_le m' (q + 1) n" using eq calculation by simp
  ultimately show ?case
    using Suc.IH [of "p + 1" "q + 1" "i - 1"] Suc.prems(2) by (cases i) (auto simp: add.assoc)
qed simp

lemma load_le_cong2: "(\<And>i. i < n \<Longrightarrow> m (p + of_nat i) = m' (q + of_nat i)) \<Longrightarrow> load_le m p n = load_le m' q n"
proof (induction n arbitrary: p q)
  case (Suc n)
  have "load_le m (p + 1) n = load_le m' (q + 1) n"
    by (rule Suc.IH) (use Suc.prems [of "Suc i" for i] in \<open>simp add: algebra_simps\<close>)
  then show ?case using Suc.prems [of 0] by simp
qed simp

lemma frame_bytes:
  "frame si a m x y = frame si a' m' x' y' \<longleftrightarrow>
    (\<forall>i<unat (sc_bpp si). m (a + of_nat (pixel_off si x y + i)) = m' (a' + of_nat (pixel_off si x' y' + i)))"
  unfolding frame_def of_nat_add add.assoc [symmetric]
  using load_le_inj load_le_cong2 by blast

lemma pixel_byte:
  assumes "good_screen si" "on_screen si x y" "i < unat (sc_bpp si)"
  shows "pixel_off si x y + i < screen_bytes si + 8"
  using pixel_off_bound [OF assms(1,2)] assms(3) by linarith

lemma flushed_frame:
  assumes g: "good_screen si" and fl: "flushed si m m' D" and xy: "on_screen si x y"
  shows "frame si (sc_buffer si) m' x y = frame si (sc_buffer si) m x y"
    and "(\<forall>i<unat (sc_bpp si). D (pixel_off si x y + i)) \<or> frame si (sc_base si) m x y = frame si (sc_buffer si) m x y \<Longrightarrow>
      frame si (sc_base si) m' x y = frame si (sc_buffer si) m x y"
proof -
  have keep: "m' a = m a" if "\<not> in_frame_buffer si a" for a using fl that by (simp add: flushed_def)
  have two: "m' (sc_base si + of_nat k) \<in> {m (sc_base si + of_nat k), m (sc_buffer si + of_nat k)}"
      "D k \<Longrightarrow> m' (sc_base si + of_nat k) = m (sc_buffer si + of_nat k)" for k
    using fl by (simp_all add: flushed_def)
  show "frame si (sc_buffer si) m' x y = frame si (sc_buffer si) m x y"
    unfolding frame_bytes
    by (intro allI impI keep buffer_not_frame_buffer [OF g] pixel_byte [OF g xy])
  assume "(\<forall>i<unat (sc_bpp si). D (pixel_off si x y + i)) \<or> frame si (sc_base si) m x y = frame si (sc_buffer si) m x y"
  then show "frame si (sc_base si) m' x y = frame si (sc_buffer si) m x y"
    unfolding frame_bytes using two by (metis insertE singletonD)
qed

lemma line_pixel:
  assumes "xs \<le> x" "x < xe" "i < unat (sc_bpp si)"
  shows "line_bytes si xs xe y (pixel_off si x y + i)"
proof -
  have "xs * unat (sc_bpp si) \<le> x * unat (sc_bpp si)" using assms(1) by (rule mult_le_mono1)
  then show ?thesis
    using row_bound [OF assms(2) order.refl, of "unat (sc_bpp si)"] assms(3) unfolding line_bytes_def pixel_off_def by linarith
qed

lemma frame_buffer_outside:
  assumes g: "good_screen si" and k: "k < screen_bytes si + 8"
  shows "outside si (sc_base si + of_nat k)"
proof (rule ccontr)
  assume "\<not> outside si (sc_base si + of_nat k)"
  then have "unat (sc_base si + of_nat k - sc_buffer si) < screen_bytes si" by (simp add: outside_def)
  moreover have "sc_base si + of_nat k = sc_buffer si + of_nat (unat (sc_base si + of_nat k - sc_buffer si))" by simp
  ultimately show False
    using buffer_not_frame_buffer [OF g, of "unat (sc_base si + of_nat k - sc_buffer si)"] k
    by (auto simp: in_frame_buffer_def)
qed

lemma vd_mem_simps [simp]:
  "vd_mem (set_vd_mem m v) = m" "vd_info (set_vd_mem m v) = vd_info v" "buffer_dirty (set_vd_mem m v) = buffer_dirty v"
  "vd_mem (screen_buffer_write a b c d v) = vd_mem v" "vd_info (screen_buffer_write a b c d v) = vd_info v"
  "unicode_table (set_vd_mem m v) = unicode_table v" "unicode_table (screen_buffer_write a b c d v) = unicode_table v"
  "vd_info (screen_flush_buffer v) = vd_info v" "buffer_dirty (screen_flush_buffer v) = 0"
  "unicode_table (screen_flush_buffer v) = unicode_table v"
  by (simp_all add: vd_mem_def set_vd_mem_def screen_buffer_write_def screen_flush_buffer_def)

text \<open>Drawing inside a rectangle and flushing that rectangle: the frame buffer shows the new picture.\<close>

lemma show_picture:
  assumes g: "good_screen (vd_info v)" and clean: "buffer_dirty v = 0" and sh: "shown (vd_info v) (vd_mem v)"
    and p: "paints (vd_info v) (vd_mem v) m' pic"
    and x: "xs \<le> xe" "xe \<le> unat (sc_width (vd_info v))" and y: "ys \<le> ye" "ye \<le> unat (sc_height (vd_info v))"
    and pic: "\<forall>x y c. pic x y = Some c \<longrightarrow> xs \<le> x \<and> x < xe \<and> ys \<le> y \<and> y < ye"
    and v': "v' = screen_flush_buffer (screen_buffer_write (of_nat xs) (of_nat xe) (of_nat ys) (of_nat ye) (set_vd_mem m' v))"
  shows "shown (vd_info v) (vd_mem v') \<and> vd_info v' = vd_info v \<and> buffer_dirty v' = 0 \<and> unicode_table v' = unicode_table v \<and>
    (\<forall>x y. on_screen (vd_info v) x y \<longrightarrow>
      frame (vd_info v) (sc_base (vd_info v)) (vd_mem v') x y =
        (case pic x y of Some c \<Rightarrow> c | None \<Rightarrow> frame (vd_info v) (sc_base (vd_info v)) (vd_mem v) x y)) \<and>
    (\<forall>a. outside (vd_info v) a \<and> \<not> in_frame_buffer (vd_info v) a \<longrightarrow> vd_mem v' a = vd_mem v a)"
proof -
  let ?si = "vd_info v" and ?a = "sc_base (vd_info v)" and ?b = "sc_buffer (vd_info v)" and ?m = "vd_mem v"
  have m: "vd_mem v' = flush_lines ?si (of_nat xs) (of_nat xe) (of_nat ys) (of_nat ye) m'"
    using clean by (simp add: v' screen_flush_buffer_def screen_buffer_write_def vd_mem_def set_vd_mem_def)
  note fl = flush_lines_spec [OF g x y(2,1), of m', folded m]
  have base: "frame ?si ?a m' x y = frame ?si ?a ?m x y" if "on_screen ?si x y" for x y
    unfolding frame_bytes
    using p frame_buffer_outside [OF g pixel_byte [OF g that]] unfolding paints_def by blast
  have new: "frame ?si ?a (vd_mem v') x y = frame ?si ?b m' x y" if on: "on_screen ?si x y" for x y
  proof (rule flushed_frame(2) [OF g fl on])
    show "(\<forall>i<unat (sc_bpp ?si). \<exists>r\<ge>ys. r < ye \<and> line_bytes ?si xs xe r (pixel_off ?si x y + i)) \<or>
        frame ?si ?a m' x y = frame ?si ?b m' x y"
    proof (cases "pic x y")
      case None
      then show ?thesis using p sh on base [OF on] by (simp add: paints_def shown_def)
    next
      case (Some c)
      then show ?thesis using pic line_pixel by blast
    qed
  qed
  have "shown ?si (vd_mem v')"
    using new flushed_frame(1) [OF g fl] by (simp add: shown_def)
  moreover have "frame ?si ?a (vd_mem v') x y = (case pic x y of Some c \<Rightarrow> c | None \<Rightarrow> frame ?si ?a ?m x y)"
    if "on_screen ?si x y" for x y
    using new [OF that] p sh that by (simp add: paints_def shown_def split: option.split)
  moreover have "vd_mem v' a = ?m a" if "outside ?si a" "\<not> in_frame_buffer ?si a" for a
    using p fl that by (simp add: paints_def flushed_def)
  ultimately show ?thesis by (simp add: v')
qed

section \<open>Filling and scrolling\<close>

definition rect_picture :: "nat \<Rightarrow> nat \<Rightarrow> nat \<Rightarrow> nat \<Rightarrow> nat \<Rightarrow> picture" where
  "rect_picture xs xe ys ye c x y = (if xs \<le> x \<and> x < xe \<and> ys \<le> y \<and> y < ye then Some c else None)"

lemma fill_row_paints:
  assumes g: "good_screen si" and y: "y < unat (sc_height si)"
  shows "x \<le> unat (sc_width si) \<Longrightarrow> \<exists>m'. fill_row si (of_nat x) (of_nat y) pixel m = Some m' \<and>
    paints si m m' (rect_picture x (unat (sc_width si)) y (Suc y) (color_value si pixel))"
proof (induction "unat (sc_width si) - x" arbitrary: x m)
  case 0
  then have "of_nat x = sc_width si" by auto
  then show ?case using 0 by (subst fill_row.simps) (auto simp: paints_def rect_picture_def)
next
  case (Suc n)
  have x: "x < unat (sc_width si)" and n: "n = unat (sc_width si) - Suc x" "Suc x \<le> unat (sc_width si)"
    using Suc(2) by simp_all
  have lt: "x < 2 ^ 32" using x unsigned_less [of "sc_width si", where 'a = nat] by simp
  have "(of_nat x :: u32) < sc_width si" using x lt by (simp add: word_less_nat_alt unat_of_nat)
  moreover obtain m1 where m1: "screen_put_pixel si (ucast (of_nat x :: u32)) (ucast (of_nat y :: u32)) pixel m = Some m1"
      "paints si m m1 (dot x y (color_value si pixel))"
    using put_pixel_paints [OF g, of x y] x y by (auto simp: on_screen_def)
  moreover obtain m' where m': "fill_row si (of_nat (Suc x)) (of_nat y) pixel m1 = Some m'"
      "paints si m1 m' (rect_picture (Suc x) (unat (sc_width si)) y (Suc y) (color_value si pixel))"
    using Suc(1) [of "Suc x" m1, OF n] by blast
  ultimately have "fill_row si (of_nat x) (of_nat y) pixel m = Some m'"
    by (subst fill_row.simps) (simp add: add.commute)
  moreover have "paints si m m' (rect_picture x (unat (sc_width si)) y (Suc y) (color_value si pixel))"
    by (rule paints_trans [OF m1(2) m'(2)]) (auto simp: rect_picture_def dot_def on_screen_def)
  ultimately show ?case by blast
qed

lemma fill_rows_paints:
  assumes g: "good_screen si"
  shows "y \<le> unat (sc_height si) \<Longrightarrow> \<exists>m'. fill_rows si (of_nat y) (sc_height si) pixel m = Some m' \<and>
    paints si m m' (rect_picture 0 (unat (sc_width si)) y (unat (sc_height si)) (color_value si pixel))"
proof (induction "unat (sc_height si) - y" arbitrary: y m)
  case 0
  then have "of_nat y = sc_height si" by auto
  then show ?case using 0 by (subst fill_rows.simps) (auto simp: paints_def rect_picture_def)
next
  case (Suc n)
  have y: "y < unat (sc_height si)" and n: "n = unat (sc_height si) - Suc y" "Suc y \<le> unat (sc_height si)"
    using Suc(2) by simp_all
  have lt: "y < 2 ^ 32" using y unsigned_less [of "sc_height si", where 'a = nat] by simp
  have "(of_nat y :: u32) < sc_height si" using y lt by (simp add: word_less_nat_alt unat_of_nat)
  moreover obtain m1 where m1: "fill_row si (of_nat 0) (of_nat y) pixel m = Some m1"
      "paints si m m1 (rect_picture 0 (unat (sc_width si)) y (Suc y) (color_value si pixel))"
    using fill_row_paints [OF g y, of 0] by blast
  moreover obtain m' where m': "fill_rows si (of_nat (Suc y)) (sc_height si) pixel m1 = Some m'"
      "paints si m1 m' (rect_picture 0 (unat (sc_width si)) (Suc y) (unat (sc_height si)) (color_value si pixel))"
    using Suc(1) [of "Suc y" m1, OF n] by blast
  ultimately have "fill_rows si (of_nat y) (sc_height si) pixel m = Some m'"
    by (subst fill_rows.simps) (simp add: add.commute)
  moreover have "paints si m m' (rect_picture 0 (unat (sc_width si)) y (unat (sc_height si)) (color_value si pixel))"
    by (rule paints_trans [OF m1(2) m'(2)]) (auto simp: rect_picture_def on_screen_def)
  ultimately show ?case by blast
qed

text \<open>The copy of \<open>screen_move\<close> for a step upwards: the lines of the frame buffer from line \<open>step\<close> on come to
  the start of the buffer.\<close>

lemma scroll_copy:
  fixes m :: mem
  assumes g: "good_screen si" and s: "0 < step" "step \<le> unat (sc_height si)"
  defines "m1 \<equiv> memmove m (sc_buffer si) (sc_base si + ucast (of_nat step * sc_pitch si)) (ucast ((sc_height si - of_nat step) * sc_pitch si))"
  shows "on_screen si x (y + step) \<Longrightarrow> frame si (sc_buffer si) m1 x y = frame si (sc_base si) m x (y + step)"
    and "in_frame_buffer si a \<Longrightarrow> m1 a = m a"
    and "(\<And>j. j < screen_bytes si + 8 \<Longrightarrow> a \<noteq> sc_buffer si + of_nat j) \<Longrightarrow> m1 a = m a"
proof -
  let ?p = "unat (sc_pitch si)" and ?h = "unat (sc_height si)"
  define k where "k = step * ?p"
  define n where "n = (?h - step) * ?p"
  have kn: "k + n = screen_bytes si"
    using s(2) by (simp add: k_def n_def screen_bytes_def diff_mult_distrib mult_le_mono1)
  have lt: "screen_bytes si + 8 \<le> 2 ^ 32" using g by (simp add: good_screen_def)
  have p: "sc_pitch si = of_nat ?p" "sc_height si = of_nat ?h" by simp_all
  have "of_nat step * sc_pitch si = of_nat k" by (subst p) (simp add: k_def)
  then have off: "ucast (of_nat step * sc_pitch si) = (of_nat k :: addr_t)"
    using kn lt by (simp add: ucast_of_nat32)
  have "(sc_height si - of_nat step) * sc_pitch si = of_nat n"
    by (subst p(1), subst p(2)) (simp add: n_def of_nat_diff s(2))
  then have len: "ucast ((sc_height si - of_nat step) * sc_pitch si) = (of_nat n :: addr_t)"
    using kn lt by (simp add: ucast_of_nat32)
  have u: "unat (of_nat n :: addr_t) = n" "unat (of_nat k :: addr_t) = k"
    using kn lt by (simp_all add: small_of_nat)
  have ub: "unat (sc_base si + of_nat k) = unat (sc_base si) + k"
    using g kn u(2) by (simp add: good_screen_def unat_add_lem [THEN iffD1])
  have far: "unat (sc_buffer si - (sc_base si + of_nat k)) = unat (sc_buffer si - sc_base si) - k"
  proof -
    have "(of_nat k :: addr_t) \<le> sc_buffer si - sc_base si"
      using g kn by (simp add: word_le_nat_alt u good_screen_def)
    then show ?thesis using unat_sub [of "of_nat k" "sc_buffer si - sc_base si"] by (simp add: u diff_diff_eq)
  qed
  have ap: "n + 8 \<le> unat (sc_buffer si - (sc_base si + of_nat k))"
  proof -
    have "screen_bytes si + 8 \<le> unat (sc_buffer si - sc_base si)" using g by (simp add: good_screen_def)
    then show ?thesis unfolding far kn [symmetric] by linarith
  qed
  then have "(of_nat n :: addr_t) \<le> sc_buffer si - (sc_base si + of_nat k)"
    by (simp add: word_le_nat_alt u)
  then have m1: "m1 = memcpy m (sc_buffer si) (sc_base si + of_nat k) (of_nat n)"
    by (simp add: m1_def off len memmove_def)
  have ne: "unat (of_nat n :: addr_t) < 2 ^ 62" "unat (sc_buffer si) + unat (of_nat n :: addr_t) + 8 \<le> 2 ^ 64"
      "unat (sc_base si + of_nat k) + unat (of_nat n :: addr_t) + 8 \<le> 2 ^ 64"
      "unat (of_nat n :: addr_t) + 8 \<le> unat (sc_buffer si - (sc_base si + of_nat k))"
    unfolding u ub using kn lt g ap by (auto simp: good_screen_def)
  note cp = memcpy_apart [OF ne, where m = m, unfolded u, folded m1]
  show "frame si (sc_buffer si) m1 x y = frame si (sc_base si) m x (y + step)" if on: "on_screen si x (y + step)"
    unfolding frame_bytes
  proof (intro allI impI)
    fix i assume i: "i < unat (sc_bpp si)"
    have e: "pixel_off si x (y + step) + i = k + (pixel_off si x y + i)"
      by (simp add: pixel_off_def k_def add_mult_distrib)
    moreover have "pixel_off si x (y + step) + i < screen_bytes si"
      using pixel_off_bound [OF g on] i by linarith
    ultimately have "pixel_off si x y + i < n" using kn by linarith
    from cp(1) [OF this] show "m1 (sc_buffer si + of_nat (pixel_off si x y + i)) = m (sc_base si + of_nat (pixel_off si x (y + step) + i))"
      unfolding e of_nat_add [of k] by (simp add: add.assoc)
  qed
  have frame_rule: "m1 a = m a" if "\<And>j. j < screen_bytes si + 8 \<Longrightarrow> a \<noteq> sc_buffer si + of_nat j" for a
    by (rule cp(3)) (use that kn in auto)
  then show "(\<And>j. j < screen_bytes si + 8 \<Longrightarrow> a \<noteq> sc_buffer si + of_nat j) \<Longrightarrow> m1 a = m a" by blast
  show "m1 a = m a" if "in_frame_buffer si a"
    by (rule frame_rule) (use that buffer_not_frame_buffer [OF g] in blast)
qed

section \<open>The nearest colour\<close>

definition byte_dist :: "u8 \<Rightarrow> u8 \<Rightarrow> nat" where
  "byte_dist a b = (if unat b \<le> unat a then unat a - unat b else unat b - unat a)"

definition rgb_dist :: "color_palette \<Rightarrow> color_palette \<Rightarrow> nat" where
  "rgb_dist c p = (byte_dist (cp_r c) (cp_r p))\<^sup>2 + (byte_dist (cp_g c) (cp_g p))\<^sup>2 + (byte_dist (cp_b c) (cp_b p))\<^sup>2"

lemma byte_dist_bound: "(byte_dist a b)\<^sup>2 \<le> 65025"
proof -
  have "byte_dist a b \<le> 255"
    using unsigned_less [of a, where 'a = nat] unsigned_less [of b, where 'a = nat]
    unfolding byte_dist_def by (auto split: if_split)
  from power_mono [OF this, of 2] show ?thesis by simp
qed

lemma color_diff: "(ucast a - ucast b) * (ucast a - ucast b) = (of_nat ((byte_dist a b)\<^sup>2) :: u32)" for a b :: u8
proof -
  have u: "(ucast a :: u32) = of_nat (unat a)" "(ucast b :: u32) = of_nat (unat b)" by simp_all
  have "(ucast a - ucast b :: u32) = of_nat (byte_dist a b) \<or> (ucast a - ucast b :: u32) = - of_nat (byte_dist a b)"
    unfolding u byte_dist_def by (cases "unat b \<le> unat a") (simp_all add: of_nat_diff)
  then show ?thesis by (auto simp: power2_eq_square)
qed

lemma color_distance_eq: "unat (color_distance c p) = rgb_dist c p" "rgb_dist c p \<le> 195075"
proof -
  show b: "rgb_dist c p \<le> 195075"
    using byte_dist_bound [of "cp_r c" "cp_r p"] byte_dist_bound [of "cp_g c" "cp_g p"] byte_dist_bound [of "cp_b c" "cp_b p"]
    by (simp add: rgb_dist_def)
  have "color_distance c p = of_nat (rgb_dist c p)"
    by (simp only: color_distance_def Let_def color_diff rgb_dist_def of_nat_add)
  then show "unat (color_distance c p) = rgb_dist c p" using b by (simp add: unat_of_nat)
qed

lemma nearest_loop_spec:
  "nearest_loop c ps (of_nat i) px d = px \<and> (\<forall>l<length ps. unat d \<le> rgb_dist c (ps ! l)) \<or>
   (\<exists>j<length ps. nearest_loop c ps (of_nat i) px d = of_nat (i + j) \<and> rgb_dist c (ps ! j) < unat d \<and>
      (\<forall>l<length ps. rgb_dist c (ps ! j) \<le> rgb_dist c (ps ! l)) \<and> (\<forall>l<j. rgb_dist c (ps ! j) < rgb_dist c (ps ! l)))"
proof (induction ps arbitrary: i px d)
  case (Cons p ps)
  show ?case
  proof (cases "rgb_dist c p < unat d")
    case True
    then have run: "nearest_loop c (p # ps) (of_nat i) px d = nearest_loop c ps (of_nat (Suc i)) (of_nat i) (color_distance c p)"
      by (simp add: word_less_nat_alt color_distance_eq(1) add.commute)
    consider "nearest_loop c ps (of_nat (Suc i)) (of_nat i) (color_distance c p) = of_nat i" "\<forall>l<length ps. rgb_dist c p \<le> rgb_dist c (ps ! l)"
      | j where "j < length ps" "nearest_loop c ps (of_nat (Suc i)) (of_nat i) (color_distance c p) = of_nat (Suc i + j)"
          "rgb_dist c (ps ! j) < rgb_dist c p" "\<forall>l<length ps. rgb_dist c (ps ! j) \<le> rgb_dist c (ps ! l)"
          "\<forall>l<j. rgb_dist c (ps ! j) < rgb_dist c (ps ! l)"
      using Cons.IH [of "Suc i" "of_nat i" "color_distance c p"] unfolding color_distance_eq(1) by blast
    then show ?thesis
    proof cases
      case 1
      then show ?thesis
        unfolding run using True by (intro disjI2 exI [of _ 0]) (auto simp: less_Suc_eq_0_disj)
    next
      case (2 j)
      then show ?thesis
        unfolding run using True by (intro disjI2 exI [of _ "Suc j"]) (auto simp: less_Suc_eq_0_disj)
    qed
  next
    case False
    then have run: "nearest_loop c (p # ps) (of_nat i) px d = nearest_loop c ps (of_nat (Suc i)) px d"
      by (simp add: word_less_nat_alt color_distance_eq(1) add.commute)
    consider "nearest_loop c ps (of_nat (Suc i)) px d = px" "\<forall>l<length ps. unat d \<le> rgb_dist c (ps ! l)"
      | j where "j < length ps" "nearest_loop c ps (of_nat (Suc i)) px d = of_nat (Suc i + j)"
          "rgb_dist c (ps ! j) < unat d" "\<forall>l<length ps. rgb_dist c (ps ! j) \<le> rgb_dist c (ps ! l)"
          "\<forall>l<j. rgb_dist c (ps ! j) < rgb_dist c (ps ! l)"
      using Cons.IH [of "Suc i" px d] by blast
    then show ?thesis
    proof cases
      case 1
      then show ?thesis unfolding run using False by (intro disjI1) (auto simp: less_Suc_eq_0_disj)
    next
      case (2 j)
      then show ?thesis
        unfolding run using False by (intro disjI2 exI [of _ "Suc j"]) (auto simp: less_Suc_eq_0_disj)
    qed
  qed
qed simp

section \<open>Properties of the screen\<close>

text \<open>a pixel on the screen takes exactly its own bytes of the buffer, the other pixels and everything
  outside the buffer stay as they are, and a pixel off the screen changes nothing.\<close>

theorem screen_put_pixel_exact:
  fixes x y :: u32
  assumes "good_screen si"
  shows "\<exists>m'. screen_put_pixel si (ucast x) (ucast y) pixel m = Some m' \<and>
    (\<forall>x' y'. on_screen si x' y' \<longrightarrow> frame si (sc_buffer si) m' x' y' =
       (if x' = unat x \<and> y' = unat y then unat pixel mod 256 ^ unat (sc_bpp si) else frame si (sc_buffer si) m x' y')) \<and>
    (\<forall>a. outside si a \<longrightarrow> m' a = m a) \<and> (\<not> on_screen si (unat x) (unat y) \<longrightarrow> m' = m)"
proof (cases "on_screen si (unat x) (unat y)")
  case True
  have w: "(of_nat (unat x) :: u32) = x" "(of_nat (unat y) :: u32) = y" by simp_all
  obtain m' where "screen_put_pixel si (ucast x) (ucast y) pixel m = Some m'"
      "paints si m m' (dot (unat x) (unat y) (color_value si pixel))"
    using put_pixel_paints [OF assms True, of pixel m] unfolding w by blast
  then show ?thesis
    using True by (intro exI [of _ m']) (auto simp: paints_def dot_def color_value_def)
next
  case False
  then have "screen_put_pixel si (ucast x) (ucast y) pixel m = Some m"
    by (intro put_pixel_clipped) (auto simp: on_screen_def word_le_nat_alt unat_ucast64)
  then show ?thesis using False by auto
qed

text \<open>C35: in a palette mode the colour becomes the first entry of the palette at the least distance.\<close>

theorem trans_color2pixel_nearest:
  assumes "sc_type si \<noteq> SCREEN_RGB" "sc_colors si = Palette n p" "0 < n"
  shows "\<exists>k<unat n. trans_color2pixel si m color = Some (of_nat k) \<and>
    (\<forall>j<unat n. rgb_dist (make_palette color) (palette_color m p k) \<le> rgb_dist (make_palette color) (palette_color m p j)) \<and>
    (\<forall>j<k. rgb_dist (make_palette color) (palette_color m p k) < rgb_dist (make_palette color) (palette_color m p j))"
proof -
  let ?c = "make_palette color" and ?ps = "map (palette_color m p) [0..<unat n]"
  have n: "0 < unat n" using assms(3) by (simp add: word_less_nat_alt)
  have run: "trans_color2pixel si m color = Some (nearest_loop ?c ?ps (of_nat 0) 0 (3 * 256 * 256))"
    using assms(1,2) by (simp add: trans_color2pixel_def Let_def)
  have d: "unat (3 * 256 * 256 :: u32) = 196608" by simp
  have "rgb_dist ?c (?ps ! 0) < unat (3 * 256 * 256 :: u32)"
    unfolding d using color_distance_eq(2) [of ?c "?ps ! 0"] by linarith
  then have "\<exists>j<unat n. nearest_loop ?c ?ps (of_nat 0) 0 (3 * 256 * 256) = of_nat j \<and>
      (\<forall>l<unat n. rgb_dist ?c (?ps ! j) \<le> rgb_dist ?c (?ps ! l)) \<and> (\<forall>l<j. rgb_dist ?c (?ps ! j) < rgb_dist ?c (?ps ! l))"
    using nearest_loop_spec [of ?c ?ps 0 0 "3 * 256 * 256"] n unfolding length_map length_upt diff_zero add_0
    by (meson not_le)
  then show ?thesis unfolding run using n by auto
qed

lemma outside_slack:
  assumes "good_screen si" "screen_bytes si + 8 \<le> unat (a - sc_buffer si)" "j < screen_bytes si + 8"
  shows "a \<noteq> sc_buffer si + of_nat j"
proof
  assume "a = sc_buffer si + of_nat j"
  then have "unat (a - sc_buffer si) = j"
    using assms(1,3) by (simp add: good_screen_def small_of_nat)
  then show False using assms(2,3) by simp
qed

lemma neg_step:
  assumes "0 < k" "k < 2 ^ 31"
  shows "\<not> 0 \<le>s (- of_nat k :: cint)"
proof -
  have k: "sint (of_nat k :: cint) = int k"
    using assms by (simp add: signed_of_nat) (rule signed_take_bit_int_eq_self; simp)
  have "sint (- of_nat k :: cint) = - int k"
    unfolding sint_word_ariths k using assms by (simp add: signed_take_bit_int_eq_self)
  then show ?thesis using assms(1) by (simp add: word_sle_eq)
qed

lemma input_char_ok:
  assumes "good_screen (vd_info v)" "shown (vd_info v) (vd_mem v)" "buffer_dirty v = 0"
    and "sc_type (vd_info v) \<noteq> SCREEN_VGA" "sc_base (vd_info v) \<noteq> 0" "chr < UINT16_MAX"
    and "0 < unat (font_width (vd_info v))" "unat (font_width (vd_info v)) \<le> 31" "0 < unat (font_height (vd_info v))"
    and "x + unat (font_width (vd_info v)) \<le> unat (sc_width (vd_info v))" "y + unat (font_height (vd_info v)) \<le> unat (sc_height (vd_info v))"
    and "trans_color2pixel (vd_info v) (vd_mem v) front = Some pf" "trans_color2pixel (vd_info v) (vd_mem v) bg = Some pb"
    and "glyph = sc_glyph (vd_info v) + ucast (glyph_index v chr * bytesperglyph (vd_info v))"
    and "\<forall>i < unat (font_height (vd_info v)) * ((unat (font_width (vd_info v)) + 7) div 8). outside (vd_info v) (glyph + of_nat i)"
  shows "\<exists>v'. screen_input_char (of_nat x) (of_nat y) front bg chr v = Some v' \<and>
    shown (vd_info v) (vd_mem v') \<and> vd_info v' = vd_info v \<and> buffer_dirty v' = 0 \<and> unicode_table v' = unicode_table v \<and>
    (\<forall>x' y'. on_screen (vd_info v) x' y' \<longrightarrow>
      frame (vd_info v) (sc_base (vd_info v)) (vd_mem v') x' y' =
        (if x \<le> x' \<and> x' < x + unat (font_width (vd_info v)) \<and> y \<le> y' \<and> y' < y + unat (font_height (vd_info v))
         then color_value (vd_info v) (if glyph_bit (vd_info v) (vd_mem v) glyph (y' - y) (x' - x) then pf else pb)
         else frame (vd_info v) (sc_base (vd_info v)) (vd_mem v) x' y')) \<and>
    (\<forall>a. outside (vd_info v) a \<and> \<not> in_frame_buffer (vd_info v) a \<longrightarrow> vd_mem v' a = vd_mem v a)"
proof -
  let ?si = "vd_info v" and ?w = "unat (font_width (vd_info v))" and ?h = "unat (font_height (vd_info v))"
  have on: "?h = 0 \<or> on_screen ?si (x + ?w - 1) (y + ?h - 1)"
    using assms(7,9,10,11) unfolding on_screen_def by linarith
  have small: "x + ?w < 2 ^ 32" "y + ?h < 2 ^ 32"
    using assms(10,11) unsigned_less [of "sc_width ?si", where 'a = nat] unsigned_less [of "sc_height ?si", where 'a = nat] by simp_all
  obtain m' where m': "draw_glyph ?si (of_nat x) (of_nat y) glyph pf pb ?h (vd_mem v) = Some m'"
      "paints ?si (vd_mem v) m' (glyph_picture ?si (vd_mem v) glyph x y ?h pf pb)"
    using draw_glyph_paints [OF assms(1,7,8) on] assms(15) by blast
  define v' where "v' = screen_flush_buffer (screen_buffer_write (of_nat x) (of_nat (x + ?w)) (of_nat y) (of_nat (y + ?h)) (set_vd_mem m' v))"
  have e: "(of_nat x :: u32) + ucast (font_width ?si) = of_nat (x + ?w)" "(of_nat y :: u32) + ucast (font_height ?si) = of_nat (y + ?h)"
    by simp_all
  have chr: "\<not> UINT16_MAX \<le> chr" using assms(6) by (simp add: not_le)
  have run: "screen_input_char (of_nat x) (of_nat y) front bg chr v = Some v'"
    unfolding screen_input_char_def Let_def assms(12,13) e
    using assms(4,5) chr m'(1) small by (simp add: v'_def ucast_of_nat32 assms(14) del: of_nat_add)
  have pic: "\<forall>x' y' c. glyph_picture ?si (vd_mem v) glyph x y ?h pf pb x' y' = Some c \<longrightarrow> x \<le> x' \<and> x' < x + ?w \<and> y \<le> y' \<and> y' < y + ?h"
    by (simp add: glyph_picture_def)
  have "frame ?si (sc_base ?si) (vd_mem v') x' y' =
      (if x \<le> x' \<and> x' < x + ?w \<and> y \<le> y' \<and> y' < y + ?h
       then color_value ?si (if glyph_bit ?si (vd_mem v) glyph (y' - y) (x' - x) then pf else pb)
       else frame ?si (sc_base ?si) (vd_mem v) x' y')" if "on_screen ?si x' y'" for x' y'
    using show_picture [OF assms(1,3,2) m'(2) le_add1 assms(10) le_add1 assms(11) pic v'_def] that
    by (simp add: glyph_picture_def)
  then show ?thesis
    using run show_picture [OF assms(1,3,2) m'(2) le_add1 assms(10) le_add1 assms(11) pic v'_def] by blast
qed

lemma screen_move_ok:
  assumes "good_screen (vd_info v)" "shown (vd_info v) (vd_mem v)" "buffer_dirty v = 0"
    and "0 < step" "step \<le> unat (sc_height (vd_info v))" "step < 2 ^ 31"
    and "trans_color2pixel (vd_info v) (vd_mem v) fill = Some pixel"
  shows "\<exists>v'. screen_move (- of_nat step) fill v = Some v' \<and>
    shown (vd_info v) (vd_mem v') \<and> vd_info v' = vd_info v \<and> buffer_dirty v' = 0 \<and> unicode_table v' = unicode_table v \<and>
    (\<forall>x y. on_screen (vd_info v) x y \<longrightarrow>
      frame (vd_info v) (sc_base (vd_info v)) (vd_mem v') x y =
        (if y + step < unat (sc_height (vd_info v)) then frame (vd_info v) (sc_base (vd_info v)) (vd_mem v) x (y + step)
         else color_value (vd_info v) pixel)) \<and>
    (\<forall>a. screen_bytes (vd_info v) + 8 \<le> unat (a - sc_buffer (vd_info v)) \<and> \<not> in_frame_buffer (vd_info v) a \<longrightarrow> vd_mem v' a = vd_mem v a)"
proof -
  let ?si = "vd_info v" and ?m = "vd_mem v" and ?h = "unat (sc_height (vd_info v))" and ?w = "unat (sc_width (vd_info v))"
  define m1 where "m1 = memmove ?m (sc_buffer ?si) (sc_base ?si + ucast (of_nat step * sc_pitch ?si))
    (ucast ((sc_height ?si - of_nat step) * sc_pitch ?si))"
  note copy = scroll_copy [OF assms(1,4,5), where m = ?m, folded m1_def]
  obtain m2 where m2: "fill_rows ?si (of_nat (?h - step)) (sc_height ?si) pixel m1 = Some m2"
      "paints ?si m1 m2 (rect_picture 0 ?w (?h - step) ?h (color_value ?si pixel))"
    using fill_rows_paints [OF assms(1), of "?h - step"] by auto
  define v' where "v' = screen_flush_buffer (screen_buffer_write 0 (ucast (sc_width ?si)) 0 (ucast (sc_height ?si)) (set_vd_mem m2 v))"

  have neg: "\<not> 0 \<le>s (- of_nat step :: cint)" by (rule neg_step [OF assms(4,6)])
  have st: "(of_nat (?h - step) :: u32) = sc_height ?si - of_nat step"
    using assms(5) by (simp add: of_nat_diff)
  have run: "screen_move (- of_nat step) fill v = Some v'"
    unfolding screen_move_def Let_def assms(7) using neg m2(1) by (simp add: m1_def [symmetric] v'_def st)
  have wh: "(ucast (sc_width ?si) :: size_t) = of_nat ?w" "(ucast (sc_height ?si) :: size_t) = of_nat ?h" by simp_all
  have mem: "vd_mem v' = flush_lines ?si (of_nat 0) (of_nat ?w) (of_nat 0) (of_nat ?h) m2"
    using assms(3) by (simp add: v'_def screen_flush_buffer_def screen_buffer_write_def vd_mem_def set_vd_mem_def)
  note fl = flush_lines_spec [OF assms(1) le0 order.refl order.refl le0, of m2, folded mem]
  have new: "frame ?si (sc_base ?si) (vd_mem v') x y = frame ?si (sc_buffer ?si) m2 x y" if on: "on_screen ?si x y" for x y
    by (rule flushed_frame(2) [OF assms(1) fl on]) (use on line_pixel [of 0 x ?w] in \<open>auto simp: on_screen_def\<close>)
  have sh: "shown ?si (vd_mem v')" using new flushed_frame(1) [OF assms(1) fl] by (simp add: shown_def)
  have pic: "frame ?si (sc_base ?si) (vd_mem v') x y =
      (if y + step < ?h then frame ?si (sc_base ?si) ?m x (y + step) else color_value ?si pixel)" if on: "on_screen ?si x y" for x y
  proof (cases "y + step < ?h")
    case True
    then have "on_screen ?si x (y + step)" "\<not> ?h - step \<le> y" using on by (auto simp: on_screen_def)
    with copy(1) [OF this(1)] show ?thesis
      using new [OF on] m2(2) on True by (simp add: paints_def rect_picture_def)
  next
    case False
    then show ?thesis using new [OF on] m2(2) on by (auto simp: paints_def rect_picture_def on_screen_def)
  qed
  have rest: "vd_mem v' a = ?m a" if "screen_bytes ?si + 8 \<le> unat (a - sc_buffer ?si)" "\<not> in_frame_buffer ?si a" for a
  proof -
    have "m1 a = ?m a" by (rule copy(3)) (rule outside_slack [OF assms(1) that(1)])
    moreover have "m2 a = m1 a" using m2(2) that(1) by (simp add: paints_def outside_def)
    ultimately show ?thesis using fl that(2) by (simp add: flushed_def)
  qed
  show ?thesis
    using run sh pic rest assms(3) by (intro exI [of _ v']) (simp add: v'_def)
qed

text \<open>C33: \<open>screen_input_char\<close> with a cell on the screen: the frame buffer then shows the glyph of the
  character in the two colours in the cell, and what it showed elsewhere; nothing but the buffer and the
  frame buffer has changed.\<close>

theorem screen_input_char_shows:
  assumes "good_screen (vd_info v)" "shown (vd_info v) (vd_mem v)" "buffer_dirty v = 0"
    and "sc_type (vd_info v) \<noteq> SCREEN_VGA" "sc_base (vd_info v) \<noteq> 0" "chr < UINT16_MAX"
    and "0 < unat (font_width (vd_info v))" "unat (font_width (vd_info v)) \<le> 31" "0 < unat (font_height (vd_info v))"
    and "x + unat (font_width (vd_info v)) \<le> unat (sc_width (vd_info v))" "y + unat (font_height (vd_info v)) \<le> unat (sc_height (vd_info v))"
    and "trans_color2pixel (vd_info v) (vd_mem v) front = Some pf" "trans_color2pixel (vd_info v) (vd_mem v) bg = Some pb"
    and "glyph = sc_glyph (vd_info v) + ucast (glyph_index v chr * bytesperglyph (vd_info v))"
    and "\<forall>i < unat (font_height (vd_info v)) * ((unat (font_width (vd_info v)) + 7) div 8). outside (vd_info v) (glyph + of_nat i)"
  shows "\<exists>v'. screen_input_char (of_nat x) (of_nat y) front bg chr v = Some v' \<and>
    shown (vd_info v) (vd_mem v') \<and> vd_info v' = vd_info v \<and> buffer_dirty v' = 0 \<and>
    (\<forall>x' y'. on_screen (vd_info v) x' y' \<longrightarrow>
      frame (vd_info v) (sc_base (vd_info v)) (vd_mem v') x' y' =
        (if x \<le> x' \<and> x' < x + unat (font_width (vd_info v)) \<and> y \<le> y' \<and> y' < y + unat (font_height (vd_info v))
         then color_value (vd_info v) (if glyph_bit (vd_info v) (vd_mem v) glyph (y' - y) (x' - x) then pf else pb)
         else frame (vd_info v) (sc_base (vd_info v)) (vd_mem v) x' y')) \<and>
    (\<forall>a. outside (vd_info v) a \<and> \<not> in_frame_buffer (vd_info v) a \<longrightarrow> vd_mem v' a = vd_mem v a)"
  using input_char_ok [OF assms] by blast

text \<open>C34: \<open>screen_move\<close> upwards by \<open>step\<close> lines: the frame buffer shows the old picture without its first
  lines, and the fill colour in the last lines.\<close>

theorem screen_move_scrolls:
  assumes "good_screen (vd_info v)" "shown (vd_info v) (vd_mem v)" "buffer_dirty v = 0"
    and "0 < step" "step \<le> unat (sc_height (vd_info v))" "step < 2 ^ 31"
    and "trans_color2pixel (vd_info v) (vd_mem v) fill = Some pixel"
  shows "\<exists>v'. screen_move (- of_nat step) fill v = Some v' \<and>
    shown (vd_info v) (vd_mem v') \<and> vd_info v' = vd_info v \<and> buffer_dirty v' = 0 \<and>
    (\<forall>x y. on_screen (vd_info v) x y \<longrightarrow>
      frame (vd_info v) (sc_base (vd_info v)) (vd_mem v') x y =
        (if y + step < unat (sc_height (vd_info v)) then frame (vd_info v) (sc_base (vd_info v)) (vd_mem v) x (y + step)
         else color_value (vd_info v) pixel)) \<and>
    (\<forall>a. screen_bytes (vd_info v) + 8 \<le> unat (a - sc_buffer (vd_info v)) \<and> \<not> in_frame_buffer (vd_info v) a \<longrightarrow> vd_mem v' a = vd_mem v a)"
  using screen_move_ok [OF assms] by blast

section \<open>A small screen\<close>

text \<open>Sixteen by four pixels of one byte with a palette of black and white, a font of glyphs of eight by two.\<close>

definition sample_screen :: screen_info where
  "sample_screen = \<lparr>sc_base = 0x20000, sc_buffer = 0x10000, sc_width = 16, sc_height = 4, sc_pitch = 16, bytesperglyph = 2,
     sc_bpp = 1, sc_type = SCREEN_INDEX, font_width = 8, font_height = 2, sc_table = NoTable, sc_glyph = 0x40020,
     font_header = 0x40000, sc_colors = Palette 2 (PaletteAt 0x50000)\<rparr>"

definition sample_screen_mem :: mem where
  "sample_screen_mem a = (if a = 0x50003 \<or> a = 0x50004 \<or> a = 0x50005 then 0xFF else if a = 0x40020 then 0x80
     else if a = 0x40010 then 1 else 0)"

definition sample_video :: video where
  "sample_video = \<lparr>vd_info = sample_screen, dirty_xstart = 0, dirty_xend = 0, dirty_ystart = 0, dirty_yend = 0, buffer_dirty = 0,
     unicode_table = (\<lambda>_. 0), vd_pmm = start_state\<lparr>pm_mem := sample_screen_mem\<rparr>, font_start = 0x40000, font_end = 0x40100\<rparr>"

lemma sample_video_fields:
  "vd_info sample_video = sample_screen" "vd_mem sample_video = sample_screen_mem" "buffer_dirty sample_video = 0"
  by (simp_all add: sample_video_def vd_mem_def)

lemma sample_screen_fields:
  "sc_base sample_screen = 0x20000" "sc_buffer sample_screen = 0x10000" "sc_width sample_screen = 16" "sc_height sample_screen = 4"
  "sc_pitch sample_screen = 16" "sc_bpp sample_screen = 1" "sc_type sample_screen = SCREEN_INDEX" "font_width sample_screen = 8"
  "font_height sample_screen = 2" "sc_colors sample_screen = Palette 2 (PaletteAt 0x50000)" "sc_glyph sample_screen = 0x40020"
  "sc_table sample_screen = NoTable" "bytesperglyph sample_screen = 2" "font_header sample_screen = 0x40000"
  by (simp_all add: sample_screen_def)

lemma sample_screen_good: "good_screen sample_screen"
  by (simp add: good_screen_def sample_screen_fields screen_bytes_def)

lemma sample_screen_shown: "shown sample_screen sample_screen_mem"
proof -
  have z: "sample_screen_mem (0x20000 + of_nat k) = 0" "sample_screen_mem (0x10000 + of_nat k) = 0" if "k < 64" for k
  proof -
    have "unat (0x20000 + of_nat k :: addr_t) = 0x20000 + k" "unat (0x10000 + of_nat k :: addr_t) = 0x10000 + k"
      using that by (simp_all add: unat_word_ariths unat_of_nat)
    then show "sample_screen_mem (0x20000 + of_nat k) = 0" "sample_screen_mem (0x10000 + of_nat k) = 0"
      using that by (auto simp: sample_screen_mem_def word_unat_eq_iff)
  qed
  show ?thesis
    unfolding shown_def frame_bytes
    by (auto simp: sample_screen_fields pixel_off_def on_screen_def z simp del: of_nat_add of_nat_mult)
qed

lemma sample_colors:
  "trans_color2pixel sample_screen sample_screen_mem 0xFFFFFF = Some 1" "trans_color2pixel sample_screen sample_screen_mem 0 = Some 0"
  by (simp_all add: trans_color2pixel_def sample_screen_fields make_palette_def bit_part_def bit_mask_def size_mask_def bit_size_def
    upt_rec palette_color_def sample_screen_mem_def color_distance_def)

lemma load_le_zero: "(\<And>i. i < n \<Longrightarrow> m (p + of_nat i) = 0) \<Longrightarrow> load_le m p n = 0"
  by (induction n) (auto simp: load_le_Suc simp del: load_le.simps(2))

lemma sample_numglyph: "font_numglyph sample_screen_mem 0x40000 = 1"
proof -
  have "load_le sample_screen_mem 0x40011 3 = 0"
  proof (rule load_le_zero)
    fix i :: nat assume "i < 3"
    then have "i \<in> {0, 1, 2}" by auto
    then show "sample_screen_mem (0x40011 + of_nat i) = 0" by (auto simp: sample_screen_mem_def)
  qed
  then have "load_le sample_screen_mem 0x40010 (Suc 3) = 1"
    unfolding load_le.simps(2) by (simp del: load_le.simps) (simp add: sample_screen_mem_def)
  then show ?thesis by (simp add: font_numglyph_def load_u32_def)
qed

lemma sample_glyph: "glyph_index sample_video 65 = 0"
  by (simp add: glyph_index_def sample_video_fields sample_screen_fields sample_numglyph)

theorem screen_put_pixel_exact_witness:
  "\<exists>m'. screen_put_pixel sample_screen (ucast (15 :: u32)) (ucast (3 :: u32)) 0x107 sample_screen_mem = Some m' \<and>
    frame sample_screen 0x10000 m' 15 3 = 7"
  using screen_put_pixel_exact [OF sample_screen_good, where x = 15 and y = 3 and pixel = "0x107" and m = sample_screen_mem]
  by (auto simp: on_screen_def sample_screen_fields)

theorem trans_color2pixel_nearest_witness:
  "\<exists>k<2. trans_color2pixel sample_screen sample_screen_mem 0xC0C0C0 = Some (of_nat k)"
  using trans_color2pixel_nearest [where si = sample_screen and n = 2 and p = "PaletteAt 0x50000" and m = sample_screen_mem and color = "0xC0C0C0"]
  by (auto simp: sample_screen_fields)

theorem screen_input_char_shows_witness:
  "\<exists>v'. screen_input_char (of_nat 8) (of_nat 2) 0xFFFFFF 0 65 sample_video = Some v' \<and>
    frame sample_screen 0x20000 (vd_mem v') 8 2 = 1 \<and> frame sample_screen 0x20000 (vd_mem v') 9 2 = 0"
proof -
  have out: "\<forall>i < unat (font_height sample_screen) * ((unat (font_width sample_screen) + 7) div 8).
      outside sample_screen (0x40020 + of_nat i)"
    by (auto simp: sample_screen_fields outside_def screen_bytes_def less_2_cases_iff)
  obtain v' where v': "screen_input_char (of_nat 8) (of_nat 2) 0xFFFFFF 0 65 sample_video = Some v'"
    "\<forall>x' y'. on_screen sample_screen x' y' \<longrightarrow> frame sample_screen 0x20000 (vd_mem v') x' y' =
        (if 8 \<le> x' \<and> x' < 16 \<and> 2 \<le> y' \<and> y' < 4
         then color_value sample_screen (if glyph_bit sample_screen sample_screen_mem 0x40020 (y' - 2) (x' - 8) then 1 else 0)
         else frame sample_screen 0x20000 sample_screen_mem x' y')"
    using screen_input_char_shows [where v = sample_video and chr = 65 and x = 8 and y = 2 and front = "0xFFFFFF" and pf = 1 and bg = 0 and pb = 0 and glyph = "0x40020"]
      sample_screen_good sample_screen_shown sample_colors sample_glyph out
    by (auto simp: sample_video_fields sample_screen_fields UINT16_MAX_def)
  then show ?thesis
    by (auto simp: on_screen_def sample_screen_fields color_value_def glyph_bit_def sample_screen_mem_def)
qed

theorem screen_move_scrolls_witness:
  "\<exists>v'. screen_move (- of_nat 2) 0xFFFFFF sample_video = Some v' \<and>
    frame sample_screen 0x20000 (vd_mem v') 5 3 = 1 \<and>
    frame sample_screen 0x20000 (vd_mem v') 5 1 = frame sample_screen 0x20000 sample_screen_mem 5 (1 + 2)"
  using screen_move_scrolls [where v = sample_video and step = 2 and fill = "0xFFFFFF" and pixel = 1] sample_screen_good sample_screen_shown sample_colors
  by (auto simp: sample_video_fields sample_screen_fields on_screen_def color_value_def)

end
