(* ===== verification/Spinlock.thy ===== *)
theory Spinlock
  imports Prelude
begin

text \<open>
  Locks and preemption: \<open>include/arch/x86/atomic.h\<close>, \<open>src/kernel/spinlock.c\<close>, the preemption
  counter of \<open>src/kernel/proc/sched.c\<close> and the per-cpu data of \<open>src/arch/x86_64/smp.c\<close>.

  Two views of a lock: one flow of control alone, where a lock that is taken makes \<open>acquire\<close> run
  for ever (\<open>None\<close>), and any number of processors whose atomic instructions interleave.
\<close>

section \<open>Atomic operations\<close>

definition atomic_exchange :: "u32 \<Rightarrow> u32 \<Rightarrow> u32 \<times> u32" where
  "atomic_exchange x v = (x, v)"

text \<open>\<open>atomic_inc\<close> is two instructions, a load of the old value and a locked increment.\<close>

definition atomic_inc_load :: "cint \<Rightarrow> cint" where
  "atomic_inc_load x = x"

definition atomic_inc_store :: "cint \<Rightarrow> cint" where
  "atomic_inc_store x = x + 1"

definition atomic_inc :: "cint \<Rightarrow> cint \<times> cint" where
  "atomic_inc x = (atomic_inc_load x, atomic_inc_store x)"

definition atomic_dec_and_test :: "cint \<Rightarrow> bool \<times> cint" where
  "atomic_dec_and_test x = (x - 1 = 0, x - 1)"

section \<open>Spin locks, one flow of control\<close>

partial_function (option) acquire :: "u32 \<Rightarrow> u32 option" where
  [code]: "acquire lock = (if fst (atomic_exchange lock 1) \<noteq> 0 then acquire (snd (atomic_exchange lock 1)) else Some (snd (atomic_exchange lock 1)))"

definition release :: "u32 \<Rightarrow> u32" where
  "release lock = 0"

lemma acquire_taken:
  assumes "acquire lock = Some l"
  shows "lock = 0"
proof (rule acquire.raw_induct [where P = "\<lambda>x y. x = 0", OF _ assms])
  fix f x y
  assume IH: "\<And>x y. f x = Some y \<Longrightarrow> x = 0"
    and run: "(if fst (atomic_exchange x 1) \<noteq> 0 then f (snd (atomic_exchange x 1)) else Some (snd (atomic_exchange x 1))) = Some y"
  show "x = (0 :: u32)"
  proof (rule ccontr)
    assume "x \<noteq> 0"
    then have "(1 :: u32) = 0" using IH [of 1 y] run by (simp add: atomic_exchange_def)
    then show False by simp
  qed
qed

lemma acquire_eq: "acquire lock = (if lock = 0 then Some 1 else None)"
proof (cases "lock = 0")
  case True
  then show ?thesis by (subst acquire.simps) (simp add: atomic_exchange_def)
next
  case False
  then show ?thesis using acquire_taken [of lock] by (cases "acquire lock") auto
qed

section \<open>The preemption counter\<close>

record percpu =
  pc_id :: size_t
  preempt_lock :: u32
  atomic_preempt_count :: cint

definition preempt_enable :: "percpu \<Rightarrow> percpu" where
  "preempt_enable p =
     (let (zero, c) = atomic_dec_and_test (atomic_preempt_count p);
          p = p\<lparr>atomic_preempt_count := c\<rparr>
      in if zero then p\<lparr>preempt_lock := release (preempt_lock p)\<rparr> else p)"

definition preempt_disable :: "percpu \<Rightarrow> percpu option" where
  "preempt_disable p =
     (let (origin, c) = atomic_inc (atomic_preempt_count p);
          p = p\<lparr>atomic_preempt_count := c\<rparr>
      in if origin \<noteq> 0 then Some p
         else do { l \<leftarrow> acquire (preempt_lock p); Some (p\<lparr>preempt_lock := l\<rparr>) })"

text \<open>\<open>smp_percpu_init\<close> sets two fields of memory that \<open>kmalloc\<close> handed out with its old contents.\<close>

definition smp_percpu_init :: "(u8 \<Rightarrow> percpu option) \<Rightarrow> u8 \<Rightarrow> percpu \<Rightarrow> u8 \<Rightarrow> percpu option" where
  "smp_percpu_init table cpu block = table(cpu := Some (block\<lparr>pc_id := ucast cpu, atomic_preempt_count := 0\<rparr>))"

datatype preempt_op = Disable | Enable

fun preempt_run :: "preempt_op list \<Rightarrow> percpu \<Rightarrow> percpu option" where
  "preempt_run [] p = Some p"
| "preempt_run (Disable # ops) p = do { p' \<leftarrow> preempt_disable p; preempt_run ops p' }"
| "preempt_run (Enable # ops) p = preempt_run ops (preempt_enable p)"

fun depth :: "preempt_op list \<Rightarrow> nat \<Rightarrow> nat option" where
  "depth [] d = Some d"
| "depth (Disable # ops) d = depth ops (d + 1)"
| "depth (Enable # ops) d = (if d = 0 then None else depth ops (d - 1))"

definition preempt_at :: "nat \<Rightarrow> percpu \<Rightarrow> bool" where
  "preempt_at d p \<longleftrightarrow> atomic_preempt_count p = of_nat d \<and> preempt_lock p = (if d = 0 then 0 else 1)"

lemma preempt_disable_at:
  assumes "preempt_at d p" "d + 1 < 2 ^ 32"
  shows "\<exists>p'. preempt_disable p = Some p' \<and> preempt_at (d + 1) p' \<and> pc_id p' = pc_id p"
proof -
  have "(of_nat d :: cint) = 0 \<longleftrightarrow> d = 0"
    using assms(2) by (simp add: word_unat_eq_iff unat_of_nat)
  then show ?thesis
    using assms(1)
    by (auto simp: preempt_disable_def preempt_at_def atomic_inc_def atomic_inc_load_def atomic_inc_store_def acquire_eq)
qed

lemma preempt_enable_at:
  assumes "preempt_at (d + 1) p" "d + 1 < 2 ^ 32"
  shows "preempt_at d (preempt_enable p) \<and> pc_id (preempt_enable p) = pc_id p"
proof -
  have "(of_nat (d + 1) - 1 :: cint) = of_nat d" "(of_nat d :: cint) = 0 \<longleftrightarrow> d = 0"
    using assms(2) by (simp_all add: word_unat_eq_iff unat_of_nat)
  then show ?thesis
    using assms(1)
    by (auto simp: preempt_enable_def preempt_at_def atomic_dec_and_test_def release_def)
qed

lemma preempt_run_at:
  "preempt_at d p \<Longrightarrow> depth ops d = Some k \<Longrightarrow> d + length ops < 2 ^ 32 \<Longrightarrow>
     \<exists>p'. preempt_run ops p = Some p' \<and> preempt_at k p' \<and> pc_id p' = pc_id p"
proof (induction ops arbitrary: d p)
  case (Cons x ops)
  show ?case
  proof (cases x)
    case Disable
    obtain p' where p': "preempt_disable p = Some p'" "preempt_at (d + 1) p'" "pc_id p' = pc_id p"
      using preempt_disable_at [OF Cons.prems(1)] Cons.prems(3) by auto
    show ?thesis using Cons.IH [OF p'(2)] Cons.prems(2,3) p'(1,3) Disable by auto
  next
    case Enable
    then obtain e where d: "d = e + 1" using Cons.prems(2) by (cases d) auto
    have "preempt_at e (preempt_enable p) \<and> pc_id (preempt_enable p) = pc_id p"
      using preempt_enable_at Cons.prems(1,3) unfolding d by simp
    then show ?thesis using Cons.IH [of e "preempt_enable p"] Cons.prems(2,3) Enable d by auto
  qed
qed simp

section \<open>Spin locks, many processors\<close>

datatype lock_pc = Outside | Spinning | Inside

record lock_sys =
  sl_lock :: u32
  sl_pc :: "nat \<Rightarrow> lock_pc"

text \<open>A processor comes to \<open>acquire\<close>, its exchange reads and writes the lock in one step and leaves
  the loop when it read 0, and \<open>release\<close> stores 0.\<close>

inductive lock_step :: "nat \<Rightarrow> lock_sys \<Rightarrow> lock_sys \<Rightarrow> bool" for cpu where
  enter: "sl_pc s cpu = Outside \<Longrightarrow> lock_step cpu s (s\<lparr>sl_pc := (sl_pc s)(cpu := Spinning)\<rparr>)"
| take: "sl_pc s cpu = Spinning \<Longrightarrow> atomic_exchange (sl_lock s) 1 = (old, new) \<Longrightarrow> old = 0 \<Longrightarrow>
     lock_step cpu s (s\<lparr>sl_lock := new, sl_pc := (sl_pc s)(cpu := Inside)\<rparr>)"
| spin: "sl_pc s cpu = Spinning \<Longrightarrow> atomic_exchange (sl_lock s) 1 = (old, new) \<Longrightarrow> old \<noteq> 0 \<Longrightarrow>
     lock_step cpu s (s\<lparr>sl_lock := new\<rparr>)"
| leave: "sl_pc s cpu = Inside \<Longrightarrow>
     lock_step cpu s (s\<lparr>sl_lock := release (sl_lock s), sl_pc := (sl_pc s)(cpu := Outside)\<rparr>)"

inductive_cases lock_stepE: "lock_step cpu s t"

inductive lock_run :: "nat set \<Rightarrow> lock_sys \<Rightarrow> lock_sys \<Rightarrow> bool" for cpus where
  start: "lock_run cpus s s"
| step: "lock_run cpus s t \<Longrightarrow> cpu \<in> cpus \<Longrightarrow> lock_step cpu t u \<Longrightarrow> lock_run cpus s u"

definition lock_start :: lock_sys where
  "lock_start = \<lparr>sl_lock = 0, sl_pc = (\<lambda>_. Outside)\<rparr>"

definition lock_inv :: "lock_sys \<Rightarrow> bool" where
  "lock_inv s \<longleftrightarrow> (\<forall>i j. sl_pc s i = Inside \<and> sl_pc s j = Inside \<longrightarrow> i = j) \<and>
     sl_lock s = (if \<exists>i. sl_pc s i = Inside then 1 else 0)"

lemma lock_inv_step: "lock_step cpu s t \<Longrightarrow> lock_inv s \<Longrightarrow> lock_inv t"
  by (erule lock_stepE)
    (auto simp: lock_inv_def atomic_exchange_def release_def split: if_splits; metis lock_pc.distinct)+

lemma lock_inv_run: "lock_run cpus s t \<Longrightarrow> lock_inv s \<Longrightarrow> lock_inv t"
  by (induction rule: lock_run.induct) (auto intro: lock_inv_step)

lemma lock_inv_start: "lock_inv lock_start"
  by (simp add: lock_inv_def lock_start_def)

lemma lock_progress:
  assumes "lock_inv s" "sl_pc s i = Spinning"
  shows "\<exists>t. lock_run ({i} \<union> {j. sl_pc s j = Inside}) s t \<and> sl_pc t i = Inside"
proof (cases "\<exists>j. sl_pc s j = Inside")
  case True
  then obtain j where j: "sl_pc s j = Inside" by blast
  then have cpus: "{i} \<union> {j. sl_pc s j = Inside} = {i, j}" using assms(1) by (auto simp: lock_inv_def)
  let ?u = "s\<lparr>sl_lock := release (sl_lock s), sl_pc := (sl_pc s)(j := Outside)\<rparr>"
  have ij: "i \<noteq> j" using assms(2) j by auto
  have run: "lock_run {i, j} s ?u" by (rule lock_run.step [OF lock_run.start, of j]) (simp_all add: lock_step.leave j)
  have st: "lock_step i ?u (?u\<lparr>sl_lock := 1, sl_pc := (sl_pc ?u)(i := Inside)\<rparr>)"
    by (rule lock_step.take [where old = 0]) (simp_all add: atomic_exchange_def release_def ij assms(2))
  have "lock_run {i, j} s (?u\<lparr>sl_lock := 1, sl_pc := (sl_pc ?u)(i := Inside)\<rparr>)"
    by (rule lock_run.step [OF run _ st]) simp
  moreover have "sl_pc (?u\<lparr>sl_lock := 1, sl_pc := (sl_pc ?u)(i := Inside)\<rparr>) i = Inside" by simp
  ultimately show ?thesis unfolding cpus by blast
next
  case False
  then have cpus: "{i} \<union> {j. sl_pc s j = Inside} = {i}" by auto
  have "sl_lock s = 0" using False assms(1) by (simp add: lock_inv_def)
  then have "lock_step i s (s\<lparr>sl_lock := 1, sl_pc := (sl_pc s)(i := Inside)\<rparr>)"
    by (intro lock_step.take [where old = 0]) (simp_all add: atomic_exchange_def assms(2))
  then have "lock_run {i} s (s\<lparr>sl_lock := 1, sl_pc := (sl_pc s)(i := Inside)\<rparr>)"
    by (intro lock_run.step [OF lock_run.start, of i]) simp_all
  moreover have "sl_pc (s\<lparr>sl_lock := 1, sl_pc := (sl_pc s)(i := Inside)\<rparr>) i = Inside" by simp
  ultimately show ?thesis unfolding cpus by blast
qed

section \<open>Properties of locks and preemption\<close>

text \<open>C26: however the processors interleave, at most one is between acquire and release, and the lock
  word is 1 exactly while one is.\<close>

theorem spinlock_mutual_exclusion:
  assumes "lock_run cpus lock_start s"
  shows "(\<forall>i j. sl_pc s i = Inside \<and> sl_pc s j = Inside \<longrightarrow> i = j) \<and>
    (sl_lock s = 1 \<longleftrightarrow> (\<exists>i. sl_pc s i = Inside)) \<and> (sl_lock s = 0 \<or> sl_lock s = 1)"
  using lock_inv_run [OF assms lock_inv_start] by (auto simp: lock_inv_def)

lemma lock_run_two: "lock_run {0, 1} lock_start \<lparr>sl_lock = 1, sl_pc = (\<lambda>_. Outside)(0 := Inside, 1 := Spinning)\<rparr>"
proof -
  have "lock_run {0, 1} lock_start \<lparr>sl_lock = 0, sl_pc = (\<lambda>_. Outside)(0 := Spinning)\<rparr>"
    using lock_run.step [OF lock_run.start _ lock_step.enter, of 0 "{0, 1}" lock_start] by (simp add: lock_start_def)
  then have "lock_run {0, 1} lock_start \<lparr>sl_lock = 1, sl_pc = (\<lambda>_. Outside)(0 := Inside)\<rparr>"
    using lock_run.step [OF _ _ lock_step.take, of "{0, 1}" lock_start "\<lparr>sl_lock = 0, sl_pc = (\<lambda>_. Outside)(0 := Spinning)\<rparr>" 0 0 1]
    by (simp add: atomic_exchange_def)
  then show ?thesis
    using lock_run.step [OF _ _ lock_step.enter, of "{0, 1}" lock_start "\<lparr>sl_lock = 1, sl_pc = (\<lambda>_. Outside)(0 := Inside)\<rparr>" 1]
    by simp
qed

theorem spinlock_mutual_exclusion_witness:
  "(\<exists>s. lock_run {0, 1} lock_start s \<and> sl_pc s 0 = Inside \<and> sl_pc s 1 = Spinning) \<and>
   \<not> (\<exists>s. lock_run {0, 1} lock_start s \<and> sl_pc s 0 = Inside \<and> sl_pc s 1 = Inside) \<and>
   \<not> (\<exists>s. lock_run {0, 1} lock_start s \<and> sl_pc s 0 = Inside \<and> sl_lock s = 0)"
proof (intro conjI notI)
  show "\<exists>s. lock_run {0, 1} lock_start s \<and> sl_pc s 0 = Inside \<and> sl_pc s 1 = Spinning"
    using lock_run_two by (intro exI conjI) (assumption, simp_all)
  show False if "\<exists>s. lock_run {0, 1} lock_start s \<and> sl_pc s 0 = Inside \<and> sl_pc s 1 = Inside"
    using that spinlock_mutual_exclusion by (metis zero_neq_one)
  show False if "\<exists>s. lock_run {0, 1} lock_start s \<and> sl_pc s 0 = Inside \<and> sl_lock s = 0"
    using that spinlock_mutual_exclusion by (metis zero_neq_one)
qed

text \<open>C27: a processor that spins can always still get the lock, by steps of the one that holds it and
  of its own: no reachable state is a deadlock.\<close>

theorem spinlock_no_deadlock:
  assumes "lock_run cpus lock_start s" "sl_pc s i = Spinning"
  shows "\<exists>t. lock_run ({i} \<union> {j. sl_pc s j = Inside}) s t \<and> sl_pc t i = Inside"
  by (rule lock_progress [OF lock_inv_run [OF assms(1) lock_inv_start] assms(2)])

theorem spinlock_no_deadlock_witness:
  "\<exists>t. lock_run ({1} \<union> {j. ((\<lambda>_. Outside)(0 := Inside, 1 := Spinning)) j = Inside})
      \<lparr>sl_lock = 1, sl_pc = (\<lambda>_. Outside)(0 := Inside, 1 := Spinning)\<rparr> t \<and> sl_pc t 1 = Inside"
  using spinlock_no_deadlock [OF lock_run_two, of 1] by simp

text \<open>C28: on a fresh per-cpu block whose lock word is 0, preempt_disable and preempt_enable nest: any
  balanced sequence ends, the counter is the depth, and the lock is held exactly at depth above 0.\<close>

theorem preempt_nesting:
  assumes "smp_percpu_init table cpu block cpu = Some p" "preempt_lock block = 0"
    and "depth ops 0 = Some k" "length ops < 2 ^ 32"
  shows "\<exists>p'. preempt_run ops p = Some p' \<and> atomic_preempt_count p' = of_nat k \<and>
    preempt_lock p' = (if k = 0 then 0 else 1) \<and> pc_id p' = ucast cpu"
proof -
  have "preempt_at 0 p" "pc_id p = ucast cpu"
    using assms(1,2) by (auto simp: smp_percpu_init_def preempt_at_def)
  then show ?thesis using preempt_run_at [of 0 p ops k] assms(3,4) by (auto simp: preempt_at_def)
qed

theorem preempt_nesting_witness:
  "\<exists>p'. preempt_run [Disable, Disable, Enable] \<lparr>pc_id = 3, preempt_lock = 0, atomic_preempt_count = 0\<rparr> = Some p' \<and>
    atomic_preempt_count p' = 1 \<and> preempt_lock p' = 1"
  using preempt_nesting [of "\<lambda>_. None" 3 "\<lparr>pc_id = 7, preempt_lock = 0, atomic_preempt_count = 9\<rparr>"
    "\<lparr>pc_id = 3, preempt_lock = 0, atomic_preempt_count = 0\<rparr>" "[Disable, Disable, Enable]" 1]
  by (auto simp: smp_percpu_init_def)

text \<open>preempt_disable never returns when the block from kmalloc held a lock word other than 0, and
  when it interrupts preempt_enable between its decrement and its release.\<close>

theorem preempt_disable_hangs:
  assumes "smp_percpu_init table cpu block cpu = Some p" "preempt_lock block \<noteq> 0"
    and "preempt_at 1 q" "atomic_dec_and_test (atomic_preempt_count q) = (zero, c)"
  shows "preempt_run (Disable # ops) p = None \<and> zero \<and> preempt_disable (q\<lparr>atomic_preempt_count := c\<rparr>) = None"
proof -
  have "preempt_disable p = None"
    using assms(1,2) by (auto simp: smp_percpu_init_def preempt_disable_def atomic_inc_def atomic_inc_load_def acquire_eq)
  then have "preempt_run (Disable # ops) p = None" by simp
  moreover have "zero \<and> preempt_disable (q\<lparr>atomic_preempt_count := c\<rparr>) = None"
    using assms(3,4)
    by (auto simp: preempt_at_def atomic_dec_and_test_def preempt_disable_def atomic_inc_def atomic_inc_load_def acquire_eq)
  ultimately show ?thesis by blast
qed

theorem preempt_disable_hangs_witness:
  "preempt_run [Disable] \<lparr>pc_id = 3, preempt_lock = 5, atomic_preempt_count = 0\<rparr> = None \<and>
    preempt_disable \<lparr>pc_id = 0, preempt_lock = 1, atomic_preempt_count = 0\<rparr> = None"
  using preempt_disable_hangs [of "\<lambda>_. None" 3 "\<lparr>pc_id = 7, preempt_lock = 5, atomic_preempt_count = 9\<rparr>"
    "\<lparr>pc_id = 3, preempt_lock = 5, atomic_preempt_count = 0\<rparr>" "\<lparr>pc_id = 0, preempt_lock = 1, atomic_preempt_count = 1\<rparr>" True 0 "[]"]
  by (auto simp: smp_percpu_init_def preempt_at_def atomic_dec_and_test_def)

end
