(* ===== verification/Serial.thy ===== *)
theory Serial
  imports Prelude
begin

text \<open>
  Port I/O (\<open>include/arch/x86/cpu.h\<close>) and the serial line (\<open>src/drivers/serial.c\<close>).

  The accesses of the processor to its ports form a history, the latest first.  A device is a function
  from the history so far and the port to the value that a read finds there, so the model holds for
  every device whose answers depend on what was written to it and how often it was read.
\<close>

section \<open>Ports\<close>

datatype port_event = Out u16 u8 | In u16 u8

type_synonym port_history = "port_event list"
type_synonym device = "port_history \<Rightarrow> u16 \<Rightarrow> u8"

definition outb :: "u16 \<Rightarrow> u8 \<Rightarrow> port_history \<Rightarrow> port_history" where
  "outb port value h = Out port value # h"

definition inb :: "device \<Rightarrow> u16 \<Rightarrow> port_history \<Rightarrow> u8 \<times> port_history" where
  "inb dev port h = (dev h port, In port (dev h port) # h)"

section \<open>The serial line\<close>

definition COM1_PORT :: u16 where "COM1_PORT = 0x3F8"

definition serial_init :: "device \<Rightarrow> port_history \<Rightarrow> bool \<times> port_history" where
  "serial_init dev h =
     (let h = outb (COM1_PORT + 1) 0x00 h;
          h = outb (COM1_PORT + 3) 0x80 h;
          h = outb (COM1_PORT + 0) 0x03 h;
          h = outb (COM1_PORT + 1) 0x00 h;
          h = outb (COM1_PORT + 3) 0x02 h;
          h = outb (COM1_PORT + 2) 0xC7 h;
          h = outb (COM1_PORT + 4) 0x0B h;
          (v, h) = inb dev (COM1_PORT + 5) h
      in (v \<noteq> 0xFF, h))"

definition serial_transmit_empty :: "device \<Rightarrow> u16 \<Rightarrow> port_history \<Rightarrow> u8 \<times> port_history" where
  "serial_transmit_empty dev port h = (let (v, h) = inb dev (port + 5) h in (v AND 0x20, h))"

partial_function (option) serial_wait :: "device \<Rightarrow> u16 \<Rightarrow> port_history \<Rightarrow> port_history option" where
  [code]: "serial_wait dev port h =
     (if fst (serial_transmit_empty dev port h) = 0 then serial_wait dev port (snd (serial_transmit_empty dev port h))
      else Some (snd (serial_transmit_empty dev port h)))"

definition serial_write_com :: "device \<Rightarrow> cint \<Rightarrow> u8 \<Rightarrow> port_history \<Rightarrow> port_history option" where
  "serial_write_com dev com data h =
     (if com = 1 then map_option (outb COM1_PORT data) (serial_wait dev COM1_PORT h) else Some h)"

section \<open>What goes out on the line\<close>

primrec polls :: "device \<Rightarrow> u16 \<Rightarrow> nat \<Rightarrow> port_history \<Rightarrow> port_history" where
  "polls dev port 0 h = h"
| "polls dev port (Suc n) h = polls dev port n (snd (inb dev (port + 5) h))"

text \<open>A line that works: whatever has happened, polling the status finds the transmitter empty some time.\<close>

definition transmits :: "device \<Rightarrow> bool" where
  "transmits dev \<longleftrightarrow> (\<forall>h. \<exists>n. dev (polls dev COM1_PORT n h) (COM1_PORT + 5) AND 0x20 \<noteq> 0)"

lemma serial_wait_ends:
  "dev (polls dev port n h) (port + 5) AND 0x20 \<noteq> 0 \<Longrightarrow> \<exists>h'. serial_wait dev port h = Some h'"
proof (induction n arbitrary: h)
  case 0
  then show ?case by (subst serial_wait.simps) (simp add: serial_transmit_empty_def inb_def)
next
  case (Suc n)
  then show ?case by (subst serial_wait.simps) (auto simp: serial_transmit_empty_def inb_def split: prod.splits)
qed

text \<open>The bytes written to the data port, in order.\<close>

definition sent :: "port_history \<Rightarrow> u8 list" where
  "sent h = rev (List.map_filter (\<lambda>e. case e of Out p v \<Rightarrow> if p = COM1_PORT then Some v else None | In _ _ \<Rightarrow> None) h)"

lemma sent_simps [simp]:
  "sent (In p v # h) = sent h" "sent (Out p v # h) = (if p = COM1_PORT then sent h @ [v] else sent h)"
  by (simp_all add: sent_def List.map_filter_simps)

text \<open>A byte is only written when the last thing read was a status that shows the transmitter empty.\<close>

definition polite :: "port_history \<Rightarrow> bool" where
  "polite h \<longleftrightarrow> (\<exists>v h'. h = In (COM1_PORT + 5) v # h' \<and> v AND 0x20 \<noteq> 0)"

lemma serial_wait_result:
  assumes "serial_wait dev COM1_PORT h = Some h'"
  shows "sent h' = sent h \<and> polite h'"
proof (rule serial_wait.raw_induct [where P = "\<lambda>dev port h h'. port = COM1_PORT \<longrightarrow> sent h' = sent h \<and> polite h'", THEN mp, OF _ assms refl])
  fix f dev port h h'
  assume IH: "\<And>dev port h h'. f dev port h = Some h' \<Longrightarrow> port = COM1_PORT \<longrightarrow> sent h' = sent h \<and> polite h'"
    and run: "(if fst (serial_transmit_empty dev port h) = 0 then f dev port (snd (serial_transmit_empty dev port h))
        else Some (snd (serial_transmit_empty dev port h))) = Some h'"
  have h: "snd (serial_transmit_empty dev port h) = In (port + 5) (dev h (port + 5)) # h"
      "fst (serial_transmit_empty dev port h) = dev h (port + 5) AND 0x20"
    by (simp_all add: serial_transmit_empty_def inb_def)
  show "port = COM1_PORT \<longrightarrow> sent h' = sent h \<and> polite h'"
    using IH [of dev port "snd (serial_transmit_empty dev port h)" h'] run
    unfolding h by (auto simp: polite_def split: if_splits)
qed

lemma serial_write_sends:
  assumes "transmits dev"
  shows "\<exists>h'. serial_write_com dev 1 data h = Some (Out COM1_PORT data # h') \<and> sent h' = sent h \<and> polite h'"
proof -
  obtain n where "dev (polls dev COM1_PORT n h) (COM1_PORT + 5) AND 0x20 \<noteq> 0"
    using assms by (auto simp: transmits_def)
  then obtain h' where h': "serial_wait dev COM1_PORT h = Some h'" using serial_wait_ends by blast
  then show ?thesis using serial_wait_result [OF h'] by (simp add: serial_write_com_def outb_def)
qed

end
