(* ===== verification/Console.thy ===== *)
theory Console
  imports Screen Printfmt Spinlock Serial
begin

text \<open>
  The console: \<open>src/kernel/console.c\<close> with \<open>_klog\<close> and \<open>_panic\<close> of \<open>src/kernel/main.c\<close>.  Every
  character goes out on the serial line and to the cell of the screen at the cursor.

  \<open>None\<close> is a run that does not return: a lock that is already held, a serial line that never becomes
  ready, a division by a font width of 0, or a fault of the screen driver or of the formatter.
\<close>

section \<open>State\<close>

definition CON_SERIAL :: u32 where "CON_SERIAL = 1"
definition CON_SCREEN :: u32 where "CON_SCREEN = 2"
definition RGB_BLACK :: u32 where "RGB_BLACK = 0x000000"
definition RGB_WHITE :: u32 where "RGB_WHITE = 0xFFFFFF"

record console =
  con_x :: u32
  con_y :: u32
  con_xlimit :: u32
  con_ylimit :: u32
  con_xstep :: u32
  con_ystep :: u32
  console_flag :: u32
  console_lock :: u32
  klog_lock :: u32
  con_video :: video
  con_ports :: port_history

section \<open>Characters\<close>

definition kputchar :: "device \<Rightarrow> cint \<Rightarrow> console \<Rightarrow> console option" where
  "kputchar dev ch c =
     (if console_flag c AND CON_SERIAL \<noteq> 0
      then map_option (\<lambda>h. c\<lparr>con_ports := h\<rparr>) (serial_write_com dev 1 (ucast ch) (con_ports c))
      else Some c)"

text \<open>The cursor after a character, before scrolling.\<close>

definition wrap_line :: "console \<Rightarrow> console" where
  "wrap_line c = (if con_x c = con_xlimit c then c\<lparr>con_x := 0, con_y := con_y c + 1\<rparr> else c)"

definition scroll :: "console \<Rightarrow> console option" where
  "scroll c =
     (if con_y c = con_ylimit c
      then do { v \<leftarrow> screen_move (- con_ystep c) RGB_BLACK (con_video c); Some (c\<lparr>con_video := v, con_y := con_y c - 1\<rparr>) }
      else Some c)"

definition draw_char :: "cint \<Rightarrow> console \<Rightarrow> console option" where
  "draw_char ch c =
     (if ch = 10 then Some (c\<lparr>con_x := 0, con_y := con_y c + 1\<rparr>)
      else do {
        v \<leftarrow> screen_input_char (con_x c * con_xstep c) (con_y c * con_ystep c) RGB_WHITE RGB_BLACK ch (con_video c);
        Some (c\<lparr>con_video := v, con_x := con_x c + 1\<rparr>) })"

definition cputchar :: "device \<Rightarrow> cint \<Rightarrow> console \<Rightarrow> console option" where
  "cputchar dev ch c = do {
     c \<leftarrow> kputchar dev ch c;
     if console_flag c AND CON_SCREEN = 0 then Some c
     else do {
       c \<leftarrow> draw_char ch c;
       scroll (wrap_line c) } }"

definition cputch :: "device \<Rightarrow> cint \<Rightarrow> (console \<times> cint) option \<Rightarrow> (console \<times> cint) option" where
  "cputch dev ch s = do { (c, count) \<leftarrow> s; c \<leftarrow> cputchar dev ch c; Some (c, count + 1) }"

definition kputch :: "device \<Rightarrow> cint \<Rightarrow> (console \<times> cint) option \<Rightarrow> (console \<times> cint) option" where
  "kputch dev ch s = do { (c, count) \<leftarrow> s; c \<leftarrow> kputchar dev ch c; Some (c, count + 1) }"

section \<open>Formatted output\<close>

definition locked_printf ::
  "(cint \<Rightarrow> (console \<times> cint) option \<Rightarrow> (console \<times> cint) option) \<Rightarrow> string \<Rightarrow> va list \<Rightarrow> console \<Rightarrow> (console \<times> cint) option" where
  "locked_printf putch fmt ap c = do {
     l \<leftarrow> acquire (console_lock c);
     s \<leftarrow> vprintfmt putch (Some (c\<lparr>console_lock := l\<rparr>, 0)) fmt ap;
     (c, cnt) \<leftarrow> s;
     Some (c\<lparr>console_lock := release (console_lock c)\<rparr>, cnt) }"

definition vcprintf :: "device \<Rightarrow> string \<Rightarrow> va list \<Rightarrow> console \<Rightarrow> (console \<times> cint) option" where
  "vcprintf dev = locked_printf (cputch dev)"

definition cprintf :: "device \<Rightarrow> string \<Rightarrow> va list \<Rightarrow> console \<Rightarrow> (console \<times> cint) option" where
  "cprintf dev fmt args c = vcprintf dev fmt args c"

definition vkprintf :: "device \<Rightarrow> string \<Rightarrow> va list \<Rightarrow> console \<Rightarrow> (console \<times> cint) option" where
  "vkprintf dev = locked_printf (kputch dev)"

definition kprintf :: "device \<Rightarrow> string \<Rightarrow> va list \<Rightarrow> console \<Rightarrow> (console \<times> cint) option" where
  "kprintf dev fmt args c = vkprintf dev fmt args c"

section \<open>Messages of the kernel\<close>

datatype log_level = LOG_INFO | LOG_DEBUG | LOG_WARNING | LOG_ERROR

definition klog :: "device \<Rightarrow> string \<Rightarrow> cint \<Rightarrow> log_level \<Rightarrow> string \<Rightarrow> va list \<Rightarrow> console \<Rightarrow> console option" where
  "klog dev file line level fmt ap c = do {
     l \<leftarrow> acquire (klog_lock c);
     let c = c\<lparr>klog_lock := l\<rparr>;
     c \<leftarrow> (if level \<noteq> LOG_INFO then map_option fst (kprintf dev ''%s:%d:'' [VStr file, VWord (ucast line)] c) else Some c);
     (c, cnt) \<leftarrow> (if level = LOG_INFO then vcprintf dev fmt ap c else vkprintf dev fmt ap c);
     Some (c\<lparr>klog_lock := release (klog_lock c)\<rparr>) }"

text \<open>\<open>_panic\<close> up to the \<open>halt\<close> at its end; interrupts are off by then.\<close>

definition panic :: "device \<Rightarrow> string \<Rightarrow> cint \<Rightarrow> string \<Rightarrow> va list \<Rightarrow> console \<Rightarrow> console option" where
  "panic dev file line fmt ap c = do {
     l \<leftarrow> acquire (klog_lock c);
     (c, cnt) \<leftarrow> cprintf dev ''%s:%d:'' [VStr file, VWord (ucast line)] (c\<lparr>klog_lock := l\<rparr>);
     (c, cnt) \<leftarrow> vcprintf dev fmt ap c;
     Some c }"

text \<open>The frames of the call stack, as \<open>traceback\<close> prints them.  Its counter is never incremented, so only a
  null frame pointer ends the loop.\<close>

partial_function (option) traceback_loop :: "device \<Rightarrow> addr_t \<Rightarrow> console \<Rightarrow> console option" where
  "traceback_loop dev sp c =
     (if sp \<noteq> 0
      then Option.bind (cprintf dev (CHR 0x09 # ''->%lx'' @ [CHR 0x0A]) [VWord (load_u64 (vd_mem (con_video c)) (sp + 8))] c)
             (\<lambda>r. traceback_loop dev (load_u64 (vd_mem (con_video (fst r))) sp) (fst r))
      else Some c)"

definition traceback :: "device \<Rightarrow> addr_t \<Rightarrow> console \<Rightarrow> console option" where
  "traceback dev sp c = do { (c, cnt) \<leftarrow> cprintf dev (''traceback:'' @ [CHR 0x0A]) [] c; traceback_loop dev sp c }"

section \<open>Start-up\<close>

definition console_screen :: "console \<Rightarrow> console option" where
  "console_screen c =
     (let si = vd_info (con_video c) in
      if font_width si = 0 \<or> font_height si = 0 then None
      else Some (c\<lparr>console_flag := console_flag c OR CON_SCREEN,
             con_xlimit := sc_width si div ucast (font_width si), con_ylimit := sc_height si div ucast (font_height si),
             con_xstep := ucast (font_width si), con_ystep := ucast (font_height si)\<rparr>))"

definition console_init :: "device \<Rightarrow> bool \<Rightarrow> addr_t \<Rightarrow> console \<Rightarrow> console option" where
  "console_init dev page_1gb kernel_pgd c =
     (let (ok, h) = serial_init dev (con_ports c);
          c = c\<lparr>con_x := 0, con_y := 0, con_ports := h, console_flag := console_flag c OR (if ok then CON_SERIAL else 0)\<rparr>
      in do {
        (v, r) \<leftarrow> screen_init page_1gb kernel_pgd (con_video c);
        let c = c\<lparr>con_video := v\<rparr>;
        if r = 0 then Some c
        else do {
          c \<leftarrow> console_screen c;
          klog dev ''kernel/console.c'' 63 LOG_INFO (''screen: %dx%d, fb=0x%lx console:%dx%d'' @ [CHR 0x0A])
            [VWord (ucast (sc_width (vd_info v))), VWord (ucast (sc_height (vd_info v))), VWord (sc_base (vd_info v)),
             VWord (ucast (con_xlimit c)), VWord (ucast (con_ylimit c))] c } })"

section \<open>Output is a fold over the text\<close>

lemma locked_printf_fold:
  "locked_printf putch fmt ap c =
    (if console_lock c = 0
     then do { cs \<leftarrow> vprintf_text fmt ap;
               (c, cnt) \<leftarrow> fold putch cs (Some (c\<lparr>console_lock := 1\<rparr>, 0));
               Some (c\<lparr>console_lock := 0\<rparr>, cnt) }
     else None)"
  by (cases "vprintf_text fmt ap") (auto simp: locked_printf_def acquire_eq vprintfmt_text release_def)

lemma fold_putch_none: "(\<And>ch. putch ch None = None) \<Longrightarrow> fold putch cs None = None"
  by (induction cs) auto

text \<open>A character handler that keeps a property and always returns keeps it over a whole text.\<close>

lemma fold_putch_keeps:
  assumes step: "\<And>ch c n xs. P xs c \<Longrightarrow> \<exists>c'. putch ch (Some (c, n)) = Some (c', n + 1) \<and> P (xs @ [ch]) c'"
    and "P xs c"
  shows "\<exists>c'. fold putch cs (Some (c, n)) = Some (c', n + of_nat (length cs)) \<and> P (xs @ cs) c'"
  using assms(2)
proof (induction cs arbitrary: c n xs)
  case (Cons ch cs)
  obtain c1 where c1: "putch ch (Some (c, n)) = Some (c1, n + 1)" "P (xs @ [ch]) c1" using step [OF Cons.prems] by blast
  from Cons.IH [OF c1(2), of "n + 1"] show ?case using c1(1) by (simp add: add.assoc)
qed simp

section \<open>A screen that shows text\<close>

text \<open>Addresses that no operation of the screen writes.\<close>

definition untouched :: "screen_info \<Rightarrow> addr_t \<Rightarrow> bool" where
  "untouched si a \<longleftrightarrow> screen_bytes si + 8 \<le> unat (a - sc_buffer si) \<and> \<not> in_frame_buffer si a"

definition font_ok :: "video \<Rightarrow> bool" where
  "font_ok v \<longleftrightarrow>
     (let si = vd_info v; n = unat (font_numglyph (vd_mem v) (font_header si)); g = unat (bytesperglyph si)
      in 0 < unat (font_width si) \<and> unat (font_width si) \<le> 31 \<and> 0 < unat (font_height si) \<and> 1 \<le> n \<and> n * g < 2 ^ 32 \<and>
         unat (font_height si) * ((unat (font_width si) + 7) div 8) \<le> g \<and>
         (\<forall>i < n * g. untouched si (sc_glyph si + of_nat i)) \<and> (\<forall>i < 4. untouched si (font_header si + 16 + of_nat i)))"

definition colors_ok :: "screen_info \<Rightarrow> bool" where
  "colors_ok si \<longleftrightarrow>
     (case sc_colors si of
        Fields r g b \<Rightarrow> sc_type si = SCREEN_RGB \<and> (\<forall>f \<in> {r, g, b}. cb_pos f < 32 \<and> cb_size f < 32)
      | Palette n p \<Rightarrow> sc_type si = SCREEN_INDEX \<and>
          (case p of VgaPalette \<Rightarrow> True | PaletteAt a \<Rightarrow> (\<forall>i < unat n. \<forall>j < 3. untouched si (a + 3 * of_nat i + of_nat j))))"

definition video_ok :: "video \<Rightarrow> bool" where
  "video_ok v \<longleftrightarrow> good_screen (vd_info v) \<and> shown (vd_info v) (vd_mem v) \<and> buffer_dirty v = 0 \<and> sc_base (vd_info v) \<noteq> 0 \<and>
     font_ok v \<and> colors_ok (vd_info v)"

definition same_video :: "video \<Rightarrow> video \<Rightarrow> bool" where
  "same_video v v' \<longleftrightarrow> vd_info v' = vd_info v \<and> unicode_table v' = unicode_table v \<and>
     (\<forall>a. untouched (vd_info v) a \<longrightarrow> vd_mem v' a = vd_mem v a)"

lemma untouched_outside: "untouched si a \<Longrightarrow> outside si a \<and> \<not> in_frame_buffer si a"
  by (simp add: untouched_def outside_def)

lemma numglyph_same: "font_ok v \<Longrightarrow> same_video v v' \<Longrightarrow> font_numglyph (vd_mem v') (font_header (vd_info v)) = font_numglyph (vd_mem v) (font_header (vd_info v))"
  unfolding font_numglyph_def load_u32_def by (subst load_le_cong2 [of 4]) (auto simp: font_ok_def same_video_def Let_def)

lemma font_ok_same: "font_ok v \<Longrightarrow> same_video v v' \<Longrightarrow> font_ok v'"
  using numglyph_same [of v v'] by (simp add: font_ok_def same_video_def Let_def)

lemma colors_untouched_same:
  "colors_ok si \<Longrightarrow> (\<And>a. untouched si a \<Longrightarrow> m' a = m a) \<Longrightarrow> trans_color2pixel si m' color = trans_color2pixel si m color"
proof (cases "sc_colors si")
  case (Palette n p)
  assume ok: "colors_ok si" and m: "\<And>a. untouched si a \<Longrightarrow> m' a = m a"
  have "map (palette_color m' p) [0..<unat n] = map (palette_color m p) [0..<unat n]"
  proof (rule map_cong [OF refl])
    fix i assume "i \<in> set [0..<unat n]"
    then have i: "i < unat n" by simp
    show "palette_color m' p i = palette_color m p i"
    proof (cases p)
      case (PaletteAt a)
      then have "untouched si (a + 3 * of_nat i + of_nat j)" if "j < 3" for j
        using ok Palette i that by (simp add: colors_ok_def)
      from this [of 0] this [of 1] this [of 2] show ?thesis using m by (simp add: palette_color_def PaletteAt)
    qed (simp add: palette_color_def)
  qed
  then show ?thesis by (simp only: trans_color2pixel_def Palette Let_def screen_colors.case)
qed (simp add: trans_color2pixel_def Let_def)

lemma colors_defined: "colors_ok si \<Longrightarrow> \<exists>p. trans_color2pixel si m color = Some p"
  by (auto simp: colors_ok_def trans_color2pixel_def Let_def color_field_def split: screen_colors.splits)

definition ink :: "video \<Rightarrow> u32 \<Rightarrow> u32" where
  "ink v color = (case trans_color2pixel (vd_info v) (vd_mem v) color of Some p \<Rightarrow> p | None \<Rightarrow> 0)"

lemma ink_defined: "video_ok v \<Longrightarrow> trans_color2pixel (vd_info v) (vd_mem v) color = Some (ink v color)"
  using colors_defined [of "vd_info v" "vd_mem v" color] by (auto simp: video_ok_def ink_def)

lemma ink_same: "video_ok v \<Longrightarrow> same_video v v' \<Longrightarrow> ink v' color = ink v color"
  using colors_untouched_same [of "vd_info v" "vd_mem v'" "vd_mem v" color] by (simp add: ink_def video_ok_def same_video_def)

text \<open>The glyph of a character, and the cell of the screen that shows it.\<close>

definition char_glyph :: "video \<Rightarrow> u32 \<Rightarrow> addr_t" where
  "char_glyph v ch = sc_glyph (vd_info v) + ucast (glyph_index v ch * bytesperglyph (vd_info v))"

definition cell_shows :: "video \<Rightarrow> nat \<Rightarrow> nat \<Rightarrow> u32 \<Rightarrow> bool" where
  "cell_shows v col row ch \<longleftrightarrow>
     (let si = vd_info v; w = unat (font_width si); h = unat (font_height si)
      in \<forall>dx < w. \<forall>dy < h. frame si (sc_base si) (vd_mem v) (col * w + dx) (row * h + dy) =
           color_value si (if glyph_bit si (vd_mem v) (char_glyph v ch) dy dx then ink v RGB_WHITE else ink v RGB_BLACK))"

lemma glyph_index_less: "font_ok v \<Longrightarrow> glyph_index v ch < font_numglyph (vd_mem v) (font_header (vd_info v))"
  by (auto simp: glyph_index_def Let_def font_ok_def word_less_nat_alt not_le)

lemma char_glyph_bytes:
  assumes "font_ok v" "i < unat (font_height (vd_info v)) * ((unat (font_width (vd_info v)) + 7) div 8)"
  shows "untouched (vd_info v) (char_glyph v ch + of_nat i)"
proof -
  let ?si = "vd_info v" and ?n = "unat (font_numglyph (vd_mem v) (font_header (vd_info v)))" and ?g = "unat (bytesperglyph (vd_info v))"
  let ?k = "unat (glyph_index v ch)"
  have k: "?k < ?n" using glyph_index_less [OF assms(1), of ch] by (simp add: word_less_nat_alt)
  have b: "?k * ?g + i < ?n * ?g"
    using cell_bound [OF k, of i 1 ?g] assms by (simp add: font_ok_def Let_def)
  have ng: "?n * ?g < 2 ^ 32" using assms(1) by (simp add: font_ok_def Let_def)
  have "glyph_index v ch * bytesperglyph ?si = (of_nat (?k * ?g) :: u32)" by simp
  then have "ucast (glyph_index v ch * bytesperglyph ?si) = (of_nat (?k * ?g) :: addr_t)"
    using b ng ucast_of_nat32 [of "?k * ?g"] by (simp del: of_nat_mult)
  then have "char_glyph v ch + of_nat i = sc_glyph ?si + of_nat (?k * ?g + i)"
    by (simp only: char_glyph_def of_nat_add add.assoc)
  moreover have "untouched ?si (sc_glyph ?si + of_nat j)" if "j < ?n * ?g" for j
    using assms(1) that by (simp add: font_ok_def Let_def)
  ultimately show ?thesis using b by metis
qed

lemma char_glyph_same: "font_ok v \<Longrightarrow> same_video v v' \<Longrightarrow> char_glyph v' ch = char_glyph v ch"
  using numglyph_same [of v v'] by (simp add: char_glyph_def glyph_index_def same_video_def)

lemma glyph_bit_same:
  assumes "font_ok v" "same_video v v'" "dx < unat (font_width (vd_info v))" "dy < unat (font_height (vd_info v))"
  shows "glyph_bit (vd_info v) (vd_mem v') (char_glyph v ch) dy dx = glyph_bit (vd_info v) (vd_mem v) (char_glyph v ch) dy dx"
proof -
  let ?nb = "(unat (font_width (vd_info v)) + 7) div 8"
  have "dx div 8 + 1 \<le> ?nb" using byte_in_row [OF assms(3)] by simp
  from cell_bound [OF assms(4) this] have "dy * ?nb + dx div 8 < unat (font_height (vd_info v)) * ?nb" by simp
  from char_glyph_bytes [OF assms(1) this] show ?thesis
    using assms(2) by (simp add: glyph_bit_def same_video_def)
qed


section \<open>Drawing a cell and scrolling keep the screen in order\<close>

lemma cell_shows_same:
  assumes ok: "video_ok v" and s: "same_video v v'" and sh: "cell_shows v col row ch"
    and frame: "\<And>dx dy. dx < unat (font_width (vd_info v)) \<Longrightarrow> dy < unat (font_height (vd_info v)) \<Longrightarrow>
      frame (vd_info v) (sc_base (vd_info v)) (vd_mem v') (col' * unat (font_width (vd_info v)) + dx) (row' * unat (font_height (vd_info v)) + dy) =
      frame (vd_info v) (sc_base (vd_info v)) (vd_mem v) (col * unat (font_width (vd_info v)) + dx) (row * unat (font_height (vd_info v)) + dy)"
  shows "cell_shows v' col' row' ch"
proof -
  have f: "font_ok v" using ok by (simp add: video_ok_def)
  have i: "vd_info v' = vd_info v" using s by (simp add: same_video_def)
  show ?thesis
    unfolding cell_shows_def Let_def i ink_same [OF ok s] char_glyph_same [OF f s]
    using sh frame glyph_bit_same [OF f s] by (simp add: cell_shows_def Let_def)
qed

lemma video_ok_step:
  assumes "video_ok v" "shown (vd_info v) (vd_mem v')" "vd_info v' = vd_info v" "buffer_dirty v' = 0"
    and "unicode_table v' = unicode_table v" "\<And>a. untouched (vd_info v) a \<Longrightarrow> vd_mem v' a = vd_mem v a"
  shows "video_ok v' \<and> same_video v v'"
proof -
  have s: "same_video v v'" using assms by (simp add: same_video_def)
  then show ?thesis using assms font_ok_same [OF _ s] by (simp add: video_ok_def)
qed

lemma cells_apart:
  fixes w :: nat
  assumes "a * w + d = b * w + e" "d < w" "e < w"
  shows "a = b"
  using arg_cong [OF assms(1), of "\<lambda>x. x div w"] assms(2,3) by simp

lemma draw_cell:
  assumes ok: "video_ok v" and ch: "ch < UINT16_MAX"
    and col: "col * unat (font_width (vd_info v)) + unat (font_width (vd_info v)) \<le> unat (sc_width (vd_info v))"
    and row: "row * unat (font_height (vd_info v)) + unat (font_height (vd_info v)) \<le> unat (sc_height (vd_info v))"
  shows "\<exists>v'. screen_input_char (of_nat (col * unat (font_width (vd_info v)))) (of_nat (row * unat (font_height (vd_info v))))
      RGB_WHITE RGB_BLACK ch v = Some v' \<and> video_ok v' \<and> same_video v v' \<and> cell_shows v' col row ch \<and>
    (\<forall>col' row' ch'. (col', row') \<noteq> (col, row) \<and> cell_shows v col' row' ch' \<and>
       col' * unat (font_width (vd_info v)) + unat (font_width (vd_info v)) \<le> unat (sc_width (vd_info v)) \<and>
       row' * unat (font_height (vd_info v)) + unat (font_height (vd_info v)) \<le> unat (sc_height (vd_info v)) \<longrightarrow> cell_shows v' col' row' ch')"
proof -
  let ?si = "vd_info v" and ?w = "unat (font_width (vd_info v))" and ?h = "unat (font_height (vd_info v))"
  have f: "font_ok v" using ok by (simp add: video_ok_def)
  have fw: "0 < ?w" "?w \<le> 31" "0 < ?h" using f by (simp_all add: font_ok_def Let_def)
  have vga: "sc_type ?si \<noteq> SCREEN_VGA" using ok by (auto simp: video_ok_def colors_ok_def split: screen_colors.splits)
  have out: "\<forall>i < ?h * ((?w + 7) div 8). outside ?si (char_glyph v ch + of_nat i)"
    using char_glyph_bytes [OF f] untouched_outside by blast
  have hyp: "good_screen ?si" "shown ?si (vd_mem v)" "buffer_dirty v = 0" "sc_base ?si \<noteq> 0"
    using ok by (simp_all add: video_ok_def)
  obtain v' where v': "screen_input_char (of_nat (col * ?w)) (of_nat (row * ?h)) RGB_WHITE RGB_BLACK ch v = Some v'"
      "shown ?si (vd_mem v')" "vd_info v' = ?si" "buffer_dirty v' = 0" "unicode_table v' = unicode_table v"
      and pic: "\<And>x' y'. on_screen ?si x' y' \<Longrightarrow> frame ?si (sc_base ?si) (vd_mem v') x' y' =
        (if col * ?w \<le> x' \<and> x' < col * ?w + ?w \<and> row * ?h \<le> y' \<and> y' < row * ?h + ?h
         then color_value ?si (if glyph_bit ?si (vd_mem v) (char_glyph v ch) (y' - row * ?h) (x' - col * ?w) then ink v RGB_WHITE else ink v RGB_BLACK)
         else frame ?si (sc_base ?si) (vd_mem v) x' y')"
      and rest: "\<And>a. outside ?si a \<and> \<not> in_frame_buffer ?si a \<Longrightarrow> vd_mem v' a = vd_mem v a"
    using input_char_ok [OF hyp(1-3) vga hyp(4) ch fw col row ink_defined [OF ok] ink_defined [OF ok] char_glyph_def out] by blast
  have st: "video_ok v' \<and> same_video v v'"
    by (rule video_ok_step [OF ok v'(2-5)]) (use rest untouched_outside in blast)
  then have s: "same_video v v'" by simp
  have inside: "on_screen ?si (c * ?w + dx) (r * ?h + dy)"
    if "c * ?w + ?w \<le> unat (sc_width ?si)" "r * ?h + ?h \<le> unat (sc_height ?si)" "dx < ?w" "dy < ?h" for c r dx dy
    using that by (simp add: on_screen_def)
  have "cell_shows v' col row ch"
    unfolding cell_shows_def Let_def v'(3) ink_same [OF ok s] char_glyph_same [OF f s]
    using pic [OF inside [OF col row]] glyph_bit_same [OF f s] by simp
  moreover have "cell_shows v' col' row' ch'"
    if ne: "(col', row') \<noteq> (col, row)" and sh: "cell_shows v col' row' ch'"
      and c': "col' * ?w + ?w \<le> unat (sc_width ?si)" and r': "row' * ?h + ?h \<le> unat (sc_height ?si)" for col' row' ch'
  proof (rule cell_shows_same [OF ok s sh])
    fix dx dy assume d: "dx < ?w" "dy < ?h"
    have "(col * ?w \<le> col' * ?w + dx \<and> col' * ?w + dx < col * ?w + ?w \<and> row * ?h \<le> row' * ?h + dy \<and> row' * ?h + dy < row * ?h + ?h) = False"
    proof (intro iffI)
      assume a: "col * ?w \<le> col' * ?w + dx \<and> col' * ?w + dx < col * ?w + ?w \<and> row * ?h \<le> row' * ?h + dy \<and> row' * ?h + dy < row * ?h + ?h"
      then have "col' * ?w + dx = col * ?w + (col' * ?w + dx - col * ?w)" "row' * ?h + dy = row * ?h + (row' * ?h + dy - row * ?h)" by linarith+
      then have "col' = col" "row' = row"
        using cells_apart [of col' ?w dx col "col' * ?w + dx - col * ?w"] cells_apart [of row' ?h dy row "row' * ?h + dy - row * ?h"] a d by linarith+
      then show False using ne by simp
    next
      assume False then show "col * ?w \<le> col' * ?w + dx \<and> col' * ?w + dx < col * ?w + ?w \<and> row * ?h \<le> row' * ?h + dy \<and> row' * ?h + dy < row * ?h + ?h" ..
    qed
    then show "frame ?si (sc_base ?si) (vd_mem v') (col' * ?w + dx) (row' * ?h + dy) = frame ?si (sc_base ?si) (vd_mem v) (col' * ?w + dx) (row' * ?h + dy)"
      using pic [OF inside [OF c' r' d]] by (simp only: if_False)
  qed
  ultimately show ?thesis using v'(1) st by blast
qed

lemma scroll_cells:
  assumes ok: "video_ok v" and lines: "0 < rows" "rows * unat (font_height (vd_info v)) \<le> unat (sc_height (vd_info v))"
  shows "\<exists>v'. screen_move (- of_nat (unat (font_height (vd_info v)))) RGB_BLACK v = Some v' \<and> video_ok v' \<and> same_video v v' \<and>
    (\<forall>col row ch. cell_shows v col (Suc row) ch \<and> Suc row < rows \<and>
       col * unat (font_width (vd_info v)) + unat (font_width (vd_info v)) \<le> unat (sc_width (vd_info v)) \<longrightarrow> cell_shows v' col row ch)"
proof -
  let ?si = "vd_info v" and ?w = "unat (font_width (vd_info v))" and ?h = "unat (font_height (vd_info v))"
  have h: "0 < ?h" "?h < 2 ^ 31" "?h \<le> unat (sc_height ?si)"
  proof -
    show "0 < ?h" using ok by (simp add: video_ok_def font_ok_def Let_def)
    show "?h < 2 ^ 31" using unsigned_less [of "font_height ?si", where 'a = nat] by simp
    show "?h \<le> unat (sc_height ?si)" using lines mult_le_mono1 [of 1 rows ?h] by linarith
  qed
  have hyp: "good_screen ?si" "shown ?si (vd_mem v)" "buffer_dirty v = 0" using ok by (simp_all add: video_ok_def)
  obtain v' where v': "screen_move (- of_nat ?h) RGB_BLACK v = Some v'"
      "shown ?si (vd_mem v')" "vd_info v' = ?si" "buffer_dirty v' = 0" "unicode_table v' = unicode_table v"
      and pic: "\<And>x y. on_screen ?si x y \<Longrightarrow> frame ?si (sc_base ?si) (vd_mem v') x y =
        (if y + ?h < unat (sc_height ?si) then frame ?si (sc_base ?si) (vd_mem v) x (y + ?h) else color_value ?si (ink v RGB_BLACK))"
      and rest: "\<And>a. screen_bytes ?si + 8 \<le> unat (a - sc_buffer ?si) \<and> \<not> in_frame_buffer ?si a \<Longrightarrow> vd_mem v' a = vd_mem v a"
    using screen_move_ok [OF hyp h(1,3,2) ink_defined [OF ok]] by blast
  have st: "video_ok v' \<and> same_video v v'"
    by (rule video_ok_step [OF ok v'(2-5)]) (use rest untouched_def in blast)
  moreover have "cell_shows v' col row ch"
    if sh: "cell_shows v col (Suc row) ch" and r: "Suc row < rows" and c: "col * ?w + ?w \<le> unat (sc_width ?si)" for col row ch
  proof (rule cell_shows_same [OF ok _ sh])
    show "same_video v v'" using st by simp
    fix dx dy assume d: "dx < ?w" "dy < ?h"
    have "Suc row * ?h + ?h \<le> rows * ?h" using cell_bound [OF r, of 0 ?h ?h] by simp
    then have e: "Suc row * ?h + dy < unat (sc_height ?si)" using lines(2) d(2) by linarith
    then have "on_screen ?si (col * ?w + dx) (row * ?h + dy)" using c d by (simp add: on_screen_def)
    from pic [OF this] show "frame ?si (sc_base ?si) (vd_mem v') (col * ?w + dx) (row * ?h + dy) =
        frame ?si (sc_base ?si) (vd_mem v) (col * ?w + dx) (Suc row * ?h + dy)"
      using e by (simp add: add.assoc add.commute add.left_commute)
  qed
  ultimately show ?thesis using v'(1) by blast
qed

section \<open>The console in order\<close>

definition console_geometry :: "console \<Rightarrow> bool" where
  "console_geometry c \<longleftrightarrow>
     (let v = con_video c; si = vd_info v
      in video_ok v \<and> con_xstep c = ucast (font_width si) \<and> con_ystep c = ucast (font_height si) \<and>
         unat (con_xlimit c) * unat (font_width si) \<le> unat (sc_width si) \<and>
         unat (con_ylimit c) * unat (font_height si) \<le> unat (sc_height si) \<and>
         con_x c < con_xlimit c \<and> 0 < con_ylimit c \<and> con_y c \<le> con_ylimit c)"

definition screen_on :: "console \<Rightarrow> bool" where "screen_on c \<longleftrightarrow> console_flag c AND CON_SCREEN \<noteq> 0"
definition serial_on :: "console \<Rightarrow> bool" where "serial_on c \<longleftrightarrow> console_flag c AND CON_SERIAL \<noteq> 0"

definition console_ok :: "console \<Rightarrow> bool" where
  "console_ok c \<longleftrightarrow> (screen_on c \<longrightarrow> console_geometry c \<and> con_y c < con_ylimit c)"

section \<open>The terminal the console implements\<close>

record terminal =
  t_x :: nat
  t_y :: nat
  t_cell :: "nat \<times> nat \<Rightarrow> u32 option"

text \<open>A line feed goes to the start of the next line; any other character goes to the cell at the cursor,
  except that one above 65534 leaves the cell as it is.  \<open>None\<close> is a cell whose contents are not known.\<close>

definition term_char :: "u32 \<Rightarrow> terminal \<Rightarrow> terminal" where
  "term_char ch t =
     (if ch = 10 then t\<lparr>t_x := 0, t_y := t_y t + 1\<rparr>
      else t\<lparr>t_cell := (if ch < UINT16_MAX then (t_cell t)((t_x t, t_y t) := Some ch) else t_cell t), t_x := t_x t + 1\<rparr>)"

definition term_wrap :: "nat \<Rightarrow> terminal \<Rightarrow> terminal" where
  "term_wrap columns t = (if t_x t = columns then t\<lparr>t_x := 0, t_y := t_y t + 1\<rparr> else t)"

definition term_scroll :: "nat \<Rightarrow> terminal \<Rightarrow> terminal" where
  "term_scroll lines t =
     (if t_y t = lines
      then t\<lparr>t_y := t_y t - 1, t_cell := (\<lambda>(col, row). if row + 1 < lines then t_cell t (col, row + 1) else None)\<rparr>
      else t)"

definition term_put :: "nat \<Rightarrow> nat \<Rightarrow> u32 \<Rightarrow> terminal \<Rightarrow> terminal" where
  "term_put columns lines ch t = term_scroll lines (term_wrap columns (term_char ch t))"

definition term_rel :: "console \<Rightarrow> terminal \<Rightarrow> bool" where
  "term_rel c t \<longleftrightarrow> t_x t = unat (con_x c) \<and> t_y t = unat (con_y c) \<and>
     (\<forall>col row ch. t_cell t (col, row) = Some ch \<and> col < unat (con_xlimit c) \<and> row < unat (con_ylimit c) \<longrightarrow>
        cell_shows (con_video c) col row ch)"

lemma cell_fits:
  assumes "console_geometry c"
  shows "col < unat (con_xlimit c) \<Longrightarrow> col * unat (font_width (vd_info (con_video c))) + unat (font_width (vd_info (con_video c))) \<le> unat (sc_width (vd_info (con_video c)))"
    and "row < unat (con_ylimit c) \<Longrightarrow> row * unat (font_height (vd_info (con_video c))) + unat (font_height (vd_info (con_video c))) \<le> unat (sc_height (vd_info (con_video c)))"
  using assms row_bound [of col "unat (con_xlimit c)"] row_bound [of row "unat (con_ylimit c)"]
  by (simp_all add: console_geometry_def Let_def)

section \<open>One character\<close>

lemma kputchar_ok:
  assumes "transmits dev"
  shows "\<exists>h. kputchar dev ch c = Some (c\<lparr>con_ports := h\<rparr>) \<and>
    sent h = sent (con_ports c) @ (if serial_on c then [ucast ch] else [])"
proof (cases "serial_on c")
  case True
  then show ?thesis
    using serial_write_sends [OF assms, of "ucast ch" "con_ports c"] by (auto simp: kputchar_def serial_on_def)
next
  case False
  then show ?thesis by (intro exI [of _ "con_ports c"]) (simp add: kputchar_def serial_on_def)
qed

lemma cputchar_eq:
  "cputchar dev ch c = do { c \<leftarrow> kputchar dev ch c; if screen_on c then do { c \<leftarrow> draw_char ch c; scroll (wrap_line c) } else Some c }"
  by (cases "kputchar dev ch c") (simp_all add: cputchar_def screen_on_def)

text \<open>What stays as it is while text goes to the screen.\<close>

definition same_console :: "console \<Rightarrow> console \<Rightarrow> bool" where
  "same_console c c' \<longleftrightarrow> console_flag c' = console_flag c \<and> console_lock c' = console_lock c \<and> klog_lock c' = klog_lock c \<and>
     con_ports c' = con_ports c \<and> con_xlimit c' = con_xlimit c \<and> con_ylimit c' = con_ylimit c \<and>
     con_xstep c' = con_xstep c \<and> con_ystep c' = con_ystep c \<and> same_video (con_video c) (con_video c')"

lemma same_video_refl: "same_video v v"
  by (simp add: same_video_def)

lemma same_video_trans: "same_video v v1 \<Longrightarrow> same_video v1 v2 \<Longrightarrow> same_video v v2"
  by (simp add: same_video_def)

lemma cell_pos: "of_nat (unat x * unat w) = x * ucast w" for x :: u32 and w :: u8
  by simp

lemma draw_char_ok:
  assumes g: "console_geometry c" and y: "con_y c < con_ylimit c" and t: "term_rel c t"
  shows "\<exists>c'. draw_char ch c = Some c' \<and> same_console c c' \<and> video_ok (con_video c') \<and> term_rel c' (term_char ch t) \<and>
    con_x c' \<le> con_xlimit c \<and> con_y c' = con_y c + (if ch = 10 then 1 else 0) \<and> (ch = 10 \<longrightarrow> con_x c' = 0)"
proof (cases "ch = 10")
  case True
  let ?c = "c\<lparr>con_x := 0, con_y := con_y c + 1\<rparr>"
  have "term_rel ?c (term_char ch t)"
    using t True unat_inc [OF y] by (simp add: term_rel_def term_char_def)
  then show ?thesis
    using True g by (intro exI [of _ ?c]) (simp add: draw_char_def same_console_def same_video_refl console_geometry_def Let_def)
next
  case False
  let ?v = "con_video c" and ?w = "unat (font_width (vd_info (con_video c)))" and ?h = "unat (font_height (vd_info (con_video c)))"
  have ok: "video_ok ?v" and x: "con_x c < con_xlimit c"
    and steps: "con_xstep c = ucast (font_width (vd_info ?v))" "con_ystep c = ucast (font_height (vd_info ?v))"
    using g by (simp_all add: console_geometry_def Let_def)
  have inc: "con_x c + 1 \<le> con_xlimit c" "unat (con_x c + 1) = unat (con_x c) + 1"
    using x unat_inc [OF x] by (simp_all add: word_le_nat_alt word_less_nat_alt)
  show ?thesis
  proof (cases "ch < UINT16_MAX")
    case True
    note fits = cell_fits [OF g]
    have xy: "unat (con_x c) < unat (con_xlimit c)" "unat (con_y c) < unat (con_ylimit c)"
      using x y by (simp_all add: word_less_nat_alt)
    obtain v where v: "screen_input_char (con_x c * con_xstep c) (con_y c * con_ystep c) RGB_WHITE RGB_BLACK ch ?v = Some v"
        "video_ok v" "same_video ?v v" "cell_shows v (unat (con_x c)) (unat (con_y c)) ch"
        "\<And>col row ch'. (col, row) \<noteq> (unat (con_x c), unat (con_y c)) \<Longrightarrow> cell_shows ?v col row ch' \<Longrightarrow>
           col < unat (con_xlimit c) \<Longrightarrow> row < unat (con_ylimit c) \<Longrightarrow> cell_shows v col row ch'"
      using draw_cell [OF ok True fits(1) [OF xy(1)] fits(2) [OF xy(2)]] fits unfolding cell_pos steps [symmetric] by blast
    let ?c = "c\<lparr>con_video := v, con_x := con_x c + 1\<rparr>"
    have "term_rel ?c (term_char ch t)"
      using t v(4,5) inc(2) True \<open>ch \<noteq> 10\<close> unfolding term_rel_def term_char_def by auto
    then show ?thesis
      using v(1-3) False inc(1) by (intro exI [of _ ?c]) (simp add: draw_char_def same_console_def)
  next
    case big: False
    have vga: "sc_type (vd_info ?v) \<noteq> SCREEN_VGA" using ok by (auto simp: video_ok_def colors_ok_def split: screen_colors.splits)
    have "screen_input_char (con_x c * con_xstep c) (con_y c * con_ystep c) RGB_WHITE RGB_BLACK ch ?v = Some ?v"
      using ok big vga ink_defined [OF ok] by (simp add: screen_input_char_def Let_def not_less)
    moreover have "term_rel (c\<lparr>con_x := con_x c + 1\<rparr>) (term_char ch t)"
      using t False big inc(2) by (simp add: term_rel_def term_char_def)
    ultimately show ?thesis
      using False inc(1) ok by (intro exI [of _ "c\<lparr>con_x := con_x c + 1\<rparr>"]) (simp add: draw_char_def same_console_def same_video_refl)
  qed
qed

lemma geometry_step:
  assumes "console_geometry c" "same_console c c'" "video_ok (con_video c')" "con_x c' < con_xlimit c" "con_y c' \<le> con_ylimit c"
  shows "console_geometry c'"
  using assms by (simp add: console_geometry_def Let_def same_console_def same_video_def)

lemma wrap_line_ok:
  assumes g: "console_geometry c" and s: "same_console c c1" and v: "video_ok (con_video c1)" and t: "term_rel c1 t"
    and x: "con_x c1 \<le> con_xlimit c" and y: "con_y c1 < con_ylimit c \<or> con_y c1 = con_ylimit c \<and> con_x c1 = 0"
  shows "same_console c (wrap_line c1) \<and> console_geometry (wrap_line c1) \<and> term_rel (wrap_line c1) (term_wrap (unat (con_xlimit c)) t)"
proof -
  have lim: "con_xlimit c1 = con_xlimit c" using s by (simp add: same_console_def)
  have x0: "0 < con_xlimit c" using g by (auto simp: console_geometry_def Let_def intro: le_less_trans [OF word_zero_le])
  have tx: "t_x t = unat (con_x c1)" using t by (simp add: term_rel_def)
  show ?thesis
  proof (cases "con_x c1 = con_xlimit c")
    case True
    then have y: "con_y c1 < con_ylimit c" using y x0 by auto
    let ?c = "c1\<lparr>con_x := 0, con_y := con_y c1 + 1\<rparr>"
    have w: "wrap_line c1 = ?c" using True by (simp add: wrap_line_def lim)
    have s': "same_console c ?c" using s by (simp add: same_console_def)
    have "con_y c1 + 1 \<le> con_ylimit c" using unat_inc [OF y] y by (simp add: word_le_nat_alt word_less_nat_alt)
    then have "console_geometry ?c" using geometry_step [OF g s'] v x0 by simp
    moreover have "term_rel ?c (term_wrap (unat (con_xlimit c)) t)"
      using t True tx unat_inc [OF y] by (simp add: term_rel_def term_wrap_def)
    ultimately show ?thesis using s' w by simp
  next
    case False
    then have w: "wrap_line c1 = c1" by (simp add: wrap_line_def lim)
    have "con_x c1 < con_xlimit c" "con_y c1 \<le> con_ylimit c" using False x y by auto
    then have "console_geometry c1" using geometry_step [OF g s v] by simp
    moreover have "t_x t \<noteq> unat (con_xlimit c)" using False by (simp add: tx word_unat_eq_iff)
    ultimately show ?thesis using s t w by (simp add: term_wrap_def)
  qed
qed

lemma scroll_ok:
  assumes g: "console_geometry c" and t: "term_rel c t"
  shows "\<exists>c'. scroll c = Some c' \<and> same_console c c' \<and> console_geometry c' \<and> con_y c' < con_ylimit c \<and>
    term_rel c' (term_scroll (unat (con_ylimit c)) t)"
proof (cases "con_y c = con_ylimit c")
  case True
  let ?v = "con_video c" and ?rows = "unat (con_ylimit c)"
  have ok: "video_ok ?v" and y: "0 < con_ylimit c" and h: "?rows * unat (font_height (vd_info ?v)) \<le> unat (sc_height (vd_info ?v))"
    and step: "con_ystep c = ucast (font_height (vd_info ?v))"
    using g by (simp_all add: console_geometry_def Let_def)
  have r: "0 < ?rows" using y by (simp add: word_less_nat_alt)
  have "(of_nat (unat (font_height (vd_info ?v))) :: u32) = con_ystep c" by (simp add: step)
  then obtain v where v: "screen_move (- con_ystep c) RGB_BLACK ?v = Some v" "video_ok v" "same_video ?v v"
      "\<And>col row ch. cell_shows ?v col (Suc row) ch \<Longrightarrow> Suc row < ?rows \<Longrightarrow> col < unat (con_xlimit c) \<Longrightarrow> cell_shows v col row ch"
    using scroll_cells [OF ok r h] cell_fits(1) [OF g] by auto
  let ?c = "c\<lparr>con_video := v, con_y := con_y c - 1\<rparr>"
  have s: "same_console c ?c" using v(3) by (simp add: same_console_def)
  have u: "unat (con_y c - 1) = ?rows - 1" using True y by (simp add: unat_minus_one word_gt_0)
  then have lt: "con_y c - 1 < con_ylimit c" using r by (simp add: word_less_nat_alt)
  have "console_geometry ?c"
    by (rule geometry_step [OF g s]) (use v(2) lt g in \<open>simp_all add: console_geometry_def Let_def\<close>)
  moreover have "term_rel ?c (term_scroll ?rows t)"
    using t True v(4) u by (auto simp: term_rel_def term_scroll_def split: if_splits)
  ultimately show ?thesis using True v(1) s lt by (intro exI [of _ ?c]) (simp add: scroll_def)
next
  case False
  then have y: "con_y c < con_ylimit c" using g by (auto simp: console_geometry_def Let_def)
  have "t_y t \<noteq> unat (con_ylimit c)" using False t by (simp add: term_rel_def word_unat_eq_iff)
  then show ?thesis
    using False g t y by (intro exI [of _ c]) (simp add: scroll_def term_scroll_def same_console_def same_video_refl)
qed

lemma cputchar_ok:
  assumes dev: "transmits dev" and ok: "console_ok c" and t: "screen_on c \<longrightarrow> term_rel c t"
  shows "\<exists>c'. cputchar dev ch c = Some c' \<and> console_ok c' \<and> console_lock c' = console_lock c \<and> klog_lock c' = klog_lock c \<and>
    console_flag c' = console_flag c \<and> con_xlimit c' = con_xlimit c \<and> con_ylimit c' = con_ylimit c \<and>
    (screen_on c \<longrightarrow> term_rel c' (term_put (unat (con_xlimit c)) (unat (con_ylimit c)) ch t)) \<and>
    sent (con_ports c') = sent (con_ports c) @ (if serial_on c then [ucast ch] else [])"
proof -
  obtain h where h: "kputchar dev ch c = Some (c\<lparr>con_ports := h\<rparr>)" "sent h = sent (con_ports c) @ (if serial_on c then [ucast ch] else [])"
    using kputchar_ok [OF dev] by blast
  let ?c = "c\<lparr>con_ports := h\<rparr>"
  show ?thesis
  proof (cases "screen_on c")
    case True
    have g: "console_geometry ?c" and y: "con_y ?c < con_ylimit ?c" and t': "term_rel ?c t"
      using ok t True by (simp_all add: console_ok_def console_geometry_def term_rel_def Let_def)
    obtain c1 where c1: "draw_char ch ?c = Some c1" "same_console ?c c1" "video_ok (con_video c1)" "term_rel c1 (term_char ch t)"
        "con_x c1 \<le> con_xlimit ?c" "con_y c1 = con_y ?c + (if ch = 10 then 1 else 0)" "ch = 10 \<longrightarrow> con_x c1 = 0"
      using draw_char_ok [OF g y t'] by blast
    have "con_y c1 < con_ylimit ?c \<or> con_y c1 = con_ylimit ?c \<and> con_x c1 = 0"
      using c1(6,7) y unat_inc [OF y] by (auto simp: word_less_nat_alt word_unat_eq_iff)
    note w = wrap_line_ok [OF g c1(2-5) this]
    obtain c2 where c2: "scroll (wrap_line c1) = Some c2" "same_console (wrap_line c1) c2" "console_geometry c2"
        "con_y c2 < con_ylimit (wrap_line c1)" "term_rel c2 (term_scroll (unat (con_ylimit (wrap_line c1))) (term_wrap (unat (con_xlimit ?c)) (term_char ch t)))"
      using scroll_ok w by blast
    have run: "cputchar dev ch c = Some c2" using h(1) True c1(1) c2(1) by (simp add: cputchar_eq screen_on_def)
    have s: "same_console ?c (wrap_line c1)" using w by simp
    show ?thesis
      using run c2(2-5) s h(2) by (simp add: same_console_def console_ok_def term_put_def screen_on_def)
  next
    case False
    then show ?thesis using h ok by (intro exI [of _ ?c]) (simp add: cputchar_eq screen_on_def console_ok_def)
  qed
qed

section \<open>A console on the small screen\<close>

lemma untouchedI:
  assumes "good_screen si" "screen_bytes si + 8 \<le> unat (a - sc_buffer si)" "screen_bytes si + 8 \<le> unat (a - sc_base si)"
  shows "untouched si a"
proof -
  have "a \<noteq> sc_base si + of_nat j" if j: "j < screen_bytes si + 8" for j
  proof
    assume "a = sc_base si + of_nat j"
    then have "unat (a - sc_base si) = j" using assms(1) j by (simp add: good_screen_def small_of_nat)
    then show False using assms(3) j by simp
  qed
  then show ?thesis using assms(2) by (auto simp: untouched_def in_frame_buffer_def)
qed

lemma sample_video_ok: "video_ok sample_video"
proof -
  have u: "untouched sample_screen (of_nat k)" if k: "0x40000 \<le> k" "k < 0x60000" for k
  proof (rule untouchedI [OF sample_screen_good])
    have "of_nat k - 0x10000 = (of_nat (k - 0x10000) :: addr_t)" "of_nat k - 0x20000 = (of_nat (k - 0x20000) :: addr_t)"
      using k by (simp_all add: of_nat_diff)
    then have "unat (of_nat k - 0x10000 :: addr_t) = k - 0x10000" "unat (of_nat k - 0x20000 :: addr_t) = k - 0x20000"
      using k by (simp_all only: unat_of_nat) simp_all
    then show "screen_bytes sample_screen + 8 \<le> unat (of_nat k - sc_buffer sample_screen)"
      "screen_bytes sample_screen + 8 \<le> unat (of_nat k - sc_base sample_screen)"
      using k by (simp_all add: sample_screen_fields screen_bytes_def)
  qed
  have f: "\<forall>i < 2. untouched sample_screen (0x40020 + of_nat i)" "\<forall>i < 4. untouched sample_screen (0x40010 + of_nat i)"
      "\<forall>i < 2. \<forall>j < 3. untouched sample_screen (0x50000 + 3 * of_nat i + of_nat j)"
    using u [of "0x40020 + i" for i] u [of "0x40010 + i" for i] u [of "0x50000 + 3 * i + j" for i j] by auto
  show ?thesis
    using f by (simp add: video_ok_def sample_video_fields sample_screen_fields sample_screen_good sample_screen_shown font_ok_def
      sample_numglyph colors_ok_def)
qed


definition sample_console :: console where
  "sample_console = \<lparr>con_x = 0, con_y = 0, con_xlimit = 2, con_ylimit = 2, con_xstep = 8, con_ystep = 2, console_flag = 3,
     console_lock = 0, klog_lock = 0, con_video = sample_video, con_ports = []\<rparr>"

lemma sample_console_ok: "console_ok sample_console" "screen_on sample_console" "serial_on sample_console"
  by (simp_all add: console_ok_def screen_on_def serial_on_def sample_console_def console_geometry_def Let_def sample_video_ok
    sample_video_fields sample_screen_fields CON_SCREEN_def CON_SERIAL_def)

lemma ready_line: "transmits (\<lambda>h p. 0x20)"
  by (simp add: transmits_def)

lemma text_Hi: "vprintf_text ''Hi'' [] = Some [72, 105]"
  by (simp add: vprintf_text_def vprintfmt.simps(2) text_putch_def uch_def)

text \<open>\<open>console_init\<close> with a screen in order and room for one character starts the console in order.\<close>

lemma console_screen_ok:
  assumes ok: "video_ok (con_video c)" and start: "con_x c = 0" "con_y c = 0"
    and room: "unat (font_width (vd_info (con_video c))) \<le> unat (sc_width (vd_info (con_video c)))"
      "unat (font_height (vd_info (con_video c))) \<le> unat (sc_height (vd_info (con_video c)))"
  shows "\<exists>c'. console_screen c = Some c' \<and> console_ok c' \<and> screen_on c'"
proof -
  let ?si = "vd_info (con_video c)"
  have f: "0 < unat (font_width ?si)" "0 < unat (font_height ?si)" using ok by (simp_all add: video_ok_def font_ok_def Let_def)
  then have nz: "font_width ?si \<noteq> 0" "font_height ?si \<noteq> 0" by auto
  have u: "unat (ucast (font_width ?si) :: u32) = unat (font_width ?si)" "unat (ucast (font_height ?si) :: u32) = unat (font_height ?si)"
    using unsigned_less [of "font_width ?si", where 'a = nat] unsigned_less [of "font_height ?si", where 'a = nat]
    by (simp_all add: unsigned_ucast_eq take_bit_nat_eq_self)
  have d: "unat (sc_width ?si div ucast (font_width ?si)) = unat (sc_width ?si) div unat (font_width ?si)"
      "unat (sc_height ?si div ucast (font_height ?si)) = unat (sc_height ?si) div unat (font_height ?si)"
    by (simp_all only: unat_div u)
  have pos: "0 < sc_width ?si div ucast (font_width ?si)" "0 < sc_height ?si div ucast (font_height ?si)"
    using room f by (simp_all add: word_less_nat_alt d div_greater_zero_iff)
  have "(console_flag c OR CON_SCREEN) AND CON_SCREEN \<noteq> 0"
  proof
    assume "(console_flag c OR CON_SCREEN) AND CON_SCREEN = 0"
    then have "bit ((console_flag c OR CON_SCREEN) AND CON_SCREEN) 1 = bit (0 :: u32) 1" by simp
    then show False by (simp add: bit_simps CON_SCREEN_def)
  qed
  then show ?thesis
    using ok nz pos start
    by (simp add: console_screen_def Let_def console_ok_def screen_on_def console_geometry_def d)
qed

section \<open>Properties of the console\<close>

lemma unlocked:
  "console_ok (c\<lparr>console_lock := l\<rparr>) = console_ok c" "term_rel (c\<lparr>console_lock := l\<rparr>) t = term_rel c t"
  by (simp_all add: console_ok_def screen_on_def console_geometry_def Let_def term_rel_def)

lemma vcprintf_ok:
  assumes dev: "transmits dev" and ok: "console_ok c" and lock: "console_lock c = 0" and str: "vprintf_text fmt ap = Some cs"
    and t: "screen_on c \<longrightarrow> term_rel c t"
  shows "\<exists>c'. vcprintf dev fmt ap c = Some (c', of_nat (length cs)) \<and> console_ok c' \<and> console_lock c' = 0 \<and>
    klog_lock c' = klog_lock c \<and> console_flag c' = console_flag c \<and> con_xlimit c' = con_xlimit c \<and> con_ylimit c' = con_ylimit c \<and>
    (screen_on c \<longrightarrow> term_rel c' (fold (term_put (unat (con_xlimit c)) (unat (con_ylimit c))) cs t)) \<and>
    sent (con_ports c') = sent (con_ports c) @ (if serial_on c then map ucast cs else [])"
proof -
  define P where "P xs d \<longleftrightarrow> console_ok d \<and> console_lock d = 1 \<and>
    klog_lock d = klog_lock c \<and> console_flag d = console_flag c \<and> con_xlimit d = con_xlimit c \<and> con_ylimit d = con_ylimit c \<and>
    (screen_on c \<longrightarrow> term_rel d (fold (term_put (unat (con_xlimit c)) (unat (con_ylimit c))) xs t)) \<and>
    sent (con_ports d) = sent (con_ports c) @ (if serial_on c then map ucast xs else [])" for xs d
  have start: "P [] (c\<lparr>console_lock := 1\<rparr>)"
    using ok t by (simp add: P_def unlocked)
  have step: "\<exists>d'. cputch dev ch (Some (d, n)) = Some (d', n + 1) \<and> P (xs @ [ch]) d'" if p: "P xs d" for ch d n xs
  proof -
    have "console_ok d" "screen_on d \<longrightarrow> term_rel d (fold (term_put (unat (con_xlimit c)) (unat (con_ylimit c))) xs t)"
      using p by (simp_all add: P_def screen_on_def)
    from cputchar_ok [OF dev this, of ch] show ?thesis
      using p by (auto simp: P_def cputch_def screen_on_def serial_on_def)
  qed
  obtain d where d: "fold (cputch dev) cs (Some (c\<lparr>console_lock := 1\<rparr>, 0)) = Some (d, of_nat (length cs))" "P cs d"
    using fold_putch_keeps [of P "cputch dev", OF step start, of cs 0] by auto
  have "vcprintf dev fmt ap c = Some (d\<lparr>console_lock := 0\<rparr>, of_nat (length cs))"
    using lock str d(1) by (simp add: vcprintf_def locked_printf_fold)
  then show ?thesis
    using d(2) by (intro exI [of _ "d\<lparr>console_lock := 0\<rparr>"]) (simp add: P_def unlocked)
qed

lemma term_rel_unknown: "term_rel c \<lparr>t_x = unat (con_x c), t_y = unat (con_y c), t_cell = (\<lambda>_. None)\<rparr>"
  by (simp add: term_rel_def)

text \<open>C32: The console stays well formed: with a working serial line, \<open>vcprintf\<close> of any text returns, leaves the
  cursor on the screen, every structure of the screen as it has to be, and the lock free.\<close>

theorem console_stays_well_formed:
  assumes "transmits dev" "console_ok c" "console_lock c = 0" "vprintf_text fmt ap = Some cs"
  shows "\<exists>c'. vcprintf dev fmt ap c = Some (c', of_nat (length cs)) \<and> console_ok c' \<and> console_lock c' = 0 \<and>
    (screen_on c \<longrightarrow> con_x c' < con_xlimit c \<and> con_y c' < con_ylimit c)"
proof -
  obtain c' where c': "vcprintf dev fmt ap c = Some (c', of_nat (length cs))" "console_ok c'" "console_lock c' = 0"
      "console_flag c' = console_flag c" "con_xlimit c' = con_xlimit c" "con_ylimit c' = con_ylimit c"
    using vcprintf_ok [OF assms, OF impI, OF term_rel_unknown] by blast
  moreover have "con_x c' < con_xlimit c' \<and> con_y c' < con_ylimit c'" if "screen_on c"
    using c'(2,4) that by (simp add: console_ok_def screen_on_def console_geometry_def Let_def)
  ultimately show ?thesis by auto
qed

theorem console_stays_well_formed_witness:
  "\<exists>c'. vcprintf (\<lambda>h p. 0x20) ''Hi'' [] sample_console = Some (c', 2) \<and> console_ok c' \<and> con_x c' < 2 \<and> con_y c' < 2"
  using console_stays_well_formed [OF ready_line sample_console_ok(1) _ text_Hi] sample_console_ok(2)
  by (auto simp: sample_console_def)

text \<open>C31: The console implements the terminal: after \<open>vcprintf\<close> the cursor is where the terminal has it, and
  every cell of the frame buffer shows the glyph of the character the terminal has there, with wrapping and
  scrolling; the serial line gets the same text.\<close>

theorem console_shows_terminal:
  assumes "transmits dev" "console_ok c" "console_lock c = 0" "vprintf_text fmt ap = Some cs" "screen_on c" "term_rel c t"
  shows "\<exists>c'. vcprintf dev fmt ap c = Some (c', of_nat (length cs)) \<and>
    con_xlimit c' = con_xlimit c \<and> con_ylimit c' = con_ylimit c \<and>
    term_rel c' (fold (term_put (unat (con_xlimit c)) (unat (con_ylimit c))) cs t) \<and>
    sent (con_ports c') = sent (con_ports c) @ (if serial_on c then map ucast cs else [])"
  using vcprintf_ok [OF assms(1-4) impI, OF assms(6)] assms(5) by blast

theorem console_shows_terminal_witness:
  "\<exists>c'. vcprintf (\<lambda>h p. 0x20) ''Hi'' [] sample_console = Some (c', 2) \<and> unat (con_y c') = 1 \<and>
    cell_shows (con_video c') 1 0 105 \<and> sent (con_ports c') = [72, 105]"
proof -
  let ?t = "fold (term_put 2 2) [72, 105] \<lparr>t_x = 0, t_y = 0, t_cell = (\<lambda>_. None)\<rparr>"
  have t: "t_y ?t = 1" "t_cell ?t (1, 0) = Some 105"
    by (simp_all add: term_put_def term_char_def term_wrap_def term_scroll_def UINT16_MAX_def)
  have c: "con_xlimit sample_console = 2" "con_ylimit sample_console = 2" "unat (con_x sample_console) = 0" "unat (con_y sample_console) = 0"
      "console_lock sample_console = 0" "con_ports sample_console = []" "sent [] = []"
    by (simp_all add: sample_console_def sent_def)
  obtain c' where c': "vcprintf (\<lambda>h p. 0x20) ''Hi'' [] sample_console = Some (c', 2)" "con_xlimit c' = 2" "con_ylimit c' = 2"
      "term_rel c' ?t" "sent (con_ports c') = [72, 105]"
    using console_shows_terminal [OF ready_line sample_console_ok(1) c(5) text_Hi sample_console_ok(2) term_rel_unknown]
    by (auto simp: sample_console_ok(3) c)
  then show ?thesis using t unfolding term_rel_def by auto
qed

text \<open>C36: Logging is not re-entrant: while one of the two locks is held on the same processor, by a printf that an
  interrupt handler or an error of the screen driver interrupts, no message and no panic ever comes through.\<close>

theorem logging_under_lock_hangs:
  assumes "console_lock c \<noteq> 0 \<or> klog_lock c \<noteq> 0"
  shows "klog dev file line level fmt ap c = None \<and> panic dev file line fmt ap c = None"
  using assms
  by (auto simp: klog_def panic_def cprintf_def vcprintf_def vkprintf_def kprintf_def locked_printf_fold acquire_eq Let_def)

theorem logging_under_lock_hangs_witness:
  "klog (\<lambda>h p. 0x20) ''clock.c'' 40 LOG_INFO ''x'' [] (sample_console\<lparr>console_lock := 1\<rparr>) = None"
  using logging_under_lock_hangs [of "sample_console\<lparr>console_lock := 1\<rparr>"] by simp

end
