(* ===== verification/Interrupt.thy ===== *)
theory Interrupt
  imports Routing Console
begin

text \<open>
  The interrupt core: \<open>src/kernel/interrupt.c\<close>, \<open>include/kernel/interrupt.h\<close>, \<open>src/arch/x86/interrupt.c\<close>,
  \<open>include/arch/x86/interrupt.h\<close>, and the descriptors of \<open>src/arch/x86_64/idt.c\<close> with the constants of
  \<open>include/arch/x86_64/protect.h\<close>.  What a handler does is a parameter of the dispatcher.
\<close>

section \<open>The table of handlers\<close>

datatype handler = Exception_handler | Clock_handler | Sched_handler

definition ISR_IRQ :: u8 where "ISR_IRQ = 0"
definition ISR_EXCEPTION :: u8 where "ISR_EXCEPTION = 1"
definition ISR_NOP :: u8 where "ISR_NOP = 2"

definition INT_NMI :: u8 where "INT_NMI = 2"
definition INT_DOUBLE_FAULT :: u8 where "INT_DOUBLE_FAULT = 8"
definition INT_PAGE_FAULT :: u8 where "INT_PAGE_FAULT = 14"

record isr_info =
  isr_type :: u8
  isr_handler :: "handler option"

text \<open>The registers that the entry code saves, as far as the handlers read them.\<close>

record trapframe =
  int_no :: u64
  err_code :: u64
  frame_ip :: u64
  frame_sp :: u64

section \<open>Descriptors\<close>

record idt_entry =
  base_lo :: u16
  gate_sel :: u16
  gate_ist :: u8
  gate_flags :: u8
  base_mid :: u16
  bash_hi :: u32

record idt_ptr =
  idt_limit :: u16
  idt_base :: addr_t

definition SEG_KTEXT :: u16 where "SEG_KTEXT = 1"
definition GD_SEL :: "u16 \<Rightarrow> u16" where "GD_SEL seg = push_bit 3 seg"
definition DA_386IGate :: u8 where "DA_386IGate = 0x8E"
definition IST_NONE :: u8 where "IST_NONE = 0"
definition IST_NMI :: u8 where "IST_NMI = 1"
definition IST_DOUBLE_FAULT :: u8 where "IST_DOUBLE_FAULT = 2"

record kintr =
  interrupt_handlers :: "u8 \<Rightarrow> isr_info"
  apic_init_ok :: bool
  ki_apic :: apic
  ki_pmm :: pmm
  ki_ports :: port_history
  idt_entries :: "u8 \<Rightarrow> idt_entry"
  idt_ptr :: idt_ptr
  idtr :: idt_ptr

definition idt_set_gate :: "u8 \<Rightarrow> addr_t \<Rightarrow> u8 \<Rightarrow> kintr \<Rightarrow> kintr" where
  "idt_set_gate num base fl k = k\<lparr>idt_entries := (idt_entries k)(num := (idt_entries k num)\<lparr>
     base_lo := ucast (base AND 0xFFFF),
     base_mid := ucast (drop_bit 16 base AND 0xFFFF),
     bash_hi := ucast (drop_bit 32 base AND 0xFFFFFFFF),
     gate_sel := GD_SEL SEG_KTEXT,
     gate_ist := IST_NONE,
     gate_flags := fl\<rparr>)\<rparr>"

definition idt_load :: "kintr \<Rightarrow> kintr" where "idt_load k = k\<lparr>idtr := idt_ptr k\<rparr>"

definition set_ist :: "u8 \<Rightarrow> u8 \<Rightarrow> kintr \<Rightarrow> kintr" where
  "set_ist vec i k = k\<lparr>idt_entries := (idt_entries k)(vec := (idt_entries k vec)\<lparr>gate_ist := i\<rparr>)\<rparr>"

text \<open>\<open>isr_func\<close> is the table of entry points, \<open>table\<close> the address of \<open>idt_entries\<close>.\<close>

definition idt_init :: "(u8 \<Rightarrow> addr_t) \<Rightarrow> addr_t \<Rightarrow> kintr \<Rightarrow> kintr" where
  "idt_init isr_func table k =
     (let k = k\<lparr>idt_ptr := \<lparr>idt_limit = 16 * 256 - 1, idt_base = table\<rparr>\<rparr>;
          k = fold (\<lambda>vec. idt_set_gate (of_nat vec) (isr_func (of_nat vec)) DA_386IGate) [0..<256] k
      in idt_load (set_ist INT_NMI IST_NMI (set_ist INT_DOUBLE_FAULT IST_DOUBLE_FAULT k)))"

section \<open>The legacy controllers\<close>

definition IO_PIC1 :: u16 where "IO_PIC1 = 0x20"
definition IO_PIC2 :: u16 where "IO_PIC2 = 0xA0"

definition pic_init :: "port_history \<Rightarrow> port_history" where
  "pic_init h =
     (let h = outb IO_PIC1 0x11 h;
          h = outb IO_PIC2 0x11 h;
          h = outb (IO_PIC1 + 1) 0x20 h;
          h = outb (IO_PIC2 + 1) 0x28 h;
          h = outb (IO_PIC1 + 1) 0x04 h;
          h = outb (IO_PIC2 + 1) 0x02 h;
          h = outb (IO_PIC1 + 1) 0x01 h;
          h = outb (IO_PIC2 + 1) 0x01 h;
          h = outb (IO_PIC1 + 1) 0xFF h
      in outb (IO_PIC2 + 1) 0xFF h)"

definition pic_eoi :: "u32 \<Rightarrow> port_history \<Rightarrow> port_history" where
  "pic_eoi intr_no h = outb IO_PIC1 0x20 (if intr_no \<ge> 40 then outb IO_PIC2 0x20 h else h)"

section \<open>Registering and dispatching\<close>

definition register_interrupt_handler :: "u8 \<Rightarrow> u8 \<Rightarrow> handler \<Rightarrow> kintr \<Rightarrow> kintr" where
  "register_interrupt_handler vec ty h k =
     k\<lparr>interrupt_handlers := (interrupt_handlers k)(vec := \<lparr>isr_type = ty, isr_handler = Some h\<rparr>)\<rparr>"

definition interrupt_eoi :: "mmio_device \<Rightarrow> u8 \<Rightarrow> kintr \<Rightarrow> kintr" where
  "interrupt_eoi dev vec k =
     (if apic_init_ok k then k\<lparr>ki_apic := lapic_eoi dev vec (ki_apic k)\<rparr>
      else k\<lparr>ki_ports := pic_eoi (ucast vec) (ki_ports k)\<rparr>)"

definition interrupt_enable_irq :: "mmio_device \<Rightarrow> u8 \<Rightarrow> kintr \<Rightarrow> kintr option" where
  "interrupt_enable_irq dev irq k =
     (if apic_init_ok k
      then map_option (\<lambda>a. k\<lparr>ki_apic := a\<rparr>)
        (ioapic_unmask dev (ucast (ioapic_isa_to_gsi (pm_mem (ki_pmm k)) (ki_apic k) irq)) (ki_apic k))
      else Some k)"

definition interrupt_disable_irq :: "mmio_device \<Rightarrow> u8 \<Rightarrow> kintr \<Rightarrow> kintr option" where
  "interrupt_disable_irq dev irq k =
     (if apic_init_ok k
      then map_option (\<lambda>a. k\<lparr>ki_apic := a\<rparr>)
        (ioapic_mask dev (ucast (ioapic_isa_to_gsi (pm_mem (ki_pmm k)) (ki_apic k) irq)) (ki_apic k))
      else Some k)"

text \<open>\<open>run h tf k\<close> is the call of the handler \<open>h\<close>; \<open>None\<close>: the number lies outside the table, or the handler does not return.\<close>

definition interrupt_handler ::
  "mmio_device \<Rightarrow> (handler \<Rightarrow> trapframe \<Rightarrow> kintr \<Rightarrow> kintr option) \<Rightarrow> trapframe \<Rightarrow> kintr \<Rightarrow> kintr option" where
  "interrupt_handler dev run tf k =
     (if int_no tf \<ge> 256 then None
      else let vec = ucast (int_no tf);
               info = interrupt_handlers k vec;
               k = (if isr_type info = ISR_IRQ then interrupt_eoi dev vec k else k)
           in case isr_handler info of None \<Rightarrow> Some k | Some h \<Rightarrow> run h tf k)"

section \<open>Exceptions\<close>

definition intrnames :: "string list" where
  "intrnames = [''Divide error'', ''Debug'', ''Non-Maskable Interrupt'', ''Breakpoint'', ''Overflow'', ''BOUND Range Exceeded'',
     ''Invalid Opcode'', ''Device Not Available'', ''Double Fault'', ''Coprocessor Segment Overrun'', ''Invalid TSS'',
     ''Segment Not Present'', ''Stack Fault'', ''General Protection'', ''Page Fault'', ''(unknown trap)'',
     ''x87 FPU Floating-Point Error'', ''Alignment Check'', ''Machine-Check'', ''SIMD Floating-Point Exception'']"

definition intrname :: "u32 \<Rightarrow> string" where
  "intrname intrno = (if unat intrno < length intrnames then intrnames ! unat intrno else ''(unknown trap)'')"

definition exception_format :: string where
  "exception_format = ''%s:'' @ [CHR 0x0A, CHR 0x09] @ ''ip: %p, sp: %p'' @ [CHR 0x0A, CHR 0x09] @ ''int_no: %u, err_code: %lu''"

text \<open>The console at the halt at the end of \<open>panic\<close>; \<open>None\<close> for a page fault, where the code is
  \<open>__builtin_unreachable\<close> and anything may happen.\<close>

definition exception_handler :: "device \<Rightarrow> trapframe \<Rightarrow> console \<Rightarrow> console option" where
  "exception_handler dev tf c =
     (let no = ucast (int_no tf) :: u8
      in if no = INT_PAGE_FAULT then None
         else let no = (if no = IRQ_NMI then 2 else no)
              in panic dev ''interrupt.c'' 103 exception_format
                   [VStr (intrname (ucast no)), VWord (frame_ip tf), VWord (frame_sp tf), VWord (ucast no), VWord (err_code tf AND 0xFFFFFFFF)] c)"

definition exception_init :: "kintr \<Rightarrow> kintr" where
  "exception_init k =
     register_interrupt_handler IRQ_NMI ISR_EXCEPTION Exception_handler
       (fold (\<lambda>i. register_interrupt_handler (of_nat i) ISR_EXCEPTION Exception_handler) [0..<32] k)"

section \<open>Start-up\<close>

definition interrupt_local_init :: "mmio_device \<Rightarrow> kintr \<Rightarrow> kintr option" where
  "interrupt_local_init dev k =
     (let k = idt_load k
      in if apic_init_ok k then do {
           (first, a) \<leftarrow> lapic_enable dev (pm_mem (ki_pmm k)) (ki_apic k);
           let k = k\<lparr>ki_apic := a\<rparr>;
           Some (if first then register_interrupt_handler IRQ_LINT_TIMER ISR_IRQ Sched_handler k else k) }
         else Some k)"

definition interrupt_init ::
  "mmio_device \<Rightarrow> cpu_feature \<Rightarrow> acpi \<Rightarrow> addr_t \<Rightarrow> (u8 \<Rightarrow> addr_t) \<Rightarrow> addr_t \<Rightarrow> kintr \<Rightarrow> kintr option" where
  "interrupt_init dev features c apic_string isr_func table k = do {
     let k = k\<lparr>ki_ports := pic_init (ki_ports k)\<rparr>;
     (a, s, ok) \<leftarrow> apic_init dev features c apic_string (ki_apic k) (ki_pmm k);
     let k = k\<lparr>ki_apic := a, ki_pmm := s, apic_init_ok := (if ok \<noteq> 0 then True else apic_init_ok k)\<rparr>;
     interrupt_local_init dev (exception_init (idt_init isr_func table k)) }"

section \<open>The descriptors\<close>

definition gate_address :: "idt_entry \<Rightarrow> addr_t" where
  "gate_address g = ucast (base_lo g) OR push_bit 16 (ucast (base_mid g)) OR push_bit 32 (ucast (bash_hi g))"

lemma split_address:
  "ucast (ucast (a AND 0xFFFF) :: u16) OR push_bit 16 (ucast (ucast (drop_bit 16 a AND 0xFFFF) :: u16)) OR
   push_bit 32 (ucast (ucast (drop_bit 32 a AND 0xFFFFFFFF) :: u32)) = a" for a :: addr_t
proof -
  have m: "(0xFFFF :: addr_t) = mask 16" "(0xFFFFFFFF :: addr_t) = mask 32" by (simp_all add: mask_eq_exp_minus_1)
  show ?thesis unfolding m
  proof (rule bit_word_eqI)
    fix n :: nat assume "n < LENGTH(64)"
    then consider "n < 16" | "16 \<le> n" "n < 32" | "32 \<le> n" "n < 64" by fastforce
    then show "bit (ucast (ucast (a AND mask 16) :: u16) OR push_bit 16 (ucast (ucast (drop_bit 16 a AND mask 16) :: u16)) OR
        push_bit 32 (ucast (ucast (drop_bit 32 a AND mask 32) :: u32)) :: addr_t) n = bit a n"
      by cases (auto simp: bit_simps simp del: mask_numeral)
  qed
qed

definition gate_of :: "addr_t \<Rightarrow> idt_entry" where
  "gate_of base = \<lparr>base_lo = ucast (base AND 0xFFFF), gate_sel = 8, gate_ist = 0, gate_flags = 0x8E,
     base_mid = ucast (drop_bit 16 base AND 0xFFFF), bash_hi = ucast (drop_bit 32 base AND 0xFFFFFFFF)\<rparr>"

lemma gate_address_of: "gate_address (gate_of base) = base"
  by (simp add: gate_address_def gate_of_def split_address)

lemma set_gate_eq: "idt_set_gate num base DA_386IGate k = k\<lparr>idt_entries := (idt_entries k)(num := gate_of base)\<rparr>"
  by (cases "idt_entries k num") (simp add: idt_set_gate_def gate_of_def GD_SEL_def SEG_KTEXT_def IST_NONE_def DA_386IGate_def)

text \<open>Filling the first \<open>n\<close> places of a table of 256.\<close>

lemma fill_step:
  assumes "Suc n \<le> 256"
  shows "(\<lambda>v :: u8. if unat v < n then g v else f v)(of_nat n := g (of_nat n)) = (\<lambda>v. if unat v < Suc n then g v else f v)"
proof -
  have "unat (of_nat n :: u8) = n" using assms by (simp add: unsigned_of_nat take_bit_nat_eq_self)
  then have "v = of_nat n \<longleftrightarrow> unat v = n" for v :: u8 by (auto simp: word_unat_eq_iff)
  then show ?thesis by (auto simp: fun_eq_iff less_Suc_eq)
qed

lemma set_gates:
  "n \<le> 256 \<Longrightarrow> fold (\<lambda>vec. idt_set_gate (of_nat vec) (isr_func (of_nat vec)) DA_386IGate) [0..<n] k =
    k\<lparr>idt_entries := (\<lambda>v. if unat v < n then gate_of (isr_func v) else idt_entries k v)\<rparr>"
proof (induction n)
  case (Suc n)
  then show ?case using fill_step [OF Suc.prems, of "\<lambda>v. gate_of (isr_func v)"] by (simp add: set_gate_eq)
qed simp

lemma idt_init_eq:
  "idt_init isr_func table k = k\<lparr>idt_ptr := \<lparr>idt_limit = 4095, idt_base = table\<rparr>,
     idt_entries := (\<lambda>v. (gate_of (isr_func v))\<lparr>gate_ist := if v = 8 then 2 else if v = 2 then 1 else 0\<rparr>),
     idtr := \<lparr>idt_limit = 4095, idt_base = table\<rparr>\<rparr>"
proof -
  have "unat v < 256" for v :: u8 using unsigned_less [of v, where 'a = nat] by simp
  then show ?thesis
    by (auto simp: idt_init_def Let_def set_gates set_ist_def idt_load_def INT_NMI_def INT_DOUBLE_FAULT_def IST_NMI_def
        IST_DOUBLE_FAULT_def fun_eq_iff gate_of_def)
qed

text \<open>After \<open>idt_init\<close> the descriptor table is loaded and every one of its 256 gates leads to its entry point: the
  three parts of the address give the address back, the gate is an interrupt gate of the kernel code segment, and
  only the double fault and the non-maskable interrupt switch stacks.\<close>

theorem idt_init_gates:
  "idtr (idt_init isr_func table k) = \<lparr>idt_limit = 4095, idt_base = table\<rparr> \<and>
   (\<forall>v. let g = idt_entries (idt_init isr_func table k) v
     in gate_address g = isr_func v \<and> gate_sel g = 8 \<and> gate_flags g = 0x8E \<and> (gate_ist g \<noteq> 0 \<longleftrightarrow> v = 2 \<or> v = 8))"
proof -
  have "gate_address (gate_of (isr_func v)\<lparr>gate_ist := i\<rparr>) = isr_func v" for v i
    using gate_address_of [of "isr_func v"] by (simp add: gate_address_def)
  then show ?thesis by (simp add: idt_init_eq Let_def) (simp add: gate_of_def)
qed

section \<open>Dispatching\<close>

lemma register_fold:
  "n \<le> 256 \<Longrightarrow> fold (\<lambda>i. register_interrupt_handler (of_nat i) ty h) [0..<n] k =
    k\<lparr>interrupt_handlers := (\<lambda>v. if unat v < n then \<lparr>isr_type = ty, isr_handler = Some h\<rparr> else interrupt_handlers k v)\<rparr>"
proof (induction n)
  case (Suc n)
  then show ?case
    using fill_step [OF Suc.prems, of "\<lambda>v. \<lparr>isr_type = ty, isr_handler = Some h\<rparr>"] by (simp add: register_interrupt_handler_def)
qed simp

definition no_handlers :: "u8 \<Rightarrow> isr_info" where "no_handlers v = \<lparr>isr_type = 0, isr_handler = None\<rparr>"

text \<open>The handlers after start-up; \<open>timer\<close> tells whether the timer of the local controller has one.\<close>

definition boot_handlers :: "bool \<Rightarrow> u8 \<Rightarrow> isr_info" where
  "boot_handlers timer v =
     (if v < 32 \<or> v = 251 then \<lparr>isr_type = ISR_EXCEPTION, isr_handler = Some Exception_handler\<rparr>
      else if timer \<and> v = 254 then \<lparr>isr_type = ISR_IRQ, isr_handler = Some Sched_handler\<rparr>
      else no_handlers v)"

lemma exception_init_eq:
  "interrupt_handlers k = no_handlers \<Longrightarrow> exception_init k = k\<lparr>interrupt_handlers := boot_handlers False\<rparr>"
  by (simp add: exception_init_def register_fold) (auto simp: register_interrupt_handler_def IRQ_NMI_def boot_handlers_def fun_eq_iff
      word_less_nat_alt)

lemma timer_handlers: "(boot_handlers False)(254 := \<lparr>isr_type = ISR_IRQ, isr_handler = Some Sched_handler\<rparr>) = boot_handlers True"
  by (auto simp: boot_handlers_def fun_eq_iff)

lemma interrupt_init_eq:
  assumes "interrupt_handlers k = no_handlers" "apic_init dev features c sig (ki_apic k) (ki_pmm k) = Some (a, s, ok)"
    and "ok \<noteq> 0 \<longrightarrow> lapic_enable dev (pm_mem s) a = Some (first, b)" "\<not> apic_init_ok k"
  shows "\<exists>k'. interrupt_init dev features c sig isr_func table k = Some k' \<and>
    interrupt_handlers k' = boot_handlers (ok \<noteq> 0 \<and> first) \<and> apic_init_ok k' = (ok \<noteq> 0) \<and> ki_ports k' = pic_init (ki_ports k) \<and>
    idt_entries k' = idt_entries (idt_init isr_func table k) \<and> idtr k' = idtr (idt_init isr_func table k)"
proof -
  define k1 where "k1 = idt_init isr_func table (k\<lparr>ki_ports := pic_init (ki_ports k), ki_apic := a, ki_pmm := s, apic_init_ok := (ok \<noteq> 0)\<rparr>)"
  have f: "interrupt_handlers k1 = no_handlers" "apic_init_ok k1 = (ok \<noteq> 0)" "ki_apic k1 = a" "ki_pmm k1 = s"
      "ki_ports k1 = pic_init (ki_ports k)" "idt_entries k1 = idt_entries (idt_init isr_func table k)"
      "idtr k1 = idtr (idt_init isr_func table k)" "idt_ptr k1 = idtr (idt_init isr_func table k)"
    by (simp_all add: k1_def idt_init_eq assms(1))
  have "interrupt_init dev features c sig isr_func table k = interrupt_local_init dev (exception_init k1)"
    using assms(2,4) by (simp add: interrupt_init_def k1_def Let_def)
  also have "\<dots> = interrupt_local_init dev (k1\<lparr>interrupt_handlers := boot_handlers False\<rparr>)"
    by (simp add: exception_init_eq [OF f(1)])
  also have "\<exists>k'. \<dots> = Some k' \<and> interrupt_handlers k' = boot_handlers (ok \<noteq> 0 \<and> first) \<and> apic_init_ok k' = (ok \<noteq> 0) \<and>
      ki_ports k' = pic_init (ki_ports k) \<and> idt_entries k' = idt_entries (idt_init isr_func table k) \<and>
      idtr k' = idtr (idt_init isr_func table k)"
  proof (cases "ok = 0")
    case True
    then show ?thesis by (simp add: interrupt_local_init_def idt_load_def f Let_def)
  next
    case False
    then show ?thesis using assms(3)
      by (simp add: interrupt_local_init_def idt_load_def f Let_def register_interrupt_handler_def IRQ_LINT_TIMER_def timer_handlers)
  qed
  finally show ?thesis .
qed

text \<open>C39: \<open>interrupt_init\<close> returns.  Then the descriptor table is loaded and each of its 256 gates is an interrupt
  gate of the kernel code segment whose three address parts give back the entry point of its vector, and only the
  double fault and the non-maskable interrupt switch stacks.  And every interrupt is dispatched as it should be: an
  exception goes to its handler and the controllers are left alone, the timer of the local controller goes to the
  scheduler after the end of the interrupt was signalled, and any other vector is acknowledged and ignored.\<close>

theorem interrupt_init_dispatch:
  assumes "interrupt_handlers k = no_handlers" "apic_init dev features c sig (ki_apic k) (ki_pmm k) = Some (a, s, ok)"
    and "ok \<noteq> 0 \<longrightarrow> lapic_enable dev (pm_mem s) a = Some (first, b)" "\<not> apic_init_ok k"
  shows "\<exists>k'. interrupt_init dev features c sig isr_func table k = Some k' \<and>
    idtr k' = \<lparr>idt_limit = 4095, idt_base = table\<rparr> \<and>
    (\<forall>v. let g = idt_entries k' v in gate_address g = isr_func v \<and> gate_sel g = 8 \<and> gate_flags g = 0x8E \<and>
      (gate_ist g \<noteq> 0 \<longleftrightarrow> v = 2 \<or> v = 8)) \<and>
    (\<forall>v tf run. int_no tf = ucast v \<longrightarrow> interrupt_handler dev run tf k' =
      (if v < 32 \<or> v = 251 then run Exception_handler tf k'
       else if v = 254 \<and> ok \<noteq> 0 \<and> first then run Sched_handler tf (interrupt_eoi dev v k')
       else Some (interrupt_eoi dev v k')))"
proof -
  from interrupt_init_eq [OF assms] obtain k' where k': "interrupt_init dev features c sig isr_func table k = Some k'"
    "interrupt_handlers k' = boot_handlers (ok \<noteq> 0 \<and> first)"
    "idt_entries k' = idt_entries (idt_init isr_func table k)" "idtr k' = idtr (idt_init isr_func table k)" by blast
  have v: "\<not> (ucast v :: u64) \<ge> 256" for v :: u8
    using unsigned_less [of v, where 'a = nat] by (simp add: word_le_nat_alt unsigned_ucast_eq take_bit_nat_eq_self)
  have u: "(ucast (ucast v :: u64) :: u8) = v" for v :: u8
    by (rule bit_word_eqI) (auto simp: bit_simps dest: bit_imp_le_length)
  have "interrupt_handler dev run tf k' =
      (if v < 32 \<or> v = 251 then run Exception_handler tf k'
       else if v = 254 \<and> ok \<noteq> 0 \<and> first then run Sched_handler tf (interrupt_eoi dev v k')
       else Some (interrupt_eoi dev v k'))" if "int_no tf = ucast v" for v tf run
    using v [of v] u [of v] by (simp add: interrupt_handler_def that k'(2) boot_handlers_def no_handlers_def ISR_IRQ_def ISR_EXCEPTION_def Let_def)
  then show ?thesis using k'(1) idt_init_gates [of isr_func table k] unfolding k'(3,4) [symmetric] by blast
qed

definition sample_kintr :: kintr where
  "sample_kintr = \<lparr>interrupt_handlers = no_handlers, apic_init_ok = False, ki_apic = no_apic 0 (\<lambda>_. 0) [], ki_pmm = sample_pmm,
     ki_ports = [], idt_entries = (\<lambda>_. gate_of 0), idt_ptr = \<lparr>idt_limit = 0, idt_base = 0\<rparr>, idtr = \<lparr>idt_limit = 0, idt_base = 0\<rparr>\<rparr>"

lemma sample_no_apic:
  "apic_init dev \<lparr>feature = 0, extend_feature = 0\<rparr> c sig a s = Some (a, s, 0)"
  by (simp add: apic_init_def check_cpu_feature_def)

theorem interrupt_init_dispatch_witness:
  "\<exists>k'. interrupt_init (\<lambda>_ _. 0) \<lparr>feature = 0, extend_feature = 0\<rparr> sample_acpi 0 (\<lambda>_. 0xFFFF800000101234) 0 sample_kintr = Some k' \<and>
    gate_address (idt_entries k' 14) = 0xFFFF800000101234 \<and> gate_ist (idt_entries k' 14) = 0 \<and>
    interrupt_handler (\<lambda>_ _. 0) (\<lambda>h tf k. Some (k\<lparr>ki_ports := []\<rparr>)) \<lparr>int_no = 6, err_code = 0, frame_ip = 0, frame_sp = 0\<rparr> k' =
      Some (k'\<lparr>ki_ports := []\<rparr>)"
proof -
  have h: "interrupt_handlers sample_kintr = no_handlers" "\<not> apic_init_ok sample_kintr" by (simp_all add: sample_kintr_def)
  from interrupt_init_dispatch [where first = False and b = undefined and dev = "\<lambda>_ _. 0" and c = sample_acpi and sig = 0 and
      isr_func = "\<lambda>_. 0xFFFF800000101234" and table = 0, OF h(1) sample_no_apic _ h(2)]
  obtain k' where k': "interrupt_init (\<lambda>_ _. 0) \<lparr>feature = 0, extend_feature = 0\<rparr> sample_acpi 0 (\<lambda>_. 0xFFFF800000101234) 0 sample_kintr = Some k'"
    "\<forall>v. gate_address (idt_entries k' v) = 0xFFFF800000101234 \<and> (gate_ist (idt_entries k' v) \<noteq> 0 \<longleftrightarrow> v = 2 \<or> v = 8)"
    "\<forall>v tf run. int_no tf = ucast v \<longrightarrow> interrupt_handler (\<lambda>_ _. 0) run tf k' =
      (if v < 32 \<or> v = 251 then run Exception_handler tf k'
       else if v = 254 \<and> (0 :: cint) \<noteq> 0 \<and> False then run Sched_handler tf (interrupt_eoi (\<lambda>_ _. 0) v k')
       else Some (interrupt_eoi (\<lambda>_ _. 0) v k'))" by (auto simp: Let_def)
  have "interrupt_handler (\<lambda>_ _. 0) (\<lambda>h tf k. Some (k\<lparr>ki_ports := []\<rparr>)) \<lparr>int_no = 6, err_code = 0, frame_ip = 0, frame_sp = 0\<rparr> k' =
      Some (k'\<lparr>ki_ports := []\<rparr>)"
    using k'(3) [rule_format, of "\<lparr>int_no = 6, err_code = 0, frame_ip = 0, frame_sp = 0\<rparr>" 6] by simp
  then show ?thesis using k'(1) k'(2) [rule_format, of 14] by auto
qed

text \<open>The value written last to a port.\<close>

fun last_out :: "u16 \<Rightarrow> port_history \<Rightarrow> u8 option" where
  "last_out p [] = None"
| "last_out p (Out q v # h) = (if q = p then Some v else last_out p h)"
| "last_out p (In q v # h) = last_out p h"

text \<open>On a machine without a local controller the kernel falls back to the legacy controllers, but it masks all
  their lines at start-up and \<open>interrupt_enable_irq\<close> does nothing then: no device interrupt, not even the clock,
  ever arrives.\<close>

theorem pic_lines_stay_masked:
  assumes "check_cpu_feature features (feature_number FEAT_X86_APIC) = 0" "interrupt_handlers k = no_handlers" "\<not> apic_init_ok k"
  shows "\<exists>k'. interrupt_init dev features c sig isr_func table k = Some k' \<and>
    last_out 0x21 (ki_ports k') = Some 0xFF \<and> last_out 0xA1 (ki_ports k') = Some 0xFF \<and>
    (\<forall>irq. interrupt_enable_irq dev irq k' = Some k')"
proof -
  have "apic_init dev features c sig (ki_apic k) (ki_pmm k) = Some (ki_apic k, ki_pmm k, 0)"
    using assms(1) by (simp add: apic_init_def)
  from interrupt_init_eq [where first = False and b = undefined and isr_func = isr_func and table = table, OF assms(2) this _ assms(3)] obtain k' where
    k': "interrupt_init dev features c sig isr_func table k = Some k'" "apic_init_ok k' = False" "ki_ports k' = pic_init (ki_ports k)"
    by auto
  show ?thesis
    using k' by (intro exI [of _ k']) (simp add: interrupt_enable_irq_def pic_init_def outb_def IO_PIC1_def IO_PIC2_def Let_def)
qed

theorem pic_lines_stay_masked_witness:
  "\<exists>k'. interrupt_init (\<lambda>_ _. 0) \<lparr>feature = 0, extend_feature = 0\<rparr> sample_acpi 0 (\<lambda>_. 0) 0 sample_kintr = Some k' \<and>
    last_out 0x21 (ki_ports k') = Some 0xFF \<and> interrupt_enable_irq (\<lambda>_ _. 0) 0 k' = Some k'"
proof -
  have h: "interrupt_handlers sample_kintr = no_handlers" "\<not> apic_init_ok sample_kintr"
    "check_cpu_feature \<lparr>feature = 0, extend_feature = 0\<rparr> (feature_number FEAT_X86_APIC) = 0"
    by (simp_all add: sample_kintr_def check_cpu_feature_def)
  show ?thesis using pic_lines_stay_masked [OF h(3,1,2)] by blast
qed

end
