(* ===== verification/Timer.thy ===== *)
theory Timer
  imports Interrupt
begin

text \<open>
  The start of the clock: \<open>src/arch/x86/hpet.c\<close>, the choice between the timers in \<open>src/arch/x86/clock.c\<close>
  (\<open>arch_clock_init\<close>, \<open>arch_clock_start\<close>) and \<open>clock_init\<close> of \<open>src/kernel/clock.c\<close>.  The registers of the high
  precision timer are 64 bits wide; as for the interrupt controllers, the accesses form a history and the device
  is a function of it.  The messages about failed writes are left out, not the reads they are computed from.
\<close>

section \<open>The high precision timer\<close>

datatype hpet_event = HpetWrite addr_t u64 | HpetWrite32 addr_t u32 | HpetRead addr_t

type_synonym hpet_device = "hpet_event list \<Rightarrow> addr_t \<Rightarrow> u64"

record hpet =
  hpet_base :: addr_t
  num_timers :: size_t
  hpet_cap_64 :: cint
  hpet_regs :: "hpet_event list"

definition HPET_REG_CAP :: u32 where "HPET_REG_CAP = 0x0"
definition HPET_REG_CNF :: u32 where "HPET_REG_CNF = 0x10"
definition HPET_REG_COUNTER :: u32 where "HPET_REG_COUNTER = 0xF0"
definition HPET_REG_TIMER :: "size_t \<Rightarrow> size_t" where "HPET_REG_TIMER n = n * 0x20 + 0x100"
definition HPET_TIMER_CNF_CAP :: size_t where "HPET_TIMER_CNF_CAP = 0x0"
definition HPET_TIMER_CMP :: size_t where "HPET_TIMER_CMP = 0x8"
definition HPET_CAP_64COUNTER :: u64 where "HPET_CAP_64COUNTER = 0x2000"
definition HPET_CAP_MAX_TIMER :: "u64 \<Rightarrow> u64" where "HPET_CAP_MAX_TIMER cap = drop_bit 8 cap AND 0x1F"
definition HPET_CAP_PERIOD :: "u64 \<Rightarrow> u64" where "HPET_CAP_PERIOD cap = drop_bit 32 cap"
definition HPET_CNF_ENABLE :: u64 where "HPET_CNF_ENABLE = 1"
definition HPET_CNF_LEGACY :: u64 where "HPET_CNF_LEGACY = 2"
definition HPET_TIMER_CNF_TYPE_EDGE :: u64 where "HPET_TIMER_CNF_TYPE_EDGE = 0"
definition HPET_TIMER_CNF_ENABLE :: u64 where "HPET_TIMER_CNF_ENABLE = 4"
definition HPET_TIMER_CNF_PERIOD :: u64 where "HPET_TIMER_CNF_PERIOD = 8"
definition HPET_TIMER_CNF_SET :: u64 where "HPET_TIMER_CNF_SET = 0x40"
definition HPET_TIMER_CNF_INT :: "u8 \<Rightarrow> u64" where "HPET_TIMER_CNF_INT irq = push_bit 9 (ucast irq AND 0x1F)"
definition HPET_TIMER_CNF_MASK :: u64 where "HPET_TIMER_CNF_MASK = 0x7F4E"
definition HPET_TIMER_CAP_PERIOD :: u64 where "HPET_TIMER_CAP_PERIOD = 0x10"

text \<open>A shift by 64 or more is undefined in C: \<open>None\<close>.\<close>

definition HPET_TIMER_CAP_INT :: "u8 \<Rightarrow> u64 option" where
  "HPET_TIMER_CAP_INT irq = (if irq < 32 then Some (push_bit (unat irq + 32) 1) else None)"

definition hpet_address :: "mem \<Rightarrow> addr_t \<Rightarrow> u64" where "hpet_address m header = load_u64 m (header + 44)"

definition hpet_read :: "hpet_device \<Rightarrow> u32 \<Rightarrow> hpet \<Rightarrow> u64 \<times> hpet" where
  "hpet_read dev reg h =
     (let a = hpet_base h + ucast reg in (dev (hpet_regs h) a, h\<lparr>hpet_regs := HpetRead a # hpet_regs h\<rparr>))"

definition hpet_write :: "hpet_device \<Rightarrow> u32 \<Rightarrow> u64 \<Rightarrow> hpet \<Rightarrow> hpet" where
  "hpet_write dev reg v h =
     snd (hpet_read dev reg (h\<lparr>hpet_regs := HpetWrite (hpet_base h + ucast reg) v # hpet_regs h\<rparr>))"

definition hpet_write32 :: "hpet_device \<Rightarrow> u32 \<Rightarrow> u32 \<Rightarrow> hpet \<Rightarrow> hpet" where
  "hpet_write32 dev reg v h =
     snd (hpet_read dev reg (h\<lparr>hpet_regs := HpetWrite32 (hpet_base h + ucast reg) v # hpet_regs h\<rparr>))"

text \<open>The test of a timer in the loop: a periodic timer that can raise the line of the clock; only looked at for
  a timer that can be periodic.\<close>

definition timer_suits :: "u8 \<Rightarrow> cint \<Rightarrow> u64 \<Rightarrow> bool option" where
  "timer_suits gsi valid_timer cnf =
     (if cnf AND HPET_TIMER_CAP_PERIOD = 0 then Some False
      else map_option (\<lambda>b. cnf AND b \<noteq> 0 \<and> valid_timer = - 1) (HPET_TIMER_CAP_INT gsi))"

definition timer_config :: "u8 \<Rightarrow> u64 \<Rightarrow> u64" where
  "timer_config gsi cnf =
     (cnf AND NOT HPET_TIMER_CNF_MASK) OR HPET_TIMER_CNF_PERIOD OR HPET_TIMER_CNF_ENABLE OR HPET_TIMER_CNF_SET OR
     HPET_TIMER_CNF_TYPE_EDGE OR HPET_TIMER_CNF_INT gsi"

fun hpet_timers :: "hpet_device \<Rightarrow> u8 \<Rightarrow> size_t \<Rightarrow> nat list \<Rightarrow> cint \<Rightarrow> hpet \<Rightarrow> (cint \<times> hpet) option" where
  "hpet_timers dev gsi target_cmp [] valid_timer h = Some (valid_timer, h)"
| "hpet_timers dev gsi target_cmp (i # is) valid_timer h = do {
     let cnf_reg = ucast (HPET_REG_TIMER (of_nat i) + HPET_TIMER_CNF_CAP);
     let cmp_reg = ucast (HPET_REG_TIMER (of_nat i) + HPET_TIMER_CMP);
     let (timer_cnf, h) = hpet_read dev cnf_reg h;
     suits \<leftarrow> timer_suits gsi valid_timer timer_cnf;
     if suits then
       hpet_timers dev gsi target_cmp is (of_nat i)
         (hpet_write32 dev cmp_reg (ucast target_cmp) (hpet_write32 dev cmp_reg (ucast target_cmp)
           (hpet_write dev cnf_reg (timer_config gsi timer_cnf) h)))
     else
       let (v, h) = hpet_read dev cnf_reg h
       in hpet_timers dev gsi target_cmp is valid_timer (hpet_write dev cnf_reg (v AND NOT HPET_TIMER_CNF_ENABLE) h) }"

definition hpet_init :: "hpet_device \<Rightarrow> acpi \<Rightarrow> addr_t \<Rightarrow> apic \<Rightarrow> hpet \<Rightarrow> pmm \<Rightarrow> (hpet \<times> pmm \<times> cint) option" where
  "hpet_init dev c hpet_string a h s = do {
     (s, header) \<leftarrow> acpi_find_table c hpet_string s;
     if header = 0 then Some (h, s, 0)
     else do {
       (s, base) \<leftarrow> kmap c (hpet_address (pm_mem s) header) PGSIZE s;
       let (cap, h) = hpet_read dev HPET_REG_CAP (h\<lparr>hpet_base := base\<rparr>);
       let period = HPET_CAP_PERIOD cap;
       if period * HZ = 0 then None
       else do {
         let target_cmp = 1000000000000000 div (period * HZ);
         let h = h\<lparr>hpet_cap_64 := (if HPET_CAP_64COUNTER AND cap \<noteq> 0 then 1 else 0), num_timers := HPET_CAP_MAX_TIMER cap\<rparr>;
         let h = hpet_write dev HPET_REG_COUNTER 0 (hpet_write dev HPET_REG_CNF 0 h);
         (valid_timer, h) \<leftarrow> hpet_timers dev (ioapic_isa_to_gsi (pm_mem s) a 0) target_cmp [0..<unat (num_timers h) + 1] (- 1) h;
         Some (h, s, if valid_timer = - 1 then 0 else 1) } } }"

definition hpet_start :: "hpet_device \<Rightarrow> hpet \<Rightarrow> hpet" where
  "hpet_start dev h = hpet_write dev HPET_REG_CNF (HPET_CNF_ENABLE OR HPET_CNF_LEGACY) h"

section \<open>The start of the clock\<close>

definition CLOCK_IRQ :: u8 where "CLOCK_IRQ = 0"

record timer =
  tm_hpet :: hpet
  clock_type :: cint
  tm_intr :: kintr
  tm_clock :: kclock

definition arch_clock_init :: "hpet_device \<Rightarrow> acpi \<Rightarrow> addr_t \<Rightarrow> timer \<Rightarrow> (timer \<times> cint) option" where
  "arch_clock_init hdev c hpet_string t = do {
     (h, s, ok) \<leftarrow> hpet_init hdev c hpet_string (ki_apic (tm_intr t)) (tm_hpet t) (ki_pmm (tm_intr t));
     let k = (tm_intr t)\<lparr>ki_pmm := s\<rparr>;
     Some (t\<lparr>tm_hpet := h, clock_type := (if ok \<noteq> 0 then 1 else clock_type t),
       tm_intr := register_interrupt_handler (irq_to_int (pm_mem s) (ki_apic k) CLOCK_IRQ) ISR_IRQ Clock_handler k\<rparr>, 1) }"

definition arch_clock_start :: "hpet_device \<Rightarrow> timer \<Rightarrow> timer" where
  "arch_clock_start hdev t =
     (if clock_type t \<noteq> 0 then t\<lparr>tm_hpet := hpet_start hdev (tm_hpet t)\<rparr>
      else t\<lparr>tm_intr := (tm_intr t)\<lparr>ki_ports := fold (\<lambda>(p, v). outb (of_nat p) v) pit_start (ki_ports (tm_intr t))\<rparr>\<rparr>)"

text \<open>\<open>rtc\<close> stands for the real-time clock, as in \<open>Clock\<close>.\<close>

definition clock_init ::
  "mmio_device \<Rightarrow> hpet_device \<Rightarrow> (nat \<Rightarrow> nat \<Rightarrow> u8) \<Rightarrow> acpi \<Rightarrow> addr_t \<Rightarrow> timer \<Rightarrow> timer option" where
  "clock_init dev hdev rtc c hpet_string t = do {
     let t = t\<lparr>tm_clock := (tm_clock t)\<lparr>ticks := 0\<rparr>\<rparr>;
     (t, ok) \<leftarrow> arch_clock_init hdev c hpet_string t;
     if ok = 0 then None
     else do {
       ts \<leftarrow> arch_get_hw_timestamp rtc;
       let t = arch_clock_start hdev (t\<lparr>tm_clock := (tm_clock t)\<lparr>current_timestamp := ts\<rparr>\<rparr>);
       k \<leftarrow> interrupt_enable_irq dev CLOCK_IRQ (tm_intr t);
       Some (t\<lparr>tm_intr := k\<rparr>) } }"

section \<open>The timer that is programmed\<close>

text \<open>The writes to the compare registers, the latest first.\<close>

definition compare_writes :: "hpet_event list \<Rightarrow> hpet_event list" where
  "compare_writes = filter (\<lambda>e. case e of HpetWrite32 a v \<Rightarrow> True | _ \<Rightarrow> False)"

lemma hpet_read_state [simp]:
  "hpet_base (snd (hpet_read dev reg h)) = hpet_base h"
  "compare_writes (hpet_regs (snd (hpet_read dev reg h))) = compare_writes (hpet_regs h)"
  by (simp_all add: hpet_read_def compare_writes_def Let_def)

lemma hpet_write_state [simp]:
  "hpet_base (hpet_write dev reg v h) = hpet_base h"
  "compare_writes (hpet_regs (hpet_write dev reg v h)) = compare_writes (hpet_regs h)"
  by (simp_all add: hpet_write_def) (simp add: compare_writes_def)

lemma hpet_write32_state [simp]:
  "hpet_base (hpet_write32 dev reg v h) = hpet_base h"
  "compare_writes (hpet_regs (hpet_write32 dev reg v h)) = HpetWrite32 (hpet_base h + ucast reg) v # compare_writes (hpet_regs h)"
  by (simp_all add: hpet_write32_def) (simp add: compare_writes_def)

lemma timer_suits_some: "gsi < 32 \<Longrightarrow> \<exists>b. timer_suits gsi v cnf = Some b \<and> (b \<longrightarrow> v = - 1)"
  by (auto simp: timer_suits_def HPET_TIMER_CAP_INT_def)

text \<open>The loop over the timers programs none, or the first that suits, twice, with the interval it is given.\<close>

lemma hpet_timers_one:
  assumes "gsi < 32" "\<forall>i \<in> set is. i < 32"
  shows "\<exists>v' h'. hpet_timers dev gsi tgt is v h = Some (v', h') \<and> hpet_base h' = hpet_base h \<and>
    (v' = v \<and> compare_writes (hpet_regs h') = compare_writes (hpet_regs h) \<or>
     v = - 1 \<and> v' \<noteq> - 1 \<and> (\<exists>i \<in> set is. compare_writes (hpet_regs h') =
       replicate 2 (HpetWrite32 (hpet_base h + (0x108 + 0x20 * of_nat i)) (ucast tgt)) @ compare_writes (hpet_regs h)))"
  using assms(2)
proof (induction "is" arbitrary: v h)
  case (Cons i "is")
  let ?cnf = "ucast (HPET_REG_TIMER (of_nat i) + HPET_TIMER_CNF_CAP) :: u32"
  let ?cmp = "ucast (HPET_REG_TIMER (of_nat i) + HPET_TIMER_CMP) :: u32"
  obtain c h1 where r: "hpet_read dev ?cnf h = (c, h1)" by fastforce
  have h1: "hpet_base h1 = hpet_base h" "compare_writes (hpet_regs h1) = compare_writes (hpet_regs h)"
    using hpet_read_state [of dev ?cnf h] by (simp_all add: r)
  obtain b where b: "timer_suits gsi v c = Some b" "b \<longrightarrow> v = - 1" using timer_suits_some [OF assms(1)] by blast
  show ?case
  proof (cases b)
    case True
    let ?h = "hpet_write32 dev ?cmp (ucast tgt) (hpet_write32 dev ?cmp (ucast tgt) (hpet_write dev ?cnf (timer_config gsi c) h1))"
    have i: "i < 32" using Cons.prems by simp
    have "(of_nat i :: cint) \<noteq> - 1"
    proof
      assume "(of_nat i :: cint) = - 1"
      then have "unat (of_nat i :: cint) = unat (- 1 :: cint)" by simp
      then show False using i by (simp add: unsigned_of_nat take_bit_nat_eq_self unsigned_minus_1_eq_mask mask_eq_exp_minus_1)
    qed
    moreover have "(ucast ?cmp :: addr_t) = 0x108 + 0x20 * of_nat i"
    proof -
      have e: "HPET_REG_TIMER (of_nat i) + HPET_TIMER_CMP = of_nat (32 * i + 264)"
        by (simp add: HPET_REG_TIMER_def HPET_TIMER_CMP_def algebra_simps)
      have "unat (ucast ?cmp :: addr_t) = 32 * i + 264"
        unfolding unat_ucast32 e using i by (simp add: unsigned_ucast_eq unsigned_of_nat take_bit_nat_eq_self del: of_nat_add of_nat_mult of_nat_numeral)
      moreover have "unat (0x108 + 0x20 * of_nat i :: addr_t) = 32 * i + 264"
      proof -
        have "(0x108 + 0x20 * of_nat i :: addr_t) = of_nat (32 * i + 264)" by (simp add: algebra_simps)
        then show ?thesis using i by (simp only: unat_of_nat) simp
      qed
      ultimately show ?thesis by (simp add: word_unat_eq_iff)
    qed
    ultimately show ?thesis
      using Cons.IH [of "of_nat i" ?h] Cons.prems True b r h1 by (fastforce simp: Let_def numeral_2_eq_2)
  next
    case False
    obtain c2 h2 where r2: "hpet_read dev ?cnf h1 = (c2, h2)" by fastforce
    have h2: "hpet_base h2 = hpet_base h1" "compare_writes (hpet_regs h2) = compare_writes (hpet_regs h1)"
      using hpet_read_state [of dev ?cnf h1] by (simp_all add: r2)
    show ?thesis
      using Cons.IH [of v "hpet_write dev ?cnf (c2 AND NOT HPET_TIMER_CNF_ENABLE) h2"] Cons.prems False b r r2 h1 h2
      by (auto simp: Let_def)
  qed
qed simp

text \<open>A machine on which \<open>hpet_init\<close> ends: the tables are mapped, and when there is a table of the timer, the
  page of its registers is mapped and the register of its capabilities holds \<open>cap\<close>, with a period.\<close>

definition hpet_ready :: "hpet_device \<Rightarrow> acpi \<Rightarrow> pmm \<Rightarrow> nat \<Rightarrow> addr_t \<Rightarrow> u64 \<Rightarrow> bool" where
  "hpet_ready dev c s k hpet_string cap \<longleftrightarrow> tables_ok c s k \<and>
     (let header = first_table c s k hpet_string; phy = hpet_address (pm_mem s) header
      in header \<noteq> 0 \<longrightarrow> kernel_mapped c s phy \<and> (\<forall>h. dev h (kaddr phy) = cap) \<and> drop_bit 32 cap * 100 \<noteq> 0)"

lemma hpet_init_ok:
  assumes "hpet_ready dev c s k sig cap" "ioapic_isa_to_gsi (pm_mem s) a 0 < 32"
  shows "\<exists>h' ok. hpet_init dev c sig a h s = Some (h', s, ok) \<and> (ok \<noteq> 0 \<longrightarrow> (\<exists>i<32.
    compare_writes (hpet_regs h') = replicate 2 (HpetWrite32 (hpet_base h' + (0x108 + 0x20 * of_nat i))
      (ucast (1000000000000000 div (drop_bit 32 cap * 100)))) @ compare_writes (hpet_regs h)))"
proof -
  have t: "acpi_find_table c sig s = Some (s, first_table c s k sig)"
    using assms(1) by (intro acpi_find_table_ok) (simp add: hpet_ready_def)
  show ?thesis
  proof (cases "first_table c s k sig = 0")
    case True
    then show ?thesis by (simp add: hpet_init_def t)
  next
    case False
    let ?phy = "hpet_address (pm_mem s) (first_table c s k sig)"
    have r: "kmap c ?phy PGSIZE s = Some (s, kaddr ?phy)" "\<forall>h. dev h (kaddr ?phy) = cap" "drop_bit 32 cap * 100 \<noteq> 0"
      using assms(1) False by (auto simp: hpet_ready_def Let_def kmap_mapped)
    let ?h0 = "hpet_write dev HPET_REG_COUNTER 0 (hpet_write dev HPET_REG_CNF 0
      (snd (hpet_read dev HPET_REG_CAP (h\<lparr>hpet_base := kaddr ?phy\<rparr>))
        \<lparr>hpet_cap_64 := (if HPET_CAP_64COUNTER AND cap \<noteq> 0 then 1 else 0), num_timers := HPET_CAP_MAX_TIMER cap\<rparr>))"
    have c: "hpet_read dev HPET_REG_CAP (h\<lparr>hpet_base := kaddr ?phy\<rparr>) =
        (cap, snd (hpet_read dev HPET_REG_CAP (h\<lparr>hpet_base := kaddr ?phy\<rparr>)))"
      using r(2) by (simp add: hpet_read_def HPET_REG_CAP_def Let_def)
    have nt: "unat (HPET_CAP_MAX_TIMER cap) < 32"
    proof -
      have "HPET_CAP_MAX_TIMER cap = take_bit 5 (drop_bit 8 cap)" by (simp add: HPET_CAP_MAX_TIMER_def take_bit_eq_mask mask_eq_exp_minus_1)
      then show ?thesis using take_bit_nat_less_exp [of 5 "unat (drop_bit 8 cap)"] by (simp add: unsigned_take_bit_eq)
    qed
    have num: "num_timers ?h0 = HPET_CAP_MAX_TIMER cap" by (simp add: hpet_write_def hpet_read_def Let_def)
    define tgt :: u64 where "tgt = 1000000000000000 div (drop_bit 32 cap * 100)"
    let ?is = "[0..<unat (HPET_CAP_MAX_TIMER cap) + 1]" and ?g = "ioapic_isa_to_gsi (pm_mem s) a 0"
    have cw: "compare_writes (hpet_regs ?h0) = compare_writes (hpet_regs h)" by simp
    obtain v' h' where l: "hpet_timers dev ?g tgt ?is (- 1) ?h0 = Some (v', h')" "hpet_base h' = hpet_base ?h0"
        "v' \<noteq> - 1 \<longrightarrow> (\<exists>i \<in> set ?is. compare_writes (hpet_regs h') =
          replicate 2 (HpetWrite32 (hpet_base ?h0 + (0x108 + 0x20 * of_nat i)) (ucast tgt)) @ compare_writes (hpet_regs ?h0))"
      using hpet_timers_one [OF assms(2), of ?is dev tgt "- 1" ?h0] nt by fastforce
    have "hpet_init dev c sig a h s = Some (h', s, if v' = - 1 then 0 else 1)"
      unfolding hpet_init_def t bind.simps Let_def prod.case if_not_P [OF False] r(1)
      by (subst c) (use False r(1,3) l(1) num in \<open>simp add: HPET_CAP_PERIOD_def HZ_def tgt_def\<close>)
    moreover have "\<exists>i<32. compare_writes (hpet_regs h') =
        replicate 2 (HpetWrite32 (hpet_base h' + (0x108 + 0x20 * of_nat i)) (ucast tgt)) @ compare_writes (hpet_regs h)" if "v' \<noteq> - 1"
    proof -
      from l(3) that obtain i where "i \<in> set ?is" "compare_writes (hpet_regs h') =
          replicate 2 (HpetWrite32 (hpet_base ?h0 + (0x108 + 0x20 * of_nat i)) (ucast tgt)) @ compare_writes (hpet_regs ?h0)" by blast
      then show ?thesis using nt unfolding l(2) cw by (intro exI [of _ i]) auto
    qed
    ultimately show ?thesis unfolding tgt_def by auto
  qed
qed

section \<open>Clock interrupts arrive\<close>

lemma ioapic_unmask_one:
  assumes "one_ioapic dev n reset io a" "in_range io n gsi"
  shows "\<exists>h. ioapic_unmask dev gsi a = Some (a\<lparr>regs := h\<rparr>) \<and> \<not> bit (entry_of reset io (a\<lparr>regs := h\<rparr>) gsi) 16 \<and>
    (\<forall>b. b \<notin> {12, 14, 44, 46, 16} \<longrightarrow> bit (entry_of reset io (a\<lparr>regs := h\<rparr>) gsi) b = bit (entry_of reset io a gsi) b)"
proof -
  from ioapic_update_one [OF assms, of "\<lambda>v. v AND NOT APIC_IRQ_MASK"] obtain v h where
    u: "ioapic_update (\<lambda>v. v AND NOT APIC_IRQ_MASK) dev gsi a = Some (a\<lparr>regs := h\<rparr>)"
      "v AND NOT ioapic_owned = entry_of reset io a gsi AND NOT ioapic_owned"
      "entry_of reset io (a\<lparr>regs := h\<rparr>) gsi = v AND NOT APIC_IRQ_MASK" by blast
  have "bit (entry_of reset io (a\<lparr>regs := h\<rparr>) gsi) b = (bit v b \<and> b \<noteq> 16)" for b
    unfolding u(3) by (auto simp: bit_and_iff bit_not_iff bit_irq_mask dest: bit_imp_le_length)
  then show ?thesis using u(1) writable_bit [OF u(2)] by (intro exI [of _ h]) (auto simp: ioapic_unmask_def)
qed

text \<open>The entry of a line delivers the vector \<open>v\<close>, in fixed mode, to the local controller \<open>cpu\<close>.\<close>

definition delivers :: "u64 \<Rightarrow> u8 \<Rightarrow> u8 \<Rightarrow> bool" where
  "delivers e v cpu \<longleftrightarrow> take_bit 12 e = ucast v \<and> \<not> bit e 16 \<and> drop_bit 56 e = ucast cpu"

lemma unmasked_delivers:
  fixes e e' :: u64
  assumes "take_bit 12 e = ucast v" "drop_bit 56 e = ucast cpu" "\<not> bit e' 16"
    and "\<And>b. b \<notin> {12, 14, 44, 46, 16} \<Longrightarrow> bit e' b = bit e b"
  shows "delivers e' v cpu"
proof -
  have "take_bit 12 e' = take_bit 12 e" by (rule bit_word_eqI) (auto simp: bit_simps assms(4))
  moreover have "drop_bit 56 e' = drop_bit 56 e" by (rule bit_word_eqI) (auto simp: bit_simps assms(4))
  ultimately show ?thesis using assms(1-3) by (simp add: delivers_def)
qed

text \<open>The device that was started: the interval timer at its divisor 11931, or one timer of the high precision
  timer with the period of a hundredth of a second.\<close>

definition started :: "u64 \<Rightarrow> port_history \<Rightarrow> timer \<Rightarrow> bool" where
  "started cap ports t \<longleftrightarrow>
     (if clock_type t = 0 then ki_ports (tm_intr t) = Out 0x40 0x2E # Out 0x40 0x9B # Out 0x43 0x34 # ports
      else \<exists>i<32. let base = hpet_base (tm_hpet t) in
        compare_writes (hpet_regs (tm_hpet t)) =
          replicate 2 (HpetWrite32 (base + (0x108 + 0x20 * of_nat i)) (ucast (10 ^ 15 div (drop_bit 32 cap * 100)))) \<and>
        take 2 (hpet_regs (tm_hpet t)) = [HpetRead (base + 0x10), HpetWrite (base + 0x10) 3])"

lemma started_apic [simp]: "started cap ports (t\<lparr>tm_intr := (tm_intr t)\<lparr>ki_apic := a\<rparr>\<rparr>) = started cap ports t"
  by (simp add: started_def)

lemma arch_clock_start_started:
  assumes "clock_type t \<noteq> 0 \<longrightarrow> (\<exists>i<32. compare_writes (hpet_regs (tm_hpet t)) =
      replicate 2 (HpetWrite32 (hpet_base (tm_hpet t) + (0x108 + 0x20 * of_nat i)) (ucast (1000000000000000 div (drop_bit 32 cap * 100)))))"
  shows "started cap (ki_ports (tm_intr t)) (arch_clock_start hdev t)"
proof (cases "clock_type t = 0")
  case True
  then show ?thesis by (simp add: arch_clock_start_def started_def pit_start_def outb_def TIMER_FREQ_def HZ_def)
next
  case False
  have "take 2 (hpet_regs (hpet_start hdev h)) = [HpetRead (hpet_base h + 0x10), HpetWrite (hpet_base h + 0x10) 3]" for h
    by (simp add: hpet_start_def hpet_write_def hpet_read_def HPET_REG_CNF_def HPET_CNF_ENABLE_def HPET_CNF_LEGACY_def Let_def)
  then show ?thesis using False assms
    by (simp add: arch_clock_start_def started_def Let_def) (simp add: hpet_start_def)
qed


text \<open>A sample: a machine without a high precision timer whose interrupt 0 is routed to vector 32, masked.\<close>

definition sample_timer :: timer where
  "sample_timer = \<lparr>tm_hpet = \<lparr>hpet_base = 0, num_timers = 0, hpet_cap_64 = 0, hpet_regs = []\<rparr>, clock_type = 0,
     tm_intr = sample_kintr\<lparr>apic_init_ok := True,
       ki_apic := sample_apic\<lparr>regs := ioapic_redtbl_write (io_base sample_ioapic) 0 0x10020 []\<rparr>\<rparr>,
     tm_clock = \<lparr>ticks = 77, current_timestamp = 0\<rparr>\<rparr>"

lemma sample_no_hpet: "hpet_ready hdev sample_acpi sample_pmm 2 (kaddr 0x10DB) cap"
proof -
  have b: "pm_mem sample_pmm 0xFFFF800000001054 = 70" "pm_mem sample_pmm 0xFFFF800000001078 = 65"
      "pm_mem sample_pmm 0xFFFF8000000010DB = 80"
    by (simp_all add: sample_pmm_def mem_of_def sample_length kaddr_def KERN_BASE_def) (simp_all add: sample_tables_def)
  have "\<not> has_signature (pm_mem sample_pmm) (kaddr 0x10DB) 0x1054" "\<not> has_signature (pm_mem sample_pmm) (kaddr 0x10DB) 0x1078"
    using b by (auto simp: has_signature_def kaddr_def KERN_BASE_def intro!: exI [of _ 0])
  then have "first_table sample_acpi sample_pmm 2 (kaddr 0x10DB) = 0"
    by (simp add: first_table_def sample_fields)
  then show ?thesis using sample_first(1) by (simp add: hpet_ready_def)
qed


end
