(* ===== verification/Spec2Isabelle.thy ===== *)
theory Spec2Isabelle
  imports Slab Arith64 Timer
begin

text \<open>
  A verification development for the GeekToyOS kernel, a small operating system in C for i386 and x86_64; this
  development models the x86_64 build (\<open>ARCH_64BIT\<close>; the README says that the i386 build does not work).

  \<^bold>\<open>The program.\<close>  The boot loader hands over a list of tags in memory (\<open>kernel/multiboot2.c\<close>).  Early start-up
  takes pages from a bump allocator and records the usable memory in a bitmap (\<open>kernel/mm/memory.c\<close>,
  \<open>lib/bitmap.c\<close>); then the pages go to a buddy allocator (\<open>kernel/mm/buddy.c\<close>, over the intrusive lists of
  \<open>lib/list.h\<close>), on which the slab caches and \<open>kmalloc\<close> rest (\<open>kernel/mm/slab.c\<close>).  The page tables
  (\<open>arch/x86_64/mm.c\<close>) take their tables from the same allocator.  The console (\<open>kernel/console.c\<close>) prints through
  \<open>lib/printfmt.c\<close> to a serial line and to a screen (\<open>drivers/serial.c\<close>, \<open>drivers/video.c\<close>) under a spin lock
  (\<open>kernel/spinlock.c\<close>); \<open>kernel/proc/sched.c\<close> counts preemption.  ACPI tables name the interrupt controllers
  (\<open>drivers/acpi.c\<close>, \<open>arch/x86/apic.c\<close>), the interrupt core dispatches to handlers (\<open>arch/x86/interrupt.c\<close>,
  \<open>kernel/interrupt.c\<close>, \<open>arch/x86_64/idt.c\<close>), and one of them is the clock (\<open>kernel/clock.c\<close>, \<open>arch/x86/clock.c\<close>,
  \<open>arch/x86/hpet.c\<close>, \<open>lib/time.c\<close>).

  \<^bold>\<open>How the code is modelled.\<close>  A C integer of w bits is a \<open>w word\<close>, with wrapping arithmetic, and signed reads go
  through \<open>sint\<close>, \<open>scast\<close> and the signed comparisons.  The static variables of a file are a record that the
  operations take and return.  Memory is a function from addresses to bytes (\<open>mem\<close>) where the code casts
  or shares it: strings, boot information, free lists of slabs, page tables, ACPI tables, frame buffer; structures
  that are only reached by their own pointers are records in a store.  \<open>None\<close> is a run that has no result: a fault, undefined
  behaviour, a panic, or a loop that never ends, and each definition says which; a loop whose end is not obvious is
  a \<open>partial_function (option)\<close>, so that its termination is a theorem (\<open>Some\<close>) and so is its divergence (\<open>None\<close>).
  Devices are arbitrary functions of the history of accesses, and what the hardware promises of them is a
  named hypothesis (\<open>ioapic_device\<close>, \<open>hpet_ready\<close>), for which a witness gives an instance.  Log messages are left out,
  except in \<open>Console\<close>, where the messages themselves are the subject.

  \<^bold>\<open>The theories\<close>, from the bottom up:
  \<^item> \<open>Prelude\<close>: the integer types, the macros of \<open>lib/const.h\<close>, and facts about words and lists.
  \<^item> \<open>BitStore\<close>, \<open>Bitmap\<close>: the interface \<open>bit_store\<close> (search and update of bits, and the counting of runs of pages
    on top of it) and \<open>lib/bitmap.c\<close>, which interprets it (\<open>page_bits\<close>).  \<open>bitmap_set\<close> changes the bits of its range and
    no others; \<open>bitmap_find\<close> finds the least bit of a value in its range.
  \<^item> \<open>DList\<close>: the macros of \<open>lib/list.h\<close> as assignments to a store of nodes; the interface \<open>intrusive_list\<close>, which
    hides the pointers behind \<open>ring\<close>, and its interpretation \<open>kernel_list\<close>.
  \<^item> \<open>Buddy\<close>: \<open>kernel/mm/buddy.c\<close>.  A zone invariant with a set of free pages: freeing adds the pages given,
    allocation at an order takes one aligned block; and the effect of the marks the code forgets to clear.
  \<^item> \<open>Arith64\<close>: \<open>lib/div.c\<close>; the shift-and-subtract loops equal word division and remainder.
  \<^item> \<open>CString\<close>, \<open>Layout\<close>: \<open>lib/string.c\<close> on byte memory, with the bytes \<open>memcpy\<close> writes too much; fields of structures.
  \<^item> \<open>Multiboot\<close>: the search for a tag; it ends with the first match, or loops on a tag of size zero.
  \<^item> \<open>PhysMem\<close>: \<open>kernel/mm/memory.c\<close>.  Which pages \<open>mem_map_init\<close> makes available, stated on natural numbers;
    \<open>pmm_init\<close> hands exactly them to the buddy allocator; \<open>mm_phy_page_alloc\<close> refines taking an element of the set of free pages.
  \<^item> \<open>Slab\<close>: \<open>kernel/mm/slab.c\<close>.  An invariant of lists, free lists and counters; the objects in use as the abstract set.
  \<^item> \<open>Paging\<close>: \<open>arch/x86_64/mm.c\<close>.  After \<open>map_region\<close> of a page the lookup returns the physical address, through missing
    tables and split large pages; how \<open>arch_map_region\<close> cuts a region into pieces, and where the rounding wraps.
  \<^item> \<open>Printfmt\<close>: \<open>lib/printfmt.c\<close> and \<open>lib/error.c\<close> over any character sink; the interface \<open>sink_morphism\<close> carries facts
    from the list of characters to any sink (interpretation \<open>printed\<close>).  \<open>vsnprintf\<close> stays in its buffer, and the digits read back.
  \<^item> \<open>Calendar\<close>, \<open>Clock\<close>: \<open>lib/time.c\<close>, \<open>kernel/clock.c\<close> and the real-time clock: \<open>mktime\<close> inverts \<open>gmtime\<close>, \<open>strftime\<close>, the
    counting of interrupts, the waiting loops.
  \<^item> \<open>Spinlock\<close>: atomic operations, the lock as a step relation of interleaved processors with an invariant by rule
    induction, the preemption counter.
  \<^item> \<open>Serial\<close>, \<open>Video\<close>, \<open>Screen\<close>, \<open>Console\<close>: port accesses as a history; drawing in the buffer, then what the frame buffer
    shows; the console refines a terminal of cells; and the deadlock of messages under a lock.
  \<^item> \<open>Acpi\<close>, \<open>Apic\<close>, \<open>Routing\<close>: processor features and tables; the controllers' registers, their start-up, and the
    routing, masking and unmasking of lines.
  \<^item> \<open>Interrupt\<close>, \<open>Timer\<close>: descriptor table, legacy controllers, handlers and dispatch; the high precision timer, and
    \<open>clock_init\<close>, after which the clock's interrupts reach its handler.
  \<^item> \<open>Spec2Isabelle\<close>, this theory: \<open>mm_init\<close>, the start-up that joins the allocators.

  \<^bold>\<open>Bounds and fuel.\<close>  Two loops carry a bound as an argument: the search for a run of pages (\<open>run_search\<close>, \<open>free_runs\<close>) has
  one step more than the map has pages, and every step moves on by at least one page; the loop over the pages of a region
  (\<open>map_pages\<close>) has as many steps as the region has pages.  So neither bound is ever used up.
  Theorems about whole machines name their sizes: memory below 8 TB for \<open>mem_map_init\<close>, page frames below \<open>2 ^ 31\<close> for the page tables, at
  most 120 lines of an I/O controller.

  \<^bold>\<open>Where the model is stricter than the code.\<close>  \<open>va_arg\<close> of the wrong kind (\<open>%p\<close> of a string) is \<open>None\<close>, where the
  machine would print the pointer; a pointer to an uninitialised list node cannot be expressed; the \<open>error\<close> of an impossible
  pixel size in the screen driver is \<open>None\<close>, since it hangs under the console's lock.

  \<^bold>\<open>Not modelled.\<close>  The i386 port; assembly code, the entry from the boot loader and the start of the other
  processors (\<open>arch/x86_64/smp.c\<close> except \<open>smp_percpu_init\<close>); the order in which \<open>kernel_main\<close> calls the start-up functions;
  segments and task states, which only assembly code uses; the body of the idle loop.
\<close>

section \<open>Start-up of the allocators\<close>

text \<open>\<open>mm_init\<close> of \<open>kernel/mm/memory.c\<close>: the buddy allocator, then the slab caches.\<close>

definition mm_init :: "addr_t \<Rightarrow> kmem \<Rightarrow> kmem option" where
  "mm_init slab_cache k =
     do { p \<leftarrow> pmm_init (km_pmm k); kmem_init slab_cache (k\<lparr>km_pmm := p\<rparr>) }"

end
